(* ===== verification/Prelude.thy ===== *)
theory Prelude
  imports Main "HOL-Library.Word"
begin

text \<open>
  The vocabulary every component shares: the machine integers of the C++ code at their
  width, the ways a C++ operation can fail (as values), the bind of fallible operations,
  raw memory copies with their bounds, and the insert-if-absent of the standard maps.
  The collection \<open>result_simps\<close> holds the equations that take a fallible operation
  apart.
\<close>

unbundle bit_operations_syntax

section \<open>Machine integers\<close>

text \<open>
  \<open>size_t\<close> and \<open>unsigned long\<close> are 64 bits wide on the platform the code is
  written for (Linux, epoll), \<open>uint32_t\<close> and \<open>uint16_t\<close> as they say. An
  \<open>int\<close> that is only a file descriptor or a system call's result is an unbounded
  \<open>int\<close>: the code never computes with it beyond comparing.
\<close>

type_synonym u16 = "16 word"
type_synonym u32 = "32 word"
type_synonym u64 = "64 word"
type_synonym fd = int

section \<open>Failures as values\<close>

text \<open>
  The exceptions the code throws, by their standard class, and the undefined behaviour the
  code can run into, by kind: a dereferenced null pointer, an access outside an object, a
  past-the-end iterator dereferenced (the build sets \<open>-D_GLIBCXX_DEBUG\<close>, where this
  aborts), a reference used after its object is gone, a mutex locked again by its owner,
  a failed \<open>assert\<close>, a division by zero and a call of \<open>exit\<close>. The last two are not of the code: \<open>StackExhausted\<close> is
  what a model of nested calls yields when its depth bound is reached, and \<open>NeverReturns\<close> what
  a notification yields whose handler loops for ever; both are proved not to occur.
\<close>

datatype cxx_error =
    LogicError string
  | RuntimeError string
  | OutOfRange
  | LengthError
  | NullDeref
  | OutOfBounds
  | DebugAbort
  | UseAfterFree
  | SelfDeadlock
  | AssertFailed
  | DivByZero
  | Exited int
  | StackExhausted
  | NeverReturns

type_synonym 'a result = "cxx_error + 'a"

definition bindR :: "'a result \<Rightarrow> ('a \<Rightarrow> 'b result) \<Rightarrow> 'b result" where
  "bindR x f = (case x of Inl e \<Rightarrow> Inl e | Inr a \<Rightarrow> f a)"

named_theorems result_simps \<open>equations that take a fallible operation apart\<close>

lemma bindR_Inl [simp]: "bindR (Inl e) f = Inl e"
  by (simp add: bindR_def)

lemma bindR_Inr [simp]: "bindR (Inr a) f = f a"
  by (simp add: bindR_def)

lemma bindR_Inr_right [simp]: "bindR x Inr = x"
  by (cases x) auto

lemma bindR_eq_Inr [result_simps]: "bindR x f = Inr y \<longleftrightarrow> (\<exists>a. x = Inr a \<and> f a = Inr y)"
  by (cases x) auto

lemma bindR_eq_Inl [result_simps]:
  "bindR x f = Inl e \<longleftrightarrow> x = Inl e \<or> (\<exists>a. x = Inr a \<and> f a = Inl e)"
  by (cases x) auto

lemma bindR_assoc: "bindR (bindR x f) g = bindR x (\<lambda>a. bindR (f a) g)"
  by (cases x) auto

lemma bindR_cong [fundef_cong]:
  "x = y \<Longrightarrow> (\<And>a. y = Inr a \<Longrightarrow> f a = g a) \<Longrightarrow> bindR x f = bindR y g"
  by (cases y) auto

text \<open>The bind of operations that may also never return, which is the value \<open>None\<close>.\<close>

definition bindO :: "'a result option \<Rightarrow> ('a \<Rightarrow> 'b result option) \<Rightarrow> 'b result option" where
  "bindO x f = (case x of None \<Rightarrow> None | Some (Inl err) \<Rightarrow> Some (Inl err) | Some (Inr a) \<Rightarrow> f a)"

lemma bindO_simps [simp]:
  "bindO None f = None" "bindO (Some (Inl err)) f = Some (Inl err)" "bindO (Some (Inr a)) f = f a"
  by (simp_all add: bindO_def)

lemma bindO_eq_Inr [result_simps]:
  "bindO x f = Some (Inr y) \<longleftrightarrow> (\<exists>a. x = Some (Inr a) \<and> f a = Some (Inr y))"
  by (auto simp: bindO_def split: option.splits sum.splits)

section \<open>Raw memory\<close>

text \<open>
  A block of memory is a \<open>char list\<close>; a pointer into it is an offset. \<open>overwrite\<close>
  is the effect of copying \<open>src\<close> to offset \<open>off\<close>; \<open>write_mem\<close> is the same with
  the bounds, and \<open>read_mem\<close> reads \<open>len\<close> bytes from the start of a block.
\<close>

definition overwrite :: "'a list \<Rightarrow> nat \<Rightarrow> 'a list \<Rightarrow> 'a list" where
  "overwrite st off src = take off st @ src @ drop (off + length src) st"

definition write_mem :: "'a list \<Rightarrow> nat \<Rightarrow> 'a list \<Rightarrow> 'a list result" where
  "write_mem st off src =
     (if off + length src \<le> length st then Inr (overwrite st off src) else Inl OutOfBounds)"

definition read_mem :: "'a list \<Rightarrow> nat \<Rightarrow> nat \<Rightarrow> 'a list result" where
  "read_mem st off len =
     (if off + len \<le> length st then Inr (take len (drop off st)) else Inl OutOfBounds)"

lemma length_overwrite [simp]:
  "off + length src \<le> length st \<Longrightarrow> length (overwrite st off src) = length st"
  by (simp add: overwrite_def)

lemma take_overwrite [simp]:
  "n \<le> off \<Longrightarrow> off \<le> length st \<Longrightarrow> take n (overwrite st off src) = take n st"
  by (simp add: overwrite_def min_def)

lemma drop_overwrite_before:
  "m \<le> off \<Longrightarrow> off + length src \<le> length st \<Longrightarrow>
   drop m (overwrite st off src) = overwrite (drop m st) (off - m) src"
  by (simp add: overwrite_def drop_take)

lemma take_overwrite_end [simp]:
  "off + length src \<le> length st \<Longrightarrow>
   take (off + length src) (overwrite st off src) = take off st @ src"
  by (simp add: overwrite_def)

lemma overwrite_0: "overwrite st 0 src = src @ drop (length src) st"
  by (simp add: overwrite_def)

section \<open>Maps\<close>

text \<open>
  \<open>emplace\<close> of the standard maps inserts only when the key is absent; the flag says
  whether it did. \<open>erase\<close> removes a key.
\<close>

definition emplace :: "('k \<rightharpoonup> 'v) \<Rightarrow> 'k \<Rightarrow> 'v \<Rightarrow> ('k \<rightharpoonup> 'v)" where
  "emplace m k v = (case m k of None \<Rightarrow> m(k \<mapsto> v) | Some _ \<Rightarrow> m)"

definition erase :: "('k \<rightharpoonup> 'v) \<Rightarrow> 'k \<Rightarrow> ('k \<rightharpoonup> 'v)" where
  "erase m k = m(k := None)"

lemma emplace_fresh [simp]: "m k = None \<Longrightarrow> emplace m k v = m(k \<mapsto> v)"
  by (simp add: emplace_def)

lemma emplace_present [simp]: "m k = Some w \<Longrightarrow> emplace m k v = m"
  by (simp add: emplace_def)

lemma emplace_other [simp]: "k' \<noteq> k \<Longrightarrow> emplace m k v k' = m k'"
  by (simp add: emplace_def split: option.splits)

lemma dom_emplace [simp]: "dom (emplace m k v) = insert k (dom m)"
  by (auto simp: emplace_def split: option.splits)

lemma erase_same [simp]: "erase m k k = None"
  by (simp add: erase_def)

lemma erase_other [simp]: "k' \<noteq> k \<Longrightarrow> erase m k k' = m k'"
  by (simp add: erase_def)

lemma dom_erase [simp]: "dom (erase m k) = dom m - {k}"
  by (auto simp: erase_def)

end
