(* ===== verification/Byte_Fifo.thy ===== *)
theory Byte_Fifo
  imports Prelude
begin

text \<open>
  What a connection expects of its byte buffers: a queue of bytes. The theory holds the
  abstract queue as a machine over requests, and the interface \<open>byte_fifo\<close> between a
  buffer class and its clients, with the simulation of the abstract machine proved once
  from the interface's laws.
\<close>

section \<open>The abstract queue\<close>

datatype fifo_op = Put string | Take u64 | Discard u64

text \<open>One request: the bytes handed out and the bytes still queued, or a refusal.\<close>

fun spec_step :: "fifo_op \<Rightarrow> string \<Rightarrow> (string \<times> string) option" where
  "spec_step (Put s) q = Some ([], q @ s)"
| "spec_step (Take n) q =
     (if unat n \<le> length q then Some (take (unat n) q, drop (unat n) q) else None)"
| "spec_step (Discard n) q = (if unat n \<le> length q then Some ([], drop (unat n) q) else None)"

fun spec_run :: "fifo_op list \<Rightarrow> string \<Rightarrow> (string \<times> string) option" where
  "spec_run [] q = Some ([], q)"
| "spec_run (x # xs) q =
     (case spec_step x q of
        None \<Rightarrow> None
      | Some (out, q1) \<Rightarrow>
          (case spec_run xs q1 of None \<Rightarrow> None | Some (outs, q2) \<Rightarrow> Some (out @ outs, q2)))"

fun puts :: "fifo_op list \<Rightarrow> string" where
  "puts [] = []"
| "puts (Put s # xs) = s @ puts xs"
| "puts (_ # xs) = puts xs"

fun no_discard :: "fifo_op list \<Rightarrow> bool" where
  "no_discard [] = True"
| "no_discard (Discard _ # xs) = False"
| "no_discard (_ # xs) = no_discard xs"

text \<open>Nothing is lost, duplicated or reordered.\<close>

lemma spec_run_conserves:
  "spec_run ops q = Some (out, q') \<Longrightarrow> no_discard ops \<Longrightarrow> out @ q' = q @ puts ops"
proof (induction ops arbitrary: q out q')
  case (Cons x ops)
  then show ?case
    by (cases x) (fastforce split: option.splits if_splits prod.splits)+
qed simp

section \<open>The interface of a buffer\<close>

text \<open>The same requests on a buffer, stopping at the first exception.\<close>

fun impl_step ::
  "(char list option \<Rightarrow> u64 \<Rightarrow> 'b \<Rightarrow> 'b result) \<Rightarrow> (u64 \<Rightarrow> 'b \<Rightarrow> (string \<times> 'b) result) \<Rightarrow>
   (u64 \<Rightarrow> 'b \<Rightarrow> 'b result) \<Rightarrow> fifo_op \<Rightarrow> 'b \<Rightarrow> (string \<times> 'b) result" where
  "impl_step put get dis (Put s) b =
     bindR (put (Some s) (word_of_nat (length s)) b) (\<lambda>b'. Inr ([], b'))"
| "impl_step put get dis (Take n) b = get n b"
| "impl_step put get dis (Discard n) b = bindR (dis n b) (\<lambda>b'. Inr ([], b'))"

fun impl_run ::
  "(char list option \<Rightarrow> u64 \<Rightarrow> 'b \<Rightarrow> 'b result) \<Rightarrow> (u64 \<Rightarrow> 'b \<Rightarrow> (string \<times> 'b) result) \<Rightarrow>
   (u64 \<Rightarrow> 'b \<Rightarrow> 'b result) \<Rightarrow> fifo_op list \<Rightarrow> 'b \<Rightarrow> (string \<times> 'b) result" where
  "impl_run put get dis [] b = Inr ([], b)"
| "impl_run put get dis (x # xs) b =
     bindR (impl_step put get dis x b) (\<lambda>(out, b1).
       bindR (impl_run put get dis xs b1) (\<lambda>(outs, b2). Inr (out @ outs, b2)))"

text \<open>
  \<open>bytes\<close> is the queue a buffer stands for; \<open>room b n\<close> says \<open>n\<close> more bytes can be
  stored in all.
\<close>

locale byte_fifo =
  fixes okb :: "'b \<Rightarrow> bool"
    and bytes :: "'b \<Rightarrow> char list"
    and room :: "'b \<Rightarrow> nat \<Rightarrow> bool"
    and put :: "char list option \<Rightarrow> u64 \<Rightarrow> 'b \<Rightarrow> 'b result"
    and get :: "u64 \<Rightarrow> 'b \<Rightarrow> (string \<times> 'b) result"
    and dis :: "u64 \<Rightarrow> 'b \<Rightarrow> 'b result"
  assumes put_law: "okb b \<Longrightarrow> room b (unat len + m) \<Longrightarrow> unat len \<le> length d \<Longrightarrow>
      \<exists>b'. put (Some d) len b = Inr b' \<and> okb b' \<and> bytes b' = bytes b @ take (unat len) d \<and>
           room b' m"
    and room_law: "room b k \<Longrightarrow> k < 2 ^ 64"
    and get_law: "okb b \<Longrightarrow> room b m \<Longrightarrow> unat n \<le> length (bytes b) \<Longrightarrow>
      \<exists>b'. get n b = Inr (take (unat n) (bytes b), b') \<and> okb b' \<and>
           bytes b' = drop (unat n) (bytes b) \<and> room b' m"
    and get_short: "okb b \<Longrightarrow> length (bytes b) < unat n \<Longrightarrow> \<exists>e. get n b = Inl e"
    and dis_law: "okb b \<Longrightarrow> room b m \<Longrightarrow> unat n \<le> length (bytes b) \<Longrightarrow>
      \<exists>b'. dis n b = Inr b' \<and> okb b' \<and> bytes b' = drop (unat n) (bytes b) \<and> room b' m"
    and dis_short: "okb b \<Longrightarrow> length (bytes b) < unat n \<Longrightarrow> \<exists>e. dis n b = Inl e"
begin

lemma step_ok:
  assumes "okb b" "room b (length (puts [x]) + m)" "spec_step x (bytes b) = Some (out, q)"
  shows "\<exists>b'. impl_step put get dis x b = Inr (out, b') \<and> okb b' \<and> bytes b' = q \<and> room b' m"
proof (cases x)
  case (Put s)
  have "unat (word_of_nat (length s) :: u64) = length s"
    using assms(2) room_law [of b "length s + m"] Put by (simp add: unat_of_nat)
  with put_law [OF assms(1), of "word_of_nat (length s)" m s] assms Put show ?thesis
    by auto
next
  case (Take n)
  with assms get_law [OF assms(1), of m n] show ?thesis by (auto split: if_splits)
next
  case (Discard n)
  with assms dis_law [OF assms(1), of m n] show ?thesis by (auto split: if_splits)
qed

lemma step_refused:
  "okb b \<Longrightarrow> spec_step x (bytes b) = None \<Longrightarrow> \<exists>e. impl_step put get dis x b = Inl e"
  by (cases x) (auto split: if_splits simp: not_le result_simps intro: get_short dest: dis_short)

lemma puts_Cons: "length (puts (x # xs)) = length (puts [x]) + length (puts xs)"
  by (cases x) auto

lemma run_ok:
  "okb b \<Longrightarrow> room b (length (puts ops) + m) \<Longrightarrow> spec_run ops (bytes b) = Some (out, q) \<Longrightarrow>
   \<exists>b'. impl_run put get dis ops b = Inr (out, b') \<and> okb b' \<and> bytes b' = q \<and> room b' m"
proof (induction ops arbitrary: b out q)
  case (Cons x xs)
  from Cons.prems(3) obtain o1 q1 o2 where
    1: "spec_step x (bytes b) = Some (o1, q1)" and
    2: "spec_run xs q1 = Some (o2, q)" "out = o1 @ o2"
    by (auto split: option.splits)
  have "room b (length (puts [x]) + (length (puts xs) + m))"
    using Cons.prems(2) puts_Cons [of x xs] by (simp add: add.assoc)
  from step_ok [OF Cons.prems(1) this 1] obtain b1 where
    b1: "impl_step put get dis x b = Inr (o1, b1)" "okb b1" "bytes b1 = q1"
      "room b1 (length (puts xs) + m)"
    by blast
  with Cons.IH [of b1 o2 q] 2 show ?case by auto
qed auto

lemma run_refused:
  "okb b \<Longrightarrow> room b (length (puts ops)) \<Longrightarrow> spec_run ops (bytes b) = None \<Longrightarrow>
   \<exists>e. impl_run put get dis ops b = Inl e"
proof (induction ops arbitrary: b)
  case (Cons x xs)
  show ?case
  proof (cases "spec_step x (bytes b)")
    case None
    with step_refused [OF Cons.prems(1)] obtain e where "impl_step put get dis x b = Inl e"
      by blast
    then show ?thesis by simp
  next
    case (Some p)
    then obtain o1 q1 where 1: "spec_step x (bytes b) = Some (o1, q1)" by (cases p) auto
    have "room b (length (puts [x]) + length (puts xs))"
      using Cons.prems(2) puts_Cons [of x xs] by simp
    from step_ok [OF Cons.prems(1) this 1] obtain b1 where
      b1: "impl_step put get dis x b = Inr (o1, b1)" "okb b1" "bytes b1 = q1"
        "room b1 (length (puts xs))"
      by blast
    moreover have "spec_run xs q1 = None"
      using Cons.prems(3) 1 by (auto split: option.splits)
    ultimately show ?thesis using Cons.IH [of b1] by auto
  qed
qed auto

text \<open>
  A client that hands \<open>w\<close> bytes of a block to the kernel and queues the rest: what it
  has sent and what it holds make up everything it was given, in order.
\<close>

lemma queue_rest:
  assumes "okb b" "room b (length d - w)" "w \<le> length d"
  shows "\<exists>b'. put (Some (drop w d)) (word_of_nat (length d - w)) b = Inr b' \<and> okb b' \<and>
    bytes b' = bytes b @ drop w d"
proof -
  have "unat (word_of_nat (length d - w) :: u64) = length d - w"
    using room_law [OF assms(2)] by (simp add: unat_of_nat)
  with put_law [OF assms(1), of "word_of_nat (length d - w)" 0 "drop w d"] assms
  show ?thesis by auto
qed

text \<open>The other side: a client that hands the first \<open>w\<close> queued bytes to the kernel.\<close>

lemma flush_prefix:
  assumes "okb b" "room b 0" "w \<le> length (bytes b)" "w < 2 ^ 64"
  shows "\<exists>b'. dis (word_of_nat w) b = Inr b' \<and> okb b' \<and> take w (bytes b) @ bytes b' = bytes b"
proof -
  have "unat (word_of_nat w :: u64) = w"
    using assms(4) by (simp add: unat_of_nat)
  with dis_law [OF assms(1,2), of "word_of_nat w"] assms(3) show ?thesis by auto
qed

end

end
