(* ===== verification/Buffer.thy ===== *)
theory Buffer
  imports Byte_Fifo
begin

text \<open>
  \<open>ArrayBuffer\<close> (\<open>src/src/network/buffer.hpp\<close>, \<open>buffer.cc\<close>): a byte vector with a
  reader and a writer index. Indices and lengths are \<open>size_t\<close>, so they wrap; a pointer
  into the buffer is its offset from the start of the storage. The theory models every
  operation, gives the well-formedness of a buffer, and shows that the operations
  implement a queue of bytes.
\<close>

section \<open>The class\<close>

record array_buffer =
  readerIndex :: u64
  writerIndex :: u64
  storage :: "char list"

definition PACKETSIZE :: u64 where "PACKETSIZE = 40960"
definition PREPEND :: u64 where "PREPEND = 0"

text \<open>The largest size a \<open>std::vector<char>\<close> takes (\<open>PTRDIFF_MAX\<close>).\<close>

definition vec_max :: nat where "vec_max = 2 ^ 63 - 1"

definition vec_resize :: "u64 \<Rightarrow> char list \<Rightarrow> char list result" where
  "vec_resize n st =
     (if vec_max < unat n then Inl LengthError
      else Inr (take (unat n) st @ replicate (unat n - length st) (CHR 0x00)))"

definition make_buffer :: "u64 \<Rightarrow> array_buffer result" where
  "make_buffer initSize =
     bindR (vec_resize initSize []) (\<lambda>st.
       Inr \<lparr>readerIndex = PREPEND, writerIndex = PREPEND, storage = st\<rparr>)"

definition make_buffer_from :: "char list option \<Rightarrow> u64 \<Rightarrow> u64 \<Rightarrow> array_buffer result" where
  "make_buffer_from ptr len initSize =
     bindR (make_buffer initSize) (\<lambda>b.
       case ptr of
         None \<Rightarrow> Inl (LogicError ''pointer is null.'')
       | Some p \<Rightarrow>
           if PACKETSIZE < len then Inl (LogicError ''buffer size is not enough.'')
           else bindR (read_mem p 0 (unat len)) (\<lambda>bs.
                bindR (write_mem (storage b) 0 bs) (\<lambda>st.
                  Inr (b\<lparr>storage := st, writerIndex := writerIndex b + len\<rparr>))))"

definition buf_swap :: "array_buffer \<Rightarrow> array_buffer \<Rightarrow> array_buffer \<times> array_buffer" where
  "buf_swap a b =
     (a\<lparr>storage := storage b, readerIndex := readerIndex b, writerIndex := writerIndex b\<rparr>,
      b\<lparr>storage := storage a, readerIndex := readerIndex a, writerIndex := writerIndex a\<rparr>)"

definition readableBytes :: "array_buffer \<Rightarrow> u64" where
  "readableBytes b = writerIndex b - readerIndex b"

definition writableBytes :: "array_buffer \<Rightarrow> u64" where
  "writableBytes b = word_of_nat (length (storage b)) - writerIndex b"

definition prependableBytes :: "array_buffer \<Rightarrow> u64" where
  "prependableBytes b = readerIndex b"

text \<open>\<open>&*buffer_.begin()\<close>: with an empty vector the iterator is past the end.\<close>

definition buf_begin :: "array_buffer \<Rightarrow> u64 result" where
  "buf_begin b = (if storage b = [] then Inl DebugAbort else Inr 0)"

definition beginWrite :: "array_buffer \<Rightarrow> u64 result" where
  "beginWrite b = bindR (buf_begin b) (\<lambda>p. Inr (p + writerIndex b))"

definition peek :: "array_buffer \<Rightarrow> u64 result" where
  "peek b = bindR (buf_begin b) (\<lambda>p. Inr (p + readerIndex b))"

text \<open>
  \<open>memchr\<close> reads in order and stops at the first match; only a search that runs to the
  end needs all \<open>n\<close> bytes to be there.
\<close>

fun index_of :: "char \<Rightarrow> char list \<Rightarrow> nat option" where
  "index_of c [] = None"
| "index_of c (x # xs) = (if x = c then Some 0 else map_option Suc (index_of c xs))"

definition memchr :: "char list \<Rightarrow> u64 \<Rightarrow> char \<Rightarrow> u64 \<Rightarrow> u64 option result" where
  "memchr st p c n =
     (case index_of c (take (unat n) (drop (unat p) st)) of
        Some i \<Rightarrow> Inr (Some (p + word_of_nat i))
      | None \<Rightarrow> if length st < unat p + unat n then Inl OutOfBounds else Inr None)"

definition findEOL :: "array_buffer \<Rightarrow> u64 option result" where
  "findEOL b = bindR (peek b) (\<lambda>p. memchr (storage b) p (CHR 0x0A) (readableBytes b))"

definition findEOL_from :: "u64 \<Rightarrow> array_buffer \<Rightarrow> u64 option result" where
  "findEOL_from start b =
     bindR (peek b) (\<lambda>p.
       if start < p then Inl (RuntimeError ''Unreachable position.'')
       else bindR (beginWrite b) (\<lambda>w.
         if w < start then Inl (RuntimeError ''Unreadable position'')
         else memchr (storage b) start (CHR 0x0A) (w - start)))"

definition retrieveAll :: "array_buffer \<Rightarrow> array_buffer" where
  "retrieveAll b = b\<lparr>readerIndex := PREPEND, writerIndex := PREPEND\<rparr>"

definition retrieve :: "u64 \<Rightarrow> array_buffer \<Rightarrow> array_buffer result" where
  "retrieve len b =
     (if readableBytes b < len then Inl (LogicError ''no such size for buffer'')
      else if len < readableBytes b then Inr (b\<lparr>readerIndex := readerIndex b + len\<rparr>)
      else Inr (retrieveAll b))"

definition retrieveUntil :: "u64 \<Rightarrow> array_buffer \<Rightarrow> array_buffer result" where
  "retrieveUntil end_ptr b =
     bindR (peek b) (\<lambda>p. bindR (beginWrite b) (\<lambda>w.
       if end_ptr < p \<or> w < end_ptr then Inl (LogicError ''invalid position.'')
       else retrieve (end_ptr - p) b))"

definition retrieveAsString :: "u64 \<Rightarrow> array_buffer \<Rightarrow> (string \<times> array_buffer) result" where
  "retrieveAsString len b =
     (if readableBytes b < len then Inl (LogicError ''no such size for buffer'')
      else bindR (peek b) (\<lambda>p.
           bindR (read_mem (storage b) (unat p) (unat len)) (\<lambda>s.
           bindR (retrieve len b) (\<lambda>b'. Inr (s, b')))))"

definition retrieveAllAsString :: "array_buffer \<Rightarrow> (string \<times> array_buffer) result" where
  "retrieveAllAsString b = retrieveAsString (readableBytes b) b"

definition retrieveInt64 :: "array_buffer \<Rightarrow> array_buffer result" where
  "retrieveInt64 b = retrieve 8 b"

definition retrieveInt32 :: "array_buffer \<Rightarrow> array_buffer result" where
  "retrieveInt32 b = retrieve 4 b"

definition retrieveInt16 :: "array_buffer \<Rightarrow> array_buffer result" where
  "retrieveInt16 b = retrieve 2 b"

definition retrieveInt8 :: "array_buffer \<Rightarrow> array_buffer result" where
  "retrieveInt8 b = retrieve 1 b"

definition hasWritten :: "u64 \<Rightarrow> array_buffer \<Rightarrow> array_buffer result" where
  "hasWritten len b =
     (if writableBytes b < len
      then Inl (LogicError ''the expected length gather than the exact.'')
      else Inr (b\<lparr>writerIndex := writerIndex b + len\<rparr>))"

text \<open>The source range of a \<open>std::copy\<close>: \<open>last\<close> before \<open>first\<close> is no range.\<close>

definition read_range :: "char list \<Rightarrow> u64 \<Rightarrow> u64 \<Rightarrow> char list result" where
  "read_range st lo hi =
     (if hi < lo then Inl OutOfBounds
      else read_mem st (unat lo) (unat hi - unat lo))"

definition makeSpace :: "u64 \<Rightarrow> array_buffer \<Rightarrow> array_buffer result" where
  "makeSpace len b =
     (if writableBytes b + prependableBytes b < len + PREPEND
      then bindR (vec_resize (writerIndex b + len) (storage b)) (\<lambda>st. Inr (b\<lparr>storage := st\<rparr>))
      else
        let readable = readableBytes b in
        bindR (buf_begin b) (\<lambda>p.
        bindR (read_range (storage b) (p + readerIndex b) (p + writerIndex b)) (\<lambda>bs.
        bindR (write_mem (storage b) (unat (p + PREPEND)) bs) (\<lambda>st.
          let b' = b\<lparr>storage := st, readerIndex := PREPEND, writerIndex := PREPEND + readable\<rparr>
          in if readable \<noteq> readableBytes b'
             then Inl (LogicError
               ''the readable size is not equal to the size after resize-ing buffer.'')
             else Inr b'))))"

definition ensureWritableBytes :: "u64 \<Rightarrow> array_buffer \<Rightarrow> array_buffer result" where
  "ensureWritableBytes len b = (if writableBytes b < len then makeSpace len b else Inr b)"

text \<open>
  \<open>append\<close>: \<open>data\<close> is the block the caller's pointer points to (\<open>None\<close> for a null
  pointer); a \<open>len\<close> larger than the block reads outside it.
\<close>

definition buf_append :: "char list option \<Rightarrow> u64 \<Rightarrow> array_buffer \<Rightarrow> array_buffer result" where
  "buf_append data len b =
     (case data of
        None \<Rightarrow> Inl (LogicError ''invalid pointer.'')
      | Some d \<Rightarrow>
          bindR (ensureWritableBytes len b) (\<lambda>b1.
          bindR (read_mem d 0 (unat len)) (\<lambda>bs.
          bindR (beginWrite b1) (\<lambda>p.
          bindR (write_mem (storage b1) (unat p) bs) (\<lambda>st.
            hasWritten len (b1\<lparr>storage := st\<rparr>))))))"

section \<open>Well-formed buffers and their content\<close>

definition buf_ok :: "array_buffer \<Rightarrow> bool" where
  "buf_ok b \<longleftrightarrow>
     readerIndex b \<le> writerIndex b \<and> unat (writerIndex b) \<le> length (storage b) \<and>
     length (storage b) \<le> vec_max \<and> storage b \<noteq> []"

text \<open>The unread bytes: what the buffer is for its users.\<close>

definition content :: "array_buffer \<Rightarrow> char list" where
  "content b =
     take (unat (writerIndex b) - unat (readerIndex b)) (drop (unat (readerIndex b)) (storage b))"

lemma unat_of_size [simp]: "n \<le> vec_max \<Longrightarrow> unat (word_of_nat n :: u64) = n"
  by (simp add: vec_max_def unat_of_nat)

lemma unat_add_small:
  "unat a + unat b \<le> vec_max \<Longrightarrow> unat (a + b :: u64) = unat a + unat b"
  by (subst unat_add_lem [THEN iffD1]) (auto simp: vec_max_def)

lemma length_content:
  "buf_ok b \<Longrightarrow> length (content b) = unat (writerIndex b) - unat (readerIndex b)"
  by (auto simp: buf_ok_def content_def word_le_nat_alt)

lemma unat_readable [simp]: "buf_ok b \<Longrightarrow> unat (readableBytes b) = length (content b)"
  by (simp add: length_content) (simp add: buf_ok_def readableBytes_def unat_sub)

lemma readable_eq: "buf_ok b \<Longrightarrow> readableBytes b = word_of_nat (length (content b))"
  by (simp flip: unat_readable)

lemma unat_writable [simp]:
  "buf_ok b \<Longrightarrow> unat (writableBytes b) = length (storage b) - unat (writerIndex b)"
  by (simp add: buf_ok_def writableBytes_def unat_sub word_le_nat_alt)

lemma content_bound: "buf_ok b \<Longrightarrow> length (content b) \<le> vec_max"
  by (auto simp: length_content buf_ok_def)

lemma begin_ok [simp]: "buf_ok b \<Longrightarrow> buf_begin b = Inr 0"
  by (simp add: buf_begin_def buf_ok_def)

lemma beginWrite_ok [simp]: "buf_ok b \<Longrightarrow> beginWrite b = Inr (writerIndex b)"
  by (simp add: beginWrite_def)

lemma peek_ok [simp]: "buf_ok b \<Longrightarrow> peek b = Inr (readerIndex b)"
  by (simp add: peek_def)

lemma drop_writer_storage:
  "buf_ok b \<Longrightarrow> take (unat (writerIndex b)) (storage b) =
     take (unat (readerIndex b)) (storage b) @ content b"
  by (simp add: buf_ok_def content_def word_le_nat_alt take_add [symmetric])

section \<open>Making room\<close>

text \<open>The two states \<open>makeSpace\<close> can leave: more storage, or the content moved to the front.\<close>

definition grown :: "u64 \<Rightarrow> array_buffer \<Rightarrow> array_buffer" where
  "grown len b = b\<lparr>storage := storage b @
     replicate (unat (writerIndex b) + unat len - length (storage b)) (CHR 0x00)\<rparr>"

definition compacted :: "array_buffer \<Rightarrow> array_buffer" where
  "compacted b = b\<lparr>storage := overwrite (storage b) 0 (content b), readerIndex := 0,
     writerIndex := readableBytes b\<rparr>"

abbreviation slack :: "array_buffer \<Rightarrow> nat" where
  "slack b \<equiv> length (storage b) - unat (writerIndex b) + unat (readerIndex b)"

lemma grown_ok:
  "buf_ok b \<Longrightarrow> unat (writerIndex b) + unat len \<le> vec_max \<Longrightarrow> buf_ok (grown len b)"
  by (auto simp: buf_ok_def grown_def)

lemma content_grown [simp]: "buf_ok b \<Longrightarrow> content (grown len b) = content b"
  by (auto simp: content_def grown_def buf_ok_def word_le_nat_alt)

lemma content_le_storage: "buf_ok b \<Longrightarrow> length (content b) \<le> length (storage b)"
  by (auto simp: length_content buf_ok_def)

lemma compacted_ok: "buf_ok b \<Longrightarrow> buf_ok (compacted b)"
  using content_le_storage [of b]
  by (auto simp: buf_ok_def [of "compacted b"] compacted_def)
    (auto simp: buf_ok_def overwrite_def)

lemma content_compacted [simp]: "buf_ok b \<Longrightarrow> content (compacted b) = content b"
  unfolding content_def [of "compacted b"] by (simp add: compacted_def overwrite_0)

lemma unat_slack:
  "buf_ok b \<Longrightarrow> unat (writableBytes b + prependableBytes b) = slack b"
  by (subst unat_add_small) (auto simp: prependableBytes_def, auto simp: buf_ok_def word_le_nat_alt)

lemma makeSpace_grow:
  assumes "buf_ok b" "slack b < unat len" "unat (writerIndex b) + unat len \<le> vec_max"
  shows "makeSpace len b = Inr (grown len b)"
  using assms unat_slack [OF assms(1)] unat_add_small [OF assms(3)]
  by (simp add: makeSpace_def PREPEND_def word_less_nat_alt vec_resize_def grown_def)

lemma makeSpace_compact:
  assumes "buf_ok b" "unat len \<le> slack b"
  shows "makeSpace len b = Inr (compacted b)"
proof -
  have "read_range (storage b) (readerIndex b) (writerIndex b) = Inr (content b)"
    using assms(1)
    by (auto simp: read_range_def read_mem_def content_def buf_ok_def word_le_nat_alt
        word_less_nat_alt)
  moreover have "write_mem (storage b) 0 (content b) = Inr (overwrite (storage b) 0 (content b))"
    using assms(1) by (simp add: write_mem_def content_le_storage)
  ultimately show ?thesis
    using assms unat_slack [OF assms(1)]
    by (simp add: makeSpace_def PREPEND_def word_less_nat_alt Let_def compacted_def)
       (simp add: readableBytes_def)
qed

text \<open>The state \<open>ensureWritableBytes\<close> leaves, on each of its three branches.\<close>

definition ensured :: "u64 \<Rightarrow> array_buffer \<Rightarrow> array_buffer" where
  "ensured len b =
     (if unat len \<le> length (storage b) - unat (writerIndex b) then b
      else if slack b < unat len then grown len b else compacted b)"

lemma ensureWritableBytes_eq:
  "buf_ok b \<Longrightarrow> unat (writerIndex b) + unat len \<le> vec_max \<Longrightarrow>
   ensureWritableBytes len b = Inr (ensured len b)"
  by (simp add: ensureWritableBytes_def ensured_def word_less_nat_alt makeSpace_grow
      makeSpace_compact)

lemma ensured_ok:
  "buf_ok b \<Longrightarrow> unat (writerIndex b) + unat len \<le> vec_max \<Longrightarrow> buf_ok (ensured len b)"
  by (simp add: ensured_def grown_ok compacted_ok)

lemma content_ensured [simp]: "buf_ok b \<Longrightarrow> content (ensured len b) = content b"
  by (simp add: ensured_def)

lemma ensured_room:
  "buf_ok b \<Longrightarrow>
   unat (writerIndex (ensured len b)) + unat len \<le> length (storage (ensured len b))"
  using content_le_storage [of b]
  by (auto simp: ensured_def grown_def compacted_def overwrite_def length_content)
    (auto simp: buf_ok_def word_le_nat_alt)

lemma writer_ensured: "buf_ok b \<Longrightarrow> unat (writerIndex (ensured len b)) \<le> unat (writerIndex b)"
  by (auto simp: ensured_def grown_def compacted_def length_content)

lemma storage_ensured:
  "buf_ok b \<Longrightarrow> length (storage (ensured len b)) =
     (if slack b < unat len then unat (writerIndex b) + unat len else length (storage b))"
  using content_le_storage [of b]
  by (auto simp: ensured_def grown_def compacted_def overwrite_def)

section \<open>Appending and taking bytes\<close>

text \<open>The state \<open>append\<close> leaves when the copy fits.\<close>

definition appended :: "char list \<Rightarrow> u64 \<Rightarrow> array_buffer \<Rightarrow> array_buffer" where
  "appended bs len b =
     (let b1 = ensured len b in
      b1\<lparr>storage := overwrite (storage b1) (unat (writerIndex b1)) bs,
         writerIndex := writerIndex b1 + len\<rparr>)"

lemma buf_append_eq:
  assumes "buf_ok b" "unat (writerIndex b) + unat len \<le> vec_max" "unat len \<le> length d"
  shows "buf_append (Some d) len b = Inr (appended (take (unat len) d) len b)"
proof -
  note ok = ensured_ok [OF assms(1,2)] and room = ensured_room [OF assms(1), of len]
  have "\<not> writableBytes (ensured len b\<lparr>storage := overwrite (storage (ensured len b))
            (unat (writerIndex (ensured len b))) (take (unat len) d)\<rparr>) < len"
    using ok room assms(3) by (simp add: writableBytes_def word_less_nat_alt)
      (auto simp: buf_ok_def unat_sub word_le_nat_alt)
  then show ?thesis
    using assms ok room
    by (simp add: buf_append_def ensureWritableBytes_eq read_mem_def write_mem_def min_absorb2
        hasWritten_def appended_def Let_def)
qed

lemma unat_writer_ensured_add:
  assumes "buf_ok b" "unat (writerIndex b) + unat len \<le> vec_max"
  shows "unat (writerIndex (ensured len b) + len) = unat (writerIndex (ensured len b)) + unat len"
  using ensured_room [OF assms(1), of len] ensured_ok [OF assms]
  by (intro unat_add_small) (simp add: buf_ok_def)

lemma appended_ok:
  assumes "buf_ok b" "unat (writerIndex b) + unat len \<le> vec_max" "length bs = unat len"
  shows "buf_ok (appended bs len b)"
  using ensured_ok [OF assms(1,2)] ensured_room [OF assms(1), of len]
    unat_writer_ensured_add [OF assms(1,2)] assms(3)
  by (auto simp: appended_def Let_def buf_ok_def word_le_nat_alt overwrite_def)

lemma content_appended:
  assumes "buf_ok b" "unat (writerIndex b) + unat len \<le> vec_max" "length bs = unat len"
  shows "content (appended bs len b) = content b @ bs"
proof -
  let ?b = "ensured len b"
  have ok: "buf_ok ?b" and room: "unat (writerIndex ?b) + length bs \<le> length (storage ?b)"
    using assms ensured_ok ensured_room by auto
  then have rw: "unat (readerIndex ?b) \<le> unat (writerIndex ?b)"
    by (simp add: buf_ok_def word_le_nat_alt)
  have "content (appended bs len b) =
      drop (unat (readerIndex ?b)) (take (unat (writerIndex ?b) + length bs)
        (overwrite (storage ?b) (unat (writerIndex ?b)) bs))"
    using assms(3) unat_writer_ensured_add [OF assms(1,2)]
    by (simp add: content_def appended_def Let_def drop_take)
  also have "\<dots> = drop (unat (readerIndex ?b)) (take (unat (writerIndex ?b)) (storage ?b)) @ bs"
    using room rw by (simp add: min_absorb2)
  also have "\<dots> = content ?b @ bs"
    by (simp add: content_def drop_take)
  finally show ?thesis using assms(1) by simp
qed

lemma retrieveAll_ok [simp]: "buf_ok b \<Longrightarrow> buf_ok (retrieveAll b)"
  by (simp add: buf_ok_def retrieveAll_def PREPEND_def)

lemma content_retrieveAll [simp]: "content (retrieveAll b) = []"
  by (simp add: content_def retrieveAll_def PREPEND_def)

lemma retrieve_error:
  "buf_ok b \<Longrightarrow> length (content b) < unat len \<Longrightarrow>
   retrieve len b = Inl (LogicError ''no such size for buffer'')"
  by (simp add: retrieve_def word_less_nat_alt)

lemma retrieve_ok:
  assumes "buf_ok b" "unat len \<le> length (content b)"
  obtains b' where "retrieve len b = Inr b'" "buf_ok b'" "content b' = drop (unat len) (content b)"
proof (cases "unat len = length (content b)")
  case True
  then show thesis
    using assms that [of "retrieveAll b"] by (simp add: retrieve_def word_less_nat_alt)
next
  case False
  have u: "unat (readerIndex b + len) = unat (readerIndex b) + unat len"
    using assms by (intro unat_add_small) (auto simp: length_content buf_ok_def word_le_nat_alt)
  show thesis
    using assms False u
    by (intro that [of "b\<lparr>readerIndex := readerIndex b + len\<rparr>"])
      (auto simp: retrieve_def word_less_nat_alt,
       auto simp: buf_ok_def content_def word_le_nat_alt drop_take add.commute)
qed

lemma retrieveAsString_error:
  "buf_ok b \<Longrightarrow> length (content b) < unat len \<Longrightarrow>
   retrieveAsString len b = Inl (LogicError ''no such size for buffer'')"
  by (simp add: retrieveAsString_def word_less_nat_alt)

lemma buf_okD:
  "buf_ok b \<Longrightarrow> unat (readerIndex b) \<le> unat (writerIndex b)"
  "buf_ok b \<Longrightarrow> unat (writerIndex b) \<le> length (storage b)"
  "buf_ok b \<Longrightarrow> length (storage b) \<le> vec_max"
  by (auto simp: buf_ok_def word_le_nat_alt)

lemma read_content:
  assumes "buf_ok b" "n \<le> length (content b)"
  shows "read_mem (storage b) (unat (readerIndex b)) n = Inr (take n (content b))"
proof -
  have "n \<le> unat (writerIndex b) - unat (readerIndex b)"
    using assms by (simp add: length_content)
  then show ?thesis
    using buf_okD [OF assms(1)] by (simp add: read_mem_def content_def)
qed

lemma retrieveAsString_ok:
  assumes "buf_ok b" "unat len \<le> length (content b)"
  obtains b' where "retrieveAsString len b = Inr (take (unat len) (content b), b')"
    "buf_ok b'" "content b' = drop (unat len) (content b)"
proof -
  obtain b' where "retrieve len b = Inr b'" "buf_ok b'" "content b' = drop (unat len) (content b)"
    using assms by (rule retrieve_ok)
  then show thesis
    using assms by (intro that) (auto simp: retrieveAsString_def word_less_nat_alt read_content)
qed

lemma retrieve_writer:
  "retrieve len b = Inr b' \<Longrightarrow> writerIndex b' = writerIndex b \<or> writerIndex b' = 0"
  by (auto simp: retrieve_def retrieveAll_def PREPEND_def split: if_splits)

lemma retrieveAsString_writer:
  "retrieveAsString len b = Inr (s, b') \<Longrightarrow> writerIndex b' = writerIndex b \<or> writerIndex b' = 0"
  by (auto simp: retrieveAsString_def result_simps dest: retrieve_writer split: if_splits)

section \<open>The first line\<close>

lemma index_of_None: "index_of c xs = None \<longleftrightarrow> c \<notin> set xs"
  by (induction xs) auto

lemma index_of_Some:
  "index_of c xs = Some i \<Longrightarrow> i < length xs \<and> xs ! i = c \<and> c \<notin> set (take i xs)"
  by (induction xs arbitrary: i) (auto split: if_splits)

lemma memchr_content:
  assumes "buf_ok b"
  shows "memchr (storage b) (readerIndex b) c (readableBytes b) =
    Inr (map_option (\<lambda>i. readerIndex b + word_of_nat i) (index_of c (content b)))"
proof -
  have "take (unat (readableBytes b)) (drop (unat (readerIndex b)) (storage b)) = content b"
    using assms by (simp add: length_content) (simp add: content_def)
  moreover have "unat (readerIndex b) + unat (readableBytes b) \<le> length (storage b)"
    using assms by (simp add: length_content) (auto simp: buf_ok_def word_le_nat_alt)
  ultimately show ?thesis
    by (auto simp: memchr_def split: option.splits)
qed

lemma findEOL_eq:
  "buf_ok b \<Longrightarrow> findEOL b =
     Inr (map_option (\<lambda>i. readerIndex b + word_of_nat i) (index_of (CHR 0x0A) (content b)))"
  by (simp add: findEOL_def memchr_content)

lemma unat_reader_plus:
  assumes "buf_ok b" "i \<le> length (content b)"
  shows "unat (readerIndex b + word_of_nat i) = unat (readerIndex b) + i"
proof -
  have "i \<le> vec_max" and "unat (readerIndex b) + i \<le> vec_max"
    using assms by (auto simp: length_content buf_ok_def word_le_nat_alt)
  then show ?thesis
    by (subst unat_add_small) auto
qed

lemma retrieveUntil_ok:
  assumes "buf_ok b" "i \<le> length (content b)"
  obtains b' where "retrieveUntil (readerIndex b + word_of_nat i) b = Inr b'" "buf_ok b'"
    "content b' = drop i (content b)"
proof -
  let ?e = "readerIndex b + word_of_nat i"
  have e: "unat ?e = unat (readerIndex b) + i"
    using assms by (rule unat_reader_plus)
  have "i \<le> vec_max"
    using assms content_bound [OF assms(1)] by simp
  then have "unat (word_of_nat i :: u64) \<le> length (content b)"
    using assms by simp
  then obtain b' where "retrieve (word_of_nat i) b = Inr b'" "buf_ok b'"
      "content b' = drop (unat (word_of_nat i :: u64)) (content b)"
    by (rule retrieve_ok [OF assms(1)])
  then show thesis
    using assms \<open>i \<le> vec_max\<close> e buf_okD(1) [OF assms(1)]
    by (intro that [of b']) (auto simp: retrieveUntil_def word_less_nat_alt length_content)
qed

section \<open>A buffer is a queue of bytes\<close>

text \<open>
  Room for \<open>n\<close> more bytes: behind the writer index, the storage may grow up to the
  vector's maximal size.
\<close>

definition buf_room :: "array_buffer \<Rightarrow> nat \<Rightarrow> bool" where
  "buf_room b n \<longleftrightarrow> unat (writerIndex b) + n \<le> vec_max"

lemma buf_append_law:
  assumes "buf_ok b" "buf_room b (unat len + m)" "unat len \<le> length d"
  shows "\<exists>b'. buf_append (Some d) len b = Inr b' \<and> buf_ok b' \<and>
    content b' = content b @ take (unat len) d \<and> buf_room b' m"
proof -
  have r: "unat (writerIndex b) + unat len \<le> vec_max"
    using assms(2) by (simp add: buf_room_def)
  have "unat (writerIndex (appended (take (unat len) d) len b)) =
      unat (writerIndex (ensured len b)) + unat len"
    using unat_writer_ensured_add [OF assms(1) r] by (simp add: appended_def Let_def)
  then show ?thesis
    using assms r buf_append_eq [OF assms(1) r assms(3)] appended_ok [OF assms(1) r]
      content_appended [OF assms(1) r] writer_ensured [OF assms(1), of len]
    by (auto simp: buf_room_def)
qed

lemma buf_room_writer:
  "writerIndex b' = writerIndex b \<or> writerIndex b' = 0 \<Longrightarrow> buf_room b m \<Longrightarrow> buf_room b' m"
  by (auto simp: buf_room_def)

interpretation abuf: byte_fifo buf_ok content buf_room buf_append retrieveAsString retrieve
proof unfold_locales
  fix b and len :: u64 and m and d :: "char list"
  assume "buf_ok b" "buf_room b (unat len + m)" "unat len \<le> length d"
  then show "\<exists>b'. buf_append (Some d) len b = Inr b' \<and> buf_ok b' \<and>
      content b' = content b @ take (unat len) d \<and> buf_room b' m"
    by (rule buf_append_law)
next
  fix b and n :: u64 and m
  assume "buf_ok b" "buf_room b m" "unat n \<le> length (content b)"
  then show "\<exists>b'. retrieveAsString n b = Inr (take (unat n) (content b), b') \<and> buf_ok b' \<and>
      content b' = drop (unat n) (content b) \<and> buf_room b' m"
    by (metis retrieveAsString_ok retrieveAsString_writer buf_room_writer)
next
  fix b and n :: u64 and m
  assume "buf_ok b" "buf_room b m" "unat n \<le> length (content b)"
  then show "\<exists>b'. retrieve n b = Inr b' \<and> buf_ok b' \<and>
      content b' = drop (unat n) (content b) \<and> buf_room b' m"
    by (metis retrieve_ok retrieve_writer buf_room_writer)
qed (auto simp: buf_room_def vec_max_def retrieveAsString_error retrieve_error)

section \<open>Properties\<close>

text \<open>C12. Any sequence of appends, retrievals as a string and discards on a well-formed
  buffer with room for the appended bytes behaves as the abstract byte queue does: it hands
  out the same bytes, leaves a well-formed buffer holding the queue's rest, and throws
  exactly when the queue refuses a request.\<close>

theorem buffer_refines_queue:
  assumes "buf_ok b" "buf_room b (length (puts ops))"
  shows "case spec_run ops (content b) of
      None \<Rightarrow> \<exists>e. impl_run buf_append retrieveAsString retrieve ops b = Inl e
    | Some (out, q) \<Rightarrow>
        \<exists>b'. impl_run buf_append retrieveAsString retrieve ops b = Inr (out, b') \<and>
             buf_ok b' \<and> content b' = q"
proof (cases "spec_run ops (content b)")
  case None
  then show ?thesis using abuf.run_refused [OF assms] by simp
next
  case (Some p)
  then obtain out q where "spec_run ops (content b) = Some (out, q)" by (cases p) auto
  moreover have "buf_room b (length (puts ops) + 0)" using assms(2) by simp
  ultimately show ?thesis using abuf.run_ok [OF assms(1)] Some by fastforce
qed

definition small_buffer :: array_buffer where
  "small_buffer = \<lparr>readerIndex = 1, writerIndex = 3, storage = ''abcd''\<rparr>"

lemma small_buffer_ok: "buf_ok small_buffer" "buf_room small_buffer 100"
    "content small_buffer = ''bc''"
  by (auto simp: small_buffer_def buf_ok_def buf_room_def vec_max_def content_def)

theorem buffer_refines_queue_witness:
  "\<exists>b'. impl_run buf_append retrieveAsString retrieve
      [Put ''xyz'', Take 3, Discard 1] small_buffer = Inr (''bcx'', b') \<and> content b' = ''z''"
proof -
  have "buf_room small_buffer (length (puts [Put ''xyz'', Take 3, Discard 1]))"
    by (simp add: small_buffer_def buf_room_def vec_max_def)
  from buffer_refines_queue [OF small_buffer_ok(1) this] show ?thesis
    by (simp add: small_buffer_ok(3)) blast
qed

text \<open>C26. \<open>append\<close> adds exactly the bytes given, keeps the unread bytes, and reallocates
  only when the free space before the reader and behind the writer together is too small;
  otherwise the storage keeps its size.\<close>

theorem append_exact:
  assumes "buf_ok b" "unat (writerIndex b) + unat len \<le> vec_max" "unat len \<le> length d"
  shows "\<exists>b'. buf_append (Some d) len b = Inr b' \<and> buf_ok b' \<and>
    content b' = content b @ take (unat len) d \<and>
    length (storage b') =
      (if unat len \<le> slack b then length (storage b) else unat (writerIndex b) + unat len)"
proof -
  let ?b = "appended (take (unat len) d) len b"
  have "length (storage ?b) = length (storage (ensured len b))"
    using ensured_room [OF assms(1), of len] assms(3)
    by (simp add: appended_def Let_def)
  then show ?thesis
    using assms buf_append_eq [OF assms] appended_ok [OF assms(1,2)]
      content_appended [OF assms(1,2)] storage_ensured [OF assms(1), of len]
    by (auto simp: not_le)
qed

theorem append_exact_witness:
  "\<exists>b'. buf_append (Some ''xyz'') 2 small_buffer = Inr b' \<and> content b' = ''bcxy'' \<and>
    length (storage b') = 4"
  using append_exact [of small_buffer 2 "''xyz''"] small_buffer_ok
  by (auto simp: small_buffer_def vec_max_def)

text \<open>Line extraction: when \<open>findEOL\<close> finds an end of line, \<open>retrieveUntil\<close> up to
  it succeeds and consumes exactly the first line (no newline in it), leaving the newline
  as the first unread byte; when it finds none, no unread byte is a newline.\<close>

theorem first_line:
  assumes "buf_ok b"
  shows "\<exists>r. findEOL b = Inr r \<and>
    (case r of
       None \<Rightarrow> CHR 0x0A \<notin> set (content b)
     | Some p \<Rightarrow> \<exists>b' line rest. retrieveUntil p b = Inr b' \<and> buf_ok b' \<and>
         content b = line @ content b' \<and> content b' = CHR 0x0A # rest \<and>
         CHR 0x0A \<notin> set line)"
proof (cases "index_of (CHR 0x0A) (content b)")
  case None
  then have "CHR 0x0A \<notin> set (content b)" by (rule index_of_None [THEN iffD1])
  with None show ?thesis using assms by (simp add: findEOL_eq)
next
  case (Some i)
  from index_of_Some [OF this]
  have i: "i < length (content b)" "content b ! i = CHR 0x0A" "CHR 0x0A \<notin> set (take i (content b))"
    by auto
  obtain b' where b': "retrieveUntil (readerIndex b + word_of_nat i) b = Inr b'" "buf_ok b'"
      "content b' = drop i (content b)"
    using i(1) by (auto intro: retrieveUntil_ok [OF assms, of i])
  moreover have "content b' = CHR 0x0A # drop (Suc i) (content b)"
    using b'(3) i(1,2) by (simp add: Cons_nth_drop_Suc [symmetric])
  moreover have "content b = take i (content b) @ content b'"
    using b'(3) by simp
  ultimately have "\<exists>b' line rest.
      retrieveUntil (readerIndex b + word_of_nat i) b = Inr b' \<and> buf_ok b' \<and>
      content b = line @ content b' \<and> content b' = CHR 0x0A # rest \<and> CHR 0x0A \<notin> set line"
    using i(3) by blast
  then show ?thesis using assms Some by (simp add: findEOL_eq)
qed

definition line_buffer :: array_buffer where
  "line_buffer = \<lparr>readerIndex = 1, writerIndex = 5,
     storage = [CHR ''z'', CHR ''h'', CHR ''i'', CHR 0x0A, CHR ''!'', CHR ''?'']\<rparr>"

lemma line_buffer_ok: "buf_ok line_buffer"
    "content line_buffer = [CHR ''h'', CHR ''i'', CHR 0x0A, CHR ''!'']"
  by (auto simp: line_buffer_def buf_ok_def vec_max_def content_def)

theorem first_line_witness:
  "\<exists>p b' rest. findEOL line_buffer = Inr (Some p) \<and> retrieveUntil p line_buffer = Inr b' \<and>
     content b' = CHR 0x0A # rest"
proof -
  have "findEOL line_buffer = Inr (Some (readerIndex line_buffer + 2))"
    by (simp add: findEOL_eq line_buffer_ok)
  then show ?thesis using first_line [OF line_buffer_ok(1)] by auto
qed

text \<open>The constructor from a block, on every branch for a block of the claimed length:
  a length over \<open>PACKETSIZE\<close> throws, a length within the initial size gives a well-formed
  buffer holding the block, and a length within \<open>PACKETSIZE\<close> but over the initial size
  copies past the end of the storage, since the check compares with \<open>PACKETSIZE\<close>.\<close>

theorem make_buffer_from_cases:
  assumes "unat len \<le> length p" "unat initSize \<le> vec_max" "0 < initSize"
  shows "if PACKETSIZE < len
     then make_buffer_from (Some p) len initSize = Inl (LogicError ''buffer size is not enough.'')
     else if initSize < len
     then make_buffer_from (Some p) len initSize = Inl OutOfBounds
     else \<exists>b. make_buffer_from (Some p) len initSize = Inr b \<and> buf_ok b \<and>
              content b = take (unat len) p"
  using assms
  by (auto simp: make_buffer_from_def make_buffer_def vec_resize_def read_mem_def write_mem_def
      PREPEND_def buf_ok_def content_def overwrite_0 word_le_nat_alt word_less_nat_alt min_def
      dest: arg_cong [of _ _ length])

theorem make_buffer_from_cases_witness:
  "make_buffer_from (Some ''abc'') 3 2 = Inl OutOfBounds"
  using make_buffer_from_cases [of 3 "''abc''" 2] by (simp add: vec_max_def PACKETSIZE_def)

end
