(* ===== verification/Inet.thy ===== *)
theory Inet
  imports Prelude
begin

text \<open>
  Addresses and sockets (\<open>src/src/network/stream_socket.hpp\<close>, \<open>stream_socket.cc\<close>): the
  class \<open>InetAddr\<close> with its textual form, which the load balancer and the accounting use
  as a key, and the operations of \<open>StreamSocket\<close> around the system calls. A system call
  is an argument: its answer, or the function itself where the code depends on what it does.
\<close>

section \<open>Decimal numbers and C strings\<close>

definition digit :: "nat \<Rightarrow> char" where
  "digit n = char_of (48 + n)"

text \<open>\<open>std::to_string\<close> of an unsigned number.\<close>

fun to_dec :: "nat \<Rightarrow> string" where
  "to_dec n = (if n < 10 then [digit n] else to_dec (n div 10) @ [digit (n mod 10)])"

declare to_dec.simps [simp del]

definition is_digit :: "char \<Rightarrow> bool" where
  "is_digit c \<longleftrightarrow> 48 \<le> (of_char c :: nat) \<and> (of_char c :: nat) \<le> 57"

definition is_space :: "char \<Rightarrow> bool" where
  "is_space c \<longleftrightarrow> c = CHR '' '' \<or> 9 \<le> (of_char c :: nat) \<and> (of_char c :: nat) \<le> 13"

fun dec_value :: "int \<Rightarrow> string \<Rightarrow> int" where
  "dec_value acc [] = acc"
| "dec_value acc (c # cs) =
     (if is_digit c then dec_value (10 * acc + int (of_char c - 48)) cs else acc)"

text \<open>\<open>atoi\<close>: white space, a sign, digits; no digits give 0.\<close>

definition atoi :: "string \<Rightarrow> int" where
  "atoi s =
     (case dropWhile is_space s of
        [] \<Rightarrow> 0
      | c # cs \<Rightarrow>
          if c = CHR ''-'' then - dec_value 0 cs
          else if c = CHR ''+'' then dec_value 0 cs
          else dec_value 0 (c # cs))"

text \<open>A \<open>std::string\<close> read through \<open>c_str()\<close> ends at its first NUL.\<close>

definition c_str :: "string \<Rightarrow> string" where
  "c_str s = takeWhile (\<lambda>c. c \<noteq> CHR 0x00) s"

section \<open>InetAddr\<close>

record inet_addr =
  inet_ip :: string
  inet_port :: u16

definition make_inet :: "string \<Rightarrow> u16 \<Rightarrow> inet_addr" where
  "make_inet a p = \<lparr>inet_ip = a, inet_port = p\<rparr>"

definition inet_equal :: "inet_addr \<Rightarrow> inet_addr \<Rightarrow> bool" where
  "inet_equal this addr \<longleftrightarrow> inet_ip addr = inet_ip this \<and> inet_port addr = inet_port this"

definition toString :: "inet_addr \<Rightarrow> string" where
  "toString a =
     (let port = to_dec (unat (inet_port a))
      in ''['' @ c_str (inet_ip a) @ '':'' @ c_str port @ '']'')"

definition ip_string :: "inet_addr \<Rightarrow> string" where
  "ip_string a = inet_ip a"

definition port_string :: "inet_addr \<Rightarrow> string" where
  "port_string a = to_dec (unat (inet_port a))"

section \<open>StreamSocket\<close>

text \<open>Network byte order on a little-endian host: the two bytes swapped.\<close>

definition htons :: "u16 \<Rightarrow> u16" where
  "htons w = push_bit 8 w OR drop_bit 8 w"

definition ntohs :: "u16 \<Rightarrow> u16" where
  "ntohs w = push_bit 8 w OR drop_bit 8 w"

record sockaddr_in =
  sin_addr :: u32
  sin_port :: u16

text \<open>
  \<open>bindAddr\<close>: \<open>inet_aton\<close> of libc fills the address; the answer of \<open>bind\<close> is asserted.
\<close>

definition bind_sockaddr :: "(string \<Rightarrow> u32) \<Rightarrow> string \<Rightarrow> string \<Rightarrow> sockaddr_in" where
  "bind_sockaddr inet_aton ip port =
     \<lparr>sin_addr = inet_aton (c_str ip), sin_port = htons (word_of_int (atoi (c_str port)))\<rparr>"

definition bindAddr :: "(string \<Rightarrow> u32) \<Rightarrow> (fd \<Rightarrow> sockaddr_in \<Rightarrow> int) \<Rightarrow> fd \<Rightarrow> string \<Rightarrow> string \<Rightarrow> int result"
  where "bindAddr inet_aton sys_bind sockfd ip port =
     (let ret = sys_bind sockfd (bind_sockaddr inet_aton ip port)
      in if ret \<noteq> -1 then Inr ret else Inl AssertFailed)"

text \<open>The static \<open>listen\<close> passes 50 whatever its \<open>backlog\<close> is.\<close>

definition listen_fd :: "(fd \<Rightarrow> int \<Rightarrow> int) \<Rightarrow> fd \<Rightarrow> int \<Rightarrow> int result" where
  "listen_fd sys_listen f backlog =
     (let ret = sys_listen f 50 in if ret \<noteq> -1 then Inr ret else Inl AssertFailed)"

definition EAGAIN :: int where "EAGAIN = 11"

text \<open>\<open>EWOULDBLOCK\<close> is the same number on Linux.\<close>

definition EWOULDBLOCK :: int where "EWOULDBLOCK = 11"

definition accept_answer :: "int \<Rightarrow> int \<Rightarrow> int result" where
  "accept_answer ret err =
     (if err = EAGAIN \<or> err = EWOULDBLOCK then Inr ret
      else if ret \<noteq> -1 then Inr ret else Inl AssertFailed)"

definition connect_sockaddr :: "(string \<Rightarrow> u32) \<Rightarrow> inet_addr \<Rightarrow> sockaddr_in" where
  "connect_sockaddr inet_addr_fn addr =
     \<lparr>sin_addr = inet_addr_fn (c_str (ip_string addr)),
      sin_port = htons (word_of_int (atoi (c_str (port_string addr))))\<rparr>"

text \<open>\<open>sock\<close> and \<open>ret\<close> are the answers of \<open>socket\<close> and of \<open>connect\<close>.\<close>

definition connectTo :: "int \<Rightarrow> int \<Rightarrow> fd result" where
  "connectTo sock ret =
     (if sock < 0 then Inl (RuntimeError ''can't create new socket'')
      else if ret < 0 then Inl (RuntimeError ''can not establish connection'')
      else Inr sock)"

definition getPeerAddr :: "(u32 \<Rightarrow> string) \<Rightarrow> sockaddr_in \<Rightarrow> inet_addr" where
  "getPeerAddr inet_ntoa peer = make_inet (inet_ntoa (sin_addr peer)) (ntohs (sin_port peer))"

definition F_GETFL :: u32 where "F_GETFL = 3"
definition F_SETFL :: u32 where "F_SETFL = 4"
definition O_NONBLOCK :: u32 where "O_NONBLOCK = 0x800"

text \<open>
  \<open>setNonBlocking\<close>: \<open>sys_fcntl fd cmd arg k\<close> is the system call on kernel state \<open>k\<close>. The
  second call has two arguments only, so its command is \<open>flag | O_NONBLOCK\<close>.
\<close>

definition setNonBlocking ::
  "(fd \<Rightarrow> u32 \<Rightarrow> u32 option \<Rightarrow> 'k \<Rightarrow> u32 \<times> 'k) \<Rightarrow> fd \<Rightarrow> 'k \<Rightarrow> 'k" where
  "setNonBlocking sys_fcntl f k =
     (let (flag, k1) = sys_fcntl f F_GETFL (Some 0) k;
          (_, k2) = sys_fcntl f (flag OR O_NONBLOCK) None k1
      in k2)"

text \<open>
  The documented behaviour of \<open>fcntl\<close> the theorem relies on: only \<open>F_SETFL\<close> changes a
  descriptor's status flags (\<open>flags k\<close>).
\<close>

definition fcntl_documented ::
  "(fd \<Rightarrow> u32 \<Rightarrow> u32 option \<Rightarrow> 'k \<Rightarrow> u32 \<times> 'k) \<Rightarrow> ('k \<Rightarrow> fd \<Rightarrow> u32) \<Rightarrow> bool" where
  "fcntl_documented sys_fcntl flags \<longleftrightarrow>
     (\<forall>f cmd arg k. cmd \<noteq> F_SETFL \<longrightarrow> flags (snd (sys_fcntl f cmd arg k)) = flags k)"

section \<open>Lemmas on decimal numbers\<close>

lemma of_char_digit: "n < 10 \<Longrightarrow> of_char (digit n) = (48 + n :: nat)"
  by (simp add: digit_def)

lemma is_digit_digit: "n < 10 \<Longrightarrow> is_digit (digit n)"
  by (simp add: is_digit_def of_char_digit)

lemma digits_to_dec: "c \<in> set (to_dec n) \<Longrightarrow> is_digit c"
proof (induction n rule: to_dec.induct)
  case (1 n)
  then show ?case
    by (subst (asm) (2) to_dec.simps) (auto simp: is_digit_digit split: if_splits)
qed

lemma to_dec_nonempty: "to_dec n \<noteq> []"
  by (subst to_dec.simps) simp

lemma dec_value_append:
  "(\<And>c. c \<in> set xs \<Longrightarrow> is_digit c) \<Longrightarrow> dec_value acc (xs @ ys) = dec_value (dec_value acc xs) ys"
  by (induction xs arbitrary: acc) auto

lemma dec_value_to_dec: "dec_value 0 (to_dec n) = int n"
proof (induction n rule: to_dec.induct)
  case (1 n)
  show ?case
  proof (cases "n < 10")
    case True
    then show ?thesis
      by (subst to_dec.simps) (simp add: is_digit_digit of_char_digit)
  next
    case False
    with 1 have "dec_value 0 (to_dec (n div 10)) = int (n div 10)" by simp
    then have "dec_value 0 (to_dec n) = 10 * int (n div 10) + int (n mod 10)"
      using False
      by (subst to_dec.simps)
        (simp add: dec_value_append digits_to_dec is_digit_digit of_char_digit)
    also have "\<dots> = int n" by presburger
    finally show ?thesis .
  qed
qed

lemma to_dec_inj: "to_dec m = to_dec n \<longleftrightarrow> m = n"
  by (metis dec_value_to_dec of_nat_eq_iff)

lemma digit_not_special:
  "is_digit c \<Longrightarrow> \<not> is_space c \<and> c \<noteq> CHR ''-'' \<and> c \<noteq> CHR ''+'' \<and> c \<noteq> CHR '':'' \<and> c \<noteq> CHR 0x00"
  by (auto simp: is_digit_def is_space_def)

lemma c_str_to_dec [simp]: "c_str (to_dec n) = to_dec n"
  by (auto simp: c_str_def takeWhile_eq_all_conv dest: digits_to_dec digit_not_special)

lemma atoi_to_dec [simp]: "atoi (to_dec n) = int n"
proof -
  obtain c cs where c: "to_dec n = c # cs"
    using to_dec_nonempty by (cases "to_dec n") auto
  then have "is_digit c"
    by (auto intro: digits_to_dec [of _ n])
  then show ?thesis
    using c dec_value_to_dec [of n] digit_not_special [of c] by (simp add: atoi_def)
qed

lemma htons_ntohs [simp]: "htons (ntohs w) = w" "ntohs (htons w) = w"
  by (rule bit_word_eqI, auto simp: htons_def ntohs_def bit_simps)+

lemma last_separator:
  assumes "x @ c # p = y @ c # q" "c \<notin> set p" "c \<notin> set q"
  shows "x = y \<and> p = q"
proof -
  have "takeWhile (\<lambda>d. d \<noteq> c) (rev (z @ c # r)) = rev r" if "c \<notin> set r" for z r
    using that by (auto simp: takeWhile_append2 takeWhile_tail)
  from this [OF assms(2), of x] this [OF assms(3), of y] have "rev p = rev q"
    using assms(1) by simp
  with assms(1) show ?thesis by simp
qed

section \<open>Properties\<close>

text \<open>The textual form of an address, the key of the back-end table and of the traffic
  accounting, identifies it: two addresses have the same form exactly when their ports and
  their addresses (up to the first NUL) are the same, whatever characters the address has.\<close>

theorem toString_key:
  "toString a = toString b \<longleftrightarrow>
     c_str (inet_ip a) = c_str (inet_ip b) \<and> inet_port a = inet_port b"
proof
  assume eq: "toString a = toString b"
  have "CHR '':'' \<notin> set (to_dec n)" for n
    by (auto dest: digits_to_dec digit_not_special)
  from last_separator [OF _ this this] eq
  have "c_str (inet_ip a) = c_str (inet_ip b) \<and>
      to_dec (unat (inet_port a)) = to_dec (unat (inet_port b))"
    by (auto simp: toString_def Let_def)
  then have "c_str (inet_ip a) = c_str (inet_ip b) \<and> unat (inet_port a) = unat (inet_port b)"
    by (simp only: to_dec_inj)
  then show "c_str (inet_ip a) = c_str (inet_ip b) \<and> inet_port a = inet_port b"
    by (simp only: word_unat_eq_iff)
next
  assume "c_str (inet_ip a) = c_str (inet_ip b) \<and> inet_port a = inet_port b"
  then show "toString a = toString b" by (simp add: toString_def)
qed

text \<open>C27. Dialling the address \<open>getPeerAddr\<close> reports for a peer dials that peer: the port
  survives byte swap, decimal printing, \<open>atoi\<close> and the swap back, for every port. That
  \<open>inet_addr\<close> reads what \<open>inet_ntoa\<close> prints is libc's documented behaviour.\<close>

theorem peer_roundtrip:
  assumes "inet_addr_fn (c_str (inet_ntoa (sin_addr peer))) = sin_addr (peer :: sockaddr_in)"
  shows "connect_sockaddr inet_addr_fn (getPeerAddr inet_ntoa peer) = peer"
  using assms
  by (simp add: connect_sockaddr_def getPeerAddr_def make_inet_def ip_string_def port_string_def)

theorem peer_roundtrip_witness:
  "connect_sockaddr (\<lambda>s. if s = ''10.0.0.7'' then 0x0700000A else 0)
     (getPeerAddr (\<lambda>_. ''10.0.0.7'') \<lparr>sin_addr = 0x0700000A, sin_port = 0x901F\<rparr>) =
   \<lparr>sin_addr = 0x0700000A, sin_port = 0x901F\<rparr>"
  by (rule peer_roundtrip) (simp add: c_str_def)

text \<open>\<open>setNonBlocking\<close> never makes a descriptor non-blocking: it leaves every
  descriptor's status flags as they were, for every kernel whose \<open>fcntl\<close> changes them
  only on \<open>F_SETFL\<close>, because its second call passes the flags as the command.\<close>

theorem setNonBlocking_no_effect:
  assumes "fcntl_documented sys_fcntl flags"
  shows "flags (setNonBlocking sys_fcntl f k) = flags k"
proof -
  have "flag OR O_NONBLOCK \<noteq> F_SETFL" for flag :: u32
  proof
    assume "flag OR O_NONBLOCK = F_SETFL"
    then have "bit (flag OR O_NONBLOCK) 11 = bit F_SETFL 11" by simp
    moreover have "bit O_NONBLOCK 11" "\<not> bit F_SETFL 11"
      by (simp_all add: O_NONBLOCK_def F_SETFL_def bit_iff_odd drop_bit_eq_div)
    ultimately show False by (simp add: bit_or_iff)
  qed
  with assms have "flags (snd (sys_fcntl f (flag OR O_NONBLOCK) None k1)) = flags k1" for flag k1
    by (simp add: fcntl_documented_def)
  moreover from assms have "flags (snd (sys_fcntl f F_GETFL (Some 0) k)) = flags k"
    by (simp add: fcntl_documented_def F_GETFL_def F_SETFL_def)
  ultimately show ?thesis
    by (simp add: setNonBlocking_def case_prod_beta)
qed

text \<open>A kernel with one table of status flags: \<open>F_GETFL\<close> reads, \<open>F_SETFL\<close> writes, any
  other command is refused.\<close>

definition demo_fcntl :: "fd \<Rightarrow> u32 \<Rightarrow> u32 option \<Rightarrow> (fd \<Rightarrow> u32) \<Rightarrow> u32 \<times> (fd \<Rightarrow> u32)" where
  "demo_fcntl f cmd arg k =
     (if cmd = F_GETFL then (k f, k)
      else if cmd = F_SETFL then (0, k(f := (case arg of None \<Rightarrow> 0 | Some a \<Rightarrow> a)))
      else (-1, k))"

theorem setNonBlocking_no_effect_witness:
  "setNonBlocking demo_fcntl 5 (\<lambda>_. 2) 5 AND O_NONBLOCK = 0"
proof -
  have "fcntl_documented demo_fcntl id"
    by (simp add: fcntl_documented_def demo_fcntl_def)
  from setNonBlocking_no_effect [OF this, of 5 "\<lambda>_. 2"] show ?thesis
    by (simp add: O_NONBLOCK_def)
qed

end
