(* ===== verification/PubSub.thy ===== *)
theory PubSub
  imports Inet
begin

text \<open>
  The publish/subscribe layer (\<open>src/src/pubsub/\<close>) every other component talks through:
  the event numbers, the context objects that travel with a notification (with those of
  \<open>nw_ctx.hpp\<close> and \<open>proxy_ctx.hpp\<close>), the identifier counters, and the center with its
  publishers, subscriptions and traffic accounts. The interface \<open>event_bus\<close> is what the
  servers rely on when they subscribe and unsubscribe.
\<close>

section \<open>Events and contexts\<close>

datatype pub_type = ACCEPTED | DMPREGISTER | DMPMODIFY | DMPDELETE | DMPWAIT | FORWARD | BALANCE

text \<open>The enum's underlying values; \<open>event_type_\<close> of a context holds one of them.\<close>

fun pub_code :: "pub_type \<Rightarrow> u16" where
  "pub_code ACCEPTED = 0"
| "pub_code DMPREGISTER = 1"
| "pub_code DMPMODIFY = 2"
| "pub_code DMPDELETE = 3"
| "pub_code DMPWAIT = 4"
| "pub_code FORWARD = 5"
| "pub_code BALANCE = 6"

instantiation pub_type :: linorder
begin

definition less_eq_pub_type :: "pub_type \<Rightarrow> pub_type \<Rightarrow> bool" where
  "less_eq_pub_type a b \<longleftrightarrow> pub_code a \<le> pub_code b"

definition less_pub_type :: "pub_type \<Rightarrow> pub_type \<Rightarrow> bool" where
  "less_pub_type a b \<longleftrightarrow> pub_code a < pub_code b"

lemma pub_code_inj_aux: "pub_code a = pub_code b \<Longrightarrow> a = b"
  by (cases a; cases b) simp_all

instance
  by standard (auto simp: less_eq_pub_type_def less_pub_type_def intro: pub_code_inj_aux)

end

lemma pub_code_inj [simp]: "pub_code a = pub_code b \<longleftrightarrow> a = b"
  by (cases a; cases b) simp_all

text \<open>
  The classes derived from \<open>Context\<close>, with \<open>event_type_\<close> first. A demultiplexer is
  known by its number in the program; \<open>sock_to_backend_\<close>, a hash map, is the list of its
  entries in iteration order.
\<close>

record resp =
  resp_fd :: fd
  resp_events :: u32

datatype ctx =
    AcceptContext (event_type: u16)
  | DmpRegisterContext (event_type: u16) (reg_fd: fd) (reg_events: u32) (reg_dmp: "nat option")
  | DmpModifyContext (event_type: u16) (mod_fd: fd) (mod_events: u32)
  | DmpDeleteContext (event_type: u16) (del_fd: fd)
  | DmpWaitContext (event_type: u16) (resps: "resp list")
  | LoadBalanceCtx (event_type: u16) (sockes: "fd list")
  | ForwardContext (event_type: u16) (sock_to_backend: "(fd \<times> inet_addr) list")

definition make_DmpRegisterContext :: "u16 \<Rightarrow> ctx" where
  "make_DmpRegisterContext event = DmpRegisterContext event (-1) 0 None"

definition make_DmpModifyContext :: "u16 \<Rightarrow> ctx" where
  "make_DmpModifyContext event = DmpModifyContext event (-1) 0"

definition make_DmpDeleteContext :: "u16 \<Rightarrow> ctx" where
  "make_DmpDeleteContext event = DmpDeleteContext event (-1)"

definition make_DmpWaitContext :: "u16 \<Rightarrow> ctx" where
  "make_DmpWaitContext event = DmpWaitContext event []"

definition make_LoadBalanceCtx :: "u16 \<Rightarrow> nat \<Rightarrow> ctx" where
  "make_LoadBalanceCtx event cnt = LoadBalanceCtx event (replicate cnt 0)"

definition make_ForwardContext :: "u16 \<Rightarrow> ctx" where
  "make_ForwardContext event = ForwardContext event []"

text \<open>
  \<open>dynamic_pointer_cast\<close> to a derived class followed by a member access: the fields, or a
  null dereference when the object is of another class.
\<close>

fun as_register :: "ctx \<Rightarrow> (fd \<times> u32 \<times> nat option) result" where
  "as_register (DmpRegisterContext _ f ev d) = Inr (f, ev, d)"
| "as_register _ = Inl NullDeref"

fun as_modify :: "ctx \<Rightarrow> (fd \<times> u32) result" where
  "as_modify (DmpModifyContext _ f ev) = Inr (f, ev)"
| "as_modify _ = Inl NullDeref"

fun as_delete :: "ctx \<Rightarrow> fd result" where
  "as_delete (DmpDeleteContext _ f) = Inr f"
| "as_delete _ = Inl NullDeref"

fun as_wait :: "ctx \<Rightarrow> resp list result" where
  "as_wait (DmpWaitContext _ rs) = Inr rs"
| "as_wait _ = Inl NullDeref"

fun as_balance :: "ctx \<Rightarrow> fd list result" where
  "as_balance (LoadBalanceCtx _ s) = Inr s"
| "as_balance _ = Inl NullDeref"

fun as_forward :: "ctx \<Rightarrow> (fd \<times> inet_addr) list result" where
  "as_forward (ForwardContext _ m) = Inr m"
| "as_forward _ = Inl NullDeref"

text \<open>The assignment \<open>ctx->event_type_ = e\<close> keeps the object's class and other fields.\<close>

fun set_event_type :: "u16 \<Rightarrow> ctx \<Rightarrow> ctx" where
  "set_event_type e (AcceptContext _) = AcceptContext e"
| "set_event_type e (DmpRegisterContext _ f ev d) = DmpRegisterContext e f ev d"
| "set_event_type e (DmpModifyContext _ f ev) = DmpModifyContext e f ev"
| "set_event_type e (DmpDeleteContext _ f) = DmpDeleteContext e f"
| "set_event_type e (DmpWaitContext _ r) = DmpWaitContext e r"
| "set_event_type e (LoadBalanceCtx _ s) = LoadBalanceCtx e s"
| "set_event_type e (ForwardContext _ m) = ForwardContext e m"

section \<open>The center\<close>

text \<open>
  Publishers and subscribers are known by their addresses, a null pointer is \<open>None\<close>. A set
  of subscribers is the list of its elements in iteration order, a new one last.
\<close>

type_synonym subscribers = "u16 \<rightharpoonup> (pub_type \<rightharpoonup> nat list)"

record center =
  publishers :: "u16 \<rightharpoonup> nat"
  subcribers :: subscribers
  traffic_map :: "string \<rightharpoonup> u64"

definition new_center :: center where
  "new_center = \<lparr>publishers = Map.empty, subcribers = Map.empty, traffic_map = Map.empty\<rparr>"

definition registerPub :: "u16 \<Rightarrow> nat option \<Rightarrow> center \<Rightarrow> center result" where
  "registerPub ident pub c =
     (case pub of
        None \<Rightarrow> Inl (RuntimeError ''invalid pointer.'')
      | Some p \<Rightarrow> Inr (c\<lparr>publishers := emplace (publishers c) ident p\<rparr>))"

definition unRegisterPub :: "u16 \<Rightarrow> center \<Rightarrow> center" where
  "unRegisterPub ident c =
     (case publishers c ident of
        None \<Rightarrow> c
      | Some _ \<Rightarrow> c\<lparr>publishers := erase (publishers c) ident,
                    subcribers := erase (subcribers c) ident\<rparr>)"

text \<open>The two map lookups \<open>subcribers_[pubID][type]\<close> insert what they do not find.\<close>

definition sub_entry :: "subscribers \<Rightarrow> u16 \<Rightarrow> pub_type \<Rightarrow> nat list" where
  "sub_entry m p t =
     (case m p of None \<Rightarrow> [] | Some tm \<Rightarrow> (case tm t of None \<Rightarrow> [] | Some xs \<Rightarrow> xs))"

definition set_sub_entry :: "subscribers \<Rightarrow> u16 \<Rightarrow> pub_type \<Rightarrow> nat list \<Rightarrow> subscribers" where
  "set_sub_entry m p t xs =
     m(p \<mapsto> (case m p of None \<Rightarrow> Map.empty | Some tm \<Rightarrow> tm)(t \<mapsto> xs))"

definition subscribe :: "u16 \<Rightarrow> pub_type \<Rightarrow> nat option \<Rightarrow> center \<Rightarrow> center result" where
  "subscribe pubID type sub c =
     (case sub of
        None \<Rightarrow> Inl (LogicError ''invalid pointer.'')
      | Some x \<Rightarrow>
          if publishers c pubID = None then Inr c
          else Inr (c\<lparr>subcribers := set_sub_entry (subcribers c) pubID type
                       (List.insert x (sub_entry (subcribers c) pubID type))\<rparr>))"

definition unSubscribe :: "u16 \<Rightarrow> pub_type \<Rightarrow> nat option \<Rightarrow> center \<Rightarrow> center result" where
  "unSubscribe pubID type sub c =
     (case sub of
        None \<Rightarrow> Inl (LogicError ''invalid pointer.'')
      | Some x \<Rightarrow>
          if publishers c pubID = None then Inr c
          else Inr (c\<lparr>subcribers := set_sub_entry (subcribers c) pubID type
                       (removeAll x (sub_entry (subcribers c) pubID type))\<rparr>))"

text \<open>
  \<open>notifySubscriber\<close>: the subscribers it calls, in order, and the center with the entries
  the lookups insert. \<open>dispatch\<close> is the loop over them: each \<open>update\<close> sees the shared
  context as the one before left it, and an exception leaves the loop.
\<close>

definition notify_targets :: "u16 \<Rightarrow> pub_type \<Rightarrow> center \<Rightarrow> nat list \<times> center" where
  "notify_targets pubID type c =
     (if publishers c pubID = None then ([], c)
      else let xs = sub_entry (subcribers c) pubID type
           in (xs, c\<lparr>subcribers := set_sub_entry (subcribers c) pubID type xs\<rparr>))"

fun dispatch ::
  "(nat \<Rightarrow> ctx \<Rightarrow> 's \<Rightarrow> (ctx \<times> 's) result) \<Rightarrow> nat list \<Rightarrow> ctx \<Rightarrow> 's \<Rightarrow> (ctx \<times> 's) result" where
  "dispatch upd [] x s = Inr (x, s)"
| "dispatch upd (t # ts) x s = bindR (upd t x s) (\<lambda>(x', s'). dispatch upd ts x' s')"

lemma dispatch_single [simp]: "dispatch upd [a] x s = upd a x s"
  by (cases "upd a x s") auto

section \<open>Traffic accounting\<close>

definition MAX_TRAFFIC :: u64 where "MAX_TRAFFIC = 0x7FFFFFFFFFFFFFFF"

definition account :: "string \<Rightarrow> u64 \<Rightarrow> center \<Rightarrow> center" where
  "account addr n c =
     (let m = (case traffic_map c addr of None \<Rightarrow> emplace (traffic_map c) addr n
                                      | Some _ \<Rightarrow> traffic_map c)
      in c\<lparr>traffic_map := m(addr := map_option (\<lambda>t. t + n) (m addr))\<rparr>)"

definition traffic :: "string \<Rightarrow> center \<Rightarrow> u64" where
  "traffic addr c = (case traffic_map c addr of None \<Rightarrow> -1 | Some t \<Rightarrow> t)"

definition isLismited :: "string \<Rightarrow> center \<Rightarrow> bool" where
  "isLismited addr c \<longleftrightarrow> MAX_TRAFFIC < traffic addr c"

section \<open>Identifiers\<close>

text \<open>
  \<open>SubscriberID\<close> and \<open>PublisherID\<close> are \<open>static\<close> at namespace scope of a header, so every
  translation unit that includes it has counters and functions of its own.
\<close>

datatype tu = Demultiplex_cc | Tcp_server_cc | Loader_cc | Proxy_server_cc

record ids =
  SubscriberID :: "tu \<Rightarrow> u16"
  PublisherID :: "tu \<Rightarrow> u16"

definition fresh_ids :: ids where
  "fresh_ids = \<lparr>SubscriberID = (\<lambda>_. 0), PublisherID = (\<lambda>_. 0)\<rparr>"

text \<open>Without interference the loop of \<open>pub_id\<close> runs once.\<close>

definition pub_id :: "tu \<Rightarrow> ids \<Rightarrow> u16 \<times> ids" where
  "pub_id t s = (PublisherID s t, s\<lparr>PublisherID := (PublisherID s)(t := PublisherID s t + 1)\<rparr>)"

definition sub_id :: "tu \<Rightarrow> ids \<Rightarrow> u16 \<times> ids" where
  "sub_id t s =
     (SubscriberID s t, s\<lparr>SubscriberID := (SubscriberID s)(t := SubscriberID s t + 1)\<rparr>)"

text \<open>
  The loop with interference, for the callers of one translation unit: a call loads the
  counter, then adds one and compares what it added to with what it loaded. \<open>adds\<close> counts
  the \<open>fetch_add\<close>s so far (it is not in the code).
\<close>

datatype id_pc = Looping | Loaded u16 | Returned u16

record id_state =
  counter :: u16
  calls :: "nat \<Rightarrow> id_pc"
  adds :: nat

definition id_init :: id_state where
  "id_init = \<lparr>counter = 0, calls = (\<lambda>_. Looping), adds = 0\<rparr>"

inductive id_step :: "id_state \<Rightarrow> id_state \<Rightarrow> bool" where
  load: "calls s i = Looping \<Longrightarrow> id_step s (s\<lparr>calls := (calls s)(i := Loaded (counter s))\<rparr>)"
| fetch_equal: "calls s i = Loaded v \<Longrightarrow> v = counter s \<Longrightarrow>
    id_step s (s\<lparr>calls := (calls s)(i := Returned v), counter := counter s + 1,
                 adds := Suc (adds s)\<rparr>)"
| fetch_other: "calls s i = Loaded v \<Longrightarrow> v \<noteq> counter s \<Longrightarrow>
    id_step s (s\<lparr>calls := (calls s)(i := Looping), counter := counter s + 1,
                 adds := Suc (adds s)\<rparr>)"

inductive id_reach :: "id_state \<Rightarrow> bool" where
  id_start: "id_reach id_init"
| id_next: "id_reach s \<Longrightarrow> id_step s t \<Longrightarrow> id_reach t"

inductive_cases id_stepE: "id_step s t"

section \<open>The interface of the event bus\<close>

text \<open>
  What a server relies on when it wires itself to its publishers: \<open>targets\<close> is the set of
  subscribers a notification reaches. \<open>sub\<close> and \<open>unsub\<close> take a subscriber's address.
\<close>

fun wire :: "(u16 \<Rightarrow> pub_type \<Rightarrow> nat option \<Rightarrow> 'c \<Rightarrow> 'c result) \<Rightarrow> (u16 \<times> pub_type) list \<Rightarrow> nat \<Rightarrow>
  'c \<Rightarrow> 'c result" where
  "wire op [] x c = Inr c"
| "wire op ((p, t) # ps) x c = bindR (op p t (Some x) c) (wire op ps x)"

locale event_bus =
  fixes registered :: "'c \<Rightarrow> u16 \<Rightarrow> bool"
    and targets :: "'c \<Rightarrow> u16 \<Rightarrow> pub_type \<Rightarrow> nat set"
    and sub :: "u16 \<Rightarrow> pub_type \<Rightarrow> nat option \<Rightarrow> 'c \<Rightarrow> 'c result"
    and unsub :: "u16 \<Rightarrow> pub_type \<Rightarrow> nat option \<Rightarrow> 'c \<Rightarrow> 'c result"
  assumes sub_law: "\<exists>c'. sub p t (Some x) c = Inr c' \<and> registered c' = registered c \<and>
      targets c' = (if registered c p
        then (targets c)(p := (targets c p)(t := insert x (targets c p t))) else targets c)"
    and unsub_law: "\<exists>c'. unsub p t (Some x) c = Inr c' \<and> registered c' = registered c \<and>
      targets c' = (if registered c p
        then (targets c)(p := (targets c p)(t := targets c p t - {x})) else targets c)"
begin

lemma wire_sub:
  "\<exists>c'. wire sub ps x c = Inr c' \<and> registered c' = registered c \<and>
     targets c' = (\<lambda>p t. if (p, t) \<in> set ps \<and> registered c p then insert x (targets c p t)
                         else targets c p t)"
proof (induction ps arbitrary: c)
  case Nil
  then show ?case by simp
next
  case (Cons pt ps)
  obtain p t where pt: "pt = (p, t)" by (cases pt)
  from sub_law [of p t x c] obtain c1 where
    c1: "sub p t (Some x) c = Inr c1" "registered c1 = registered c"
      "targets c1 = (if registered c p
        then (targets c)(p := (targets c p)(t := insert x (targets c p t))) else targets c)"
    by blast
  from Cons.IH [of c1] c1 show ?case
    by (auto simp: pt fun_eq_iff)
qed

lemma wire_unsub:
  "\<exists>c'. wire unsub ps x c = Inr c' \<and> registered c' = registered c \<and>
     targets c' = (\<lambda>p t. if (p, t) \<in> set ps \<and> registered c p then targets c p t - {x}
                         else targets c p t)"
proof (induction ps arbitrary: c)
  case Nil
  then show ?case by simp
next
  case (Cons pt ps)
  obtain p t where pt: "pt = (p, t)" by (cases pt)
  from unsub_law [of p t x c] obtain c1 where
    c1: "unsub p t (Some x) c = Inr c1" "registered c1 = registered c"
      "targets c1 = (if registered c p
        then (targets c)(p := (targets c p)(t := targets c p t - {x})) else targets c)"
    by blast
  from Cons.IH [of c1] c1 show ?case
    by (auto simp: pt fun_eq_iff)
qed

end

section \<open>The center as a relation\<close>

text \<open>
  The contract of the center: a set of registered publishers and a relation between
  publishers, events and subscribers. A subscription needs a registered publisher; a
  publisher that leaves takes its subscriptions along; a notification reaches exactly the
  subscribers related to its publisher and event.
\<close>

datatype bus_op =
    OpRegister u16 nat
  | OpUnregister u16
  | OpSubscribe u16 pub_type nat
  | OpUnsubscribe u16 pub_type nat
  | OpNotify u16 pub_type

type_synonym bus_spec = "u16 set \<times> (u16 \<times> pub_type \<times> nat) set"

fun rel_step :: "bus_op \<Rightarrow> bus_spec \<Rightarrow> nat set \<times> bus_spec" where
  "rel_step (OpRegister p _) (R, S) = ({}, insert p R, S)"
| "rel_step (OpUnregister p) (R, S) = ({}, R - {p}, {(q, t, x) \<in> S. q \<noteq> p})"
| "rel_step (OpSubscribe p t x) (R, S) = ({}, R, if p \<in> R then insert (p, t, x) S else S)"
| "rel_step (OpUnsubscribe p t x) (R, S) = ({}, R, S - {(p, t, x)})"
| "rel_step (OpNotify p t) (R, S) = ({x. (p, t, x) \<in> S}, R, S)"

text \<open>The same operations on the center; a notification yields whom it calls, in order.\<close>

fun bus_step :: "bus_op \<Rightarrow> center \<Rightarrow> (nat list \<times> center) result" where
  "bus_step (OpRegister p a) c = bindR (registerPub p (Some a) c) (\<lambda>c'. Inr ([], c'))"
| "bus_step (OpUnregister p) c = Inr ([], unRegisterPub p c)"
| "bus_step (OpSubscribe p t x) c = bindR (subscribe p t (Some x) c) (\<lambda>c'. Inr ([], c'))"
| "bus_step (OpUnsubscribe p t x) c = bindR (unSubscribe p t (Some x) c) (\<lambda>c'. Inr ([], c'))"
| "bus_step (OpNotify p t) c = Inr (notify_targets p t c)"

fun rel_run :: "bus_op list \<Rightarrow> bus_spec \<Rightarrow> nat set list \<times> bus_spec" where
  "rel_run [] S = ([], S)"
| "rel_run (x # xs) S =
     (let (o1, S1) = rel_step x S; (os, S2) = rel_run xs S1 in (o1 # os, S2))"

fun bus_run :: "bus_op list \<Rightarrow> center \<Rightarrow> (nat list list \<times> center) result" where
  "bus_run [] c = Inr ([], c)"
| "bus_run (x # xs) c =
     bindR (bus_step x c) (\<lambda>(o1, c1). bindR (bus_run xs c1) (\<lambda>(os, c2). Inr (o1 # os, c2)))"

definition registered :: "center \<Rightarrow> u16 \<Rightarrow> bool" where
  "registered c p \<longleftrightarrow> publishers c p \<noteq> None"

definition center_targets :: "center \<Rightarrow> u16 \<Rightarrow> pub_type \<Rightarrow> nat set" where
  "center_targets c p t = set (fst (notify_targets p t c))"

definition abs_center :: "center \<Rightarrow> bus_spec" where
  "abs_center c = (dom (publishers c), {(p, t, x). x \<in> set (sub_entry (subcribers c) p t)})"

definition center_ok :: "center \<Rightarrow> bool" where
  "center_ok c \<longleftrightarrow> dom (subcribers c) \<subseteq> dom (publishers c) \<and>
     (\<forall>p t. distinct (sub_entry (subcribers c) p t))"

lemma sub_entry_set [simp]:
  "sub_entry (set_sub_entry m p t xs) q u = (if q = p \<and> u = t then xs else sub_entry m q u)"
  by (auto simp: sub_entry_def set_sub_entry_def split: option.splits)

lemma dom_set_sub_entry [simp]: "dom (set_sub_entry m p t xs) = insert p (dom m)"
  by (auto simp: set_sub_entry_def)

lemma sub_entry_erase [simp]: "sub_entry (erase m p) q t = (if q = p then [] else sub_entry m q t)"
  by (auto simp: sub_entry_def erase_def)

lemma sub_entry_unregistered:
  "center_ok c \<Longrightarrow> publishers c p = None \<Longrightarrow> sub_entry (subcribers c) p t = []"
  by (auto simp: center_ok_def sub_entry_def dom_def subset_iff split: option.splits)

lemma new_center_ok [simp]: "center_ok new_center"
  by (simp add: center_ok_def new_center_def sub_entry_def)

lemmas center_defs = registerPub_def unRegisterPub_def subscribe_def unSubscribe_def
  notify_targets_def

lemma bus_step_refines:
  assumes "center_ok c"
  shows "\<exists>out c'. bus_step x c = Inr (out, c') \<and> center_ok c' \<and> distinct out \<and>
    rel_step x (abs_center c) = (set out, abs_center c')"
proof (cases x)
  case (OpRegister p a)
  then show ?thesis
    using assms by (auto simp: center_defs center_ok_def abs_center_def)
next
  case (OpUnregister p)
  then show ?thesis
    using assms sub_entry_unregistered [OF assms, of p]
    by (auto simp: center_defs center_ok_def abs_center_def split: option.splits if_splits)
next
  case (OpSubscribe p t y)
  then show ?thesis
    using assms by (auto simp: center_defs center_ok_def abs_center_def split: if_splits)
next
  case (OpUnsubscribe p t y)
  then show ?thesis
    using assms sub_entry_unregistered [OF assms, of p]
    by (auto simp: center_defs center_ok_def abs_center_def distinct_removeAll split: if_splits)
next
  case (OpNotify p t)
  then show ?thesis
    using assms sub_entry_unregistered [OF assms, of p]
    by (auto simp: center_defs center_ok_def abs_center_def Let_def split: if_splits)
qed

text \<open>C13. The center implements the relation: over any sequence of registrations,
  unregistrations, subscriptions, cancellations and notifications it never throws, every
  notification calls exactly the subscribers related to its publisher and event, each once,
  and a publisher that leaves takes its subscriptions along.\<close>

theorem center_refines_relation:
  assumes "center_ok c"
  shows "\<exists>outs c'. bus_run ops c = Inr (outs, c') \<and> center_ok c' \<and> list_all distinct outs \<and>
    rel_run ops (abs_center c) = (map set outs, abs_center c')"
  using assms
proof (induction ops arbitrary: c)
  case Nil
  then show ?case by simp
next
  case (Cons x ops)
  from bus_step_refines [OF Cons.prems, of x] obtain out c1 where
    1: "bus_step x c = Inr (out, c1)" "center_ok c1" "distinct out"
      "rel_step x (abs_center c) = (set out, abs_center c1)"
    by blast
  from Cons.IH [OF 1(2)] 1 show ?case by fastforce
qed

theorem center_refines_relation_witness:
  "\<exists>c'. bus_run [OpRegister 0 10, OpSubscribe 0 DMPWAIT 1, OpSubscribe 0 DMPWAIT 2,
      OpUnsubscribe 0 DMPWAIT 1, OpNotify 0 DMPWAIT] new_center = Inr ([[], [], [], [], [2]], c') \<and>
    center_ok c'"
proof -
  let ?ops = "[OpRegister 0 10, OpSubscribe 0 DMPWAIT 1, OpSubscribe 0 DMPWAIT 2,
      OpUnsubscribe 0 DMPWAIT 1, OpNotify 0 DMPWAIT]"
  obtain outs c' where 1: "bus_run ?ops new_center = Inr (outs, c')" "center_ok c'"
    using center_refines_relation [OF new_center_ok, of ?ops] by blast
  moreover have "outs = [[], [], [], [], [2]]"
    using 1(1) by (auto simp: center_defs new_center_def sub_entry_def set_sub_entry_def Let_def
        List.insert_def)
  ultimately show ?thesis by simp
qed

section \<open>Wiring a server\<close>

lemma center_targets_eq:
  "center_targets c p t = (if registered c p then set (sub_entry (subcribers c) p t) else {})"
  by (simp add: center_targets_def notify_targets_def registered_def Let_def)

interpretation bus: event_bus registered center_targets subscribe unSubscribe
proof unfold_locales
  fix p t x and c :: center
  show "\<exists>c'. subscribe p t (Some x) c = Inr c' \<and> registered c' = registered c \<and>
      center_targets c' = (if registered c p
        then (center_targets c)(p := (center_targets c p)(t := insert x (center_targets c p t)))
        else center_targets c)"
    by (auto simp: subscribe_def fun_eq_iff center_targets_eq registered_def)
next
  fix p t x and c :: center
  show "\<exists>c'. unSubscribe p t (Some x) c = Inr c' \<and> registered c' = registered c \<and>
      center_targets c' = (if registered c p
        then (center_targets c)(p := (center_targets c p)(t := center_targets c p t - {x}))
        else center_targets c)"
    by (auto simp: unSubscribe_def fun_eq_iff center_targets_eq registered_def)
qed

section \<open>Accounting\<close>

lemma traffic_account:
  "traffic_map (account a n c) =
     (traffic_map c)(a \<mapsto> (case traffic_map c a of None \<Rightarrow> n + n | Some t \<Rightarrow> t + n))"
  by (auto simp: account_def split: option.splits)

lemma account_frame [simp]:
  "publishers (account a n c) = publishers c" "subcribers (account a n c) = subcribers c"
  by (simp_all add: account_def Let_def)

lemma traffic_accounts:
  "traffic_map c a = Some v \<Longrightarrow> traffic_map (fold (account a) ts c) a = Some (v + sum_list ts)"
  by (induction ts arbitrary: c v) (auto simp: traffic_account add.assoc)

text \<open>What is accounted to an address is the sum (modulo \<open>2^64\<close>) of what was reported
  for it, added to what was there; but the first report for an unknown address is counted
  twice. The balance is exact for an address first reported with 0, as the server does when
  a client connects.\<close>

theorem account_total:
  "traffic a (fold (account a) (t # ts) c) =
     (case traffic_map c a of
        None \<Rightarrow> t + t + sum_list ts
      | Some v \<Rightarrow> v + t + sum_list ts)"
proof -
  have "traffic_map (account a t c) a =
      Some (case traffic_map c a of None \<Rightarrow> t + t | Some v \<Rightarrow> v + t)"
    by (simp add: traffic_account split: option.splits)
  from traffic_accounts [OF this, of ts] show ?thesis
    by (simp add: traffic_def split: option.splits)
qed

text \<open>A client is over the limit exactly when nothing was ever accounted to its address
  or its total is at least \<open>2^63\<close>: an unknown address reads as \<open>-1\<close>, the largest
  \<open>size_t\<close>.\<close>

theorem isLismited_iff:
  "isLismited a c \<longleftrightarrow>
     (case traffic_map c a of None \<Rightarrow> True | Some t \<Rightarrow> 2 ^ 63 \<le> unat t)"
proof -
  have "unat (-1 :: u64) = 2 ^ 64 - 1"
    by (simp add: unsigned_minus_1_eq_mask mask_eq_exp_minus_1)
  then show ?thesis
    by (auto simp: isLismited_def traffic_def MAX_TRAFFIC_def word_less_nat_alt
        split: option.splits)
qed

section \<open>Uniqueness of identifiers\<close>

text \<open>
  Every returned identifier is what one \<open>fetch_add\<close> added to, and no \<open>fetch_add\<close> serves
  two calls: \<open>f\<close> numbers the successful ones.
\<close>

definition id_numbering :: "(nat \<Rightarrow> nat) \<Rightarrow> id_state \<Rightarrow> bool" where
  "id_numbering f s \<longleftrightarrow>
     (\<forall>i v. calls s i = Returned v \<longrightarrow> v = word_of_nat (f i) \<and> f i < adds s) \<and>
     (\<forall>i j v w. calls s i = Returned v \<longrightarrow> calls s j = Returned w \<longrightarrow> f i = f j \<longrightarrow> i = j)"

definition id_inv :: "id_state \<Rightarrow> bool" where
  "id_inv s \<longleftrightarrow> counter s = word_of_nat (adds s) \<and> (\<exists>f. id_numbering f s)"

lemma id_inv_init: "id_inv id_init"
  by (auto simp: id_inv_def id_numbering_def id_init_def)

lemma id_inv_step: "id_step s t \<Longrightarrow> id_inv s \<Longrightarrow> id_inv t"
proof (induction rule: id_step.induct)
  case (load s i)
  then obtain f where "id_numbering f s" "counter s = word_of_nat (adds s)"
    by (auto simp: id_inv_def)
  then have "id_numbering f (s\<lparr>calls := (calls s)(i := Loaded (counter s))\<rparr>)"
    by (fastforce simp: id_numbering_def)
  then show ?case using load by (auto simp: id_inv_def)
next
  case (fetch_equal s i v)
  then obtain f where f: "id_numbering f s" "counter s = word_of_nat (adds s)"
    by (auto simp: id_inv_def)
  then have "id_numbering (f(i := adds s)) (s\<lparr>calls := (calls s)(i := Returned v),
      counter := counter s + 1, adds := Suc (adds s)\<rparr>)"
    using fetch_equal by (fastforce simp: id_numbering_def less_Suc_eq)
  then show ?case using f(2) by (auto simp: id_inv_def add.commute)
next
  case (fetch_other s i v)
  then obtain f where f: "id_numbering f s" "counter s = word_of_nat (adds s)"
    by (auto simp: id_inv_def)
  then have "id_numbering f (s\<lparr>calls := (calls s)(i := Looping),
      counter := counter s + 1, adds := Suc (adds s)\<rparr>)"
    by (fastforce simp: id_numbering_def less_Suc_eq)
  then show ?case using f(2) by (auto simp: id_inv_def add.commute)
qed

lemma id_reach_inv: "id_reach s \<Longrightarrow> id_inv s"
  by (induction rule: id_reach.induct) (auto intro: id_inv_init id_inv_step)

text \<open>C32. However the calls of \<open>pub_id\<close> in one translation unit interleave, two calls never
  return the same identifier, as long as the 16-bit counter has not wrapped.\<close>

theorem ids_unique:
  assumes "id_reach s" "adds s \<le> 2 ^ 16"
    and "calls s i = Returned v" "calls s j = Returned w" "i \<noteq> j"
  shows "v \<noteq> w"
proof
  assume "v = w"
  obtain f where f: "id_numbering f s"
    using id_reach_inv [OF assms(1)] by (auto simp: id_inv_def)
  then have "v = word_of_nat (f i)" "w = word_of_nat (f j)" and lt: "f i < 2 ^ 16" "f j < 2 ^ 16"
    using assms by (auto simp: id_numbering_def intro: less_le_trans)
  with \<open>v = w\<close> have "unat (word_of_nat (f i) :: u16) = unat (word_of_nat (f j) :: u16)"
    by simp
  with lt have "f i = f j" by (simp add: unat_of_nat)
  with f assms show False by (auto simp: id_numbering_def)
qed

text \<open>Two calls that load the same value: one returns 0, the other loops and returns 2.\<close>

definition id_race :: id_state where
  "id_race = \<lparr>counter = 3, calls = (\<lambda>_. Looping)(0 := Returned 0, 1 := Returned 2), adds = 3\<rparr>"

lemma id_race_reachable: "id_reach id_race"
proof -
  let ?c = "\<lambda>_. Looping"
  let ?s1 = "\<lparr>counter = 0, calls = ?c(0 := Loaded 0), adds = 0\<rparr>"
  let ?s2 = "\<lparr>counter = 0, calls = ?c(0 := Loaded 0, 1 := Loaded 0), adds = 0\<rparr>"
  let ?s3 = "\<lparr>counter = 1, calls = ?c(0 := Returned 0, 1 := Loaded 0), adds = 1\<rparr>"
  let ?s4 = "\<lparr>counter = 2, calls = ?c(0 := Returned 0, 1 := Looping), adds = 2\<rparr>"
  let ?s5 = "\<lparr>counter = 2, calls = ?c(0 := Returned 0, 1 := Loaded 2), adds = 2\<rparr>"
  have s1: "id_step id_init ?s1" using id_step.load [of id_init 0] by (simp add: id_init_def)
  have s2: "id_step ?s1 ?s2" using id_step.load [of ?s1 1] by simp
  have s3: "id_step ?s2 ?s3"
    using id_step.fetch_equal [of ?s2 0 0] by (simp add: fun_upd_twist)
  have s4: "id_step ?s3 ?s4" using id_step.fetch_other [of ?s3 1 0]
    by (simp add: eval_nat_numeral)
  have s5: "id_step ?s4 ?s5" using id_step.load [of ?s4 1] by simp
  have s6: "id_step ?s5 id_race"
    using id_step.fetch_equal [of ?s5 1 2] by (simp add: id_race_def)
  show ?thesis
    by (rule id_next [OF id_next [OF id_next [OF id_next [OF id_next [OF id_next
        [OF id_start s1] s2] s3] s4] s5] s6])
qed

theorem ids_unique_witness: "id_reach id_race \<and> (0 :: u16) \<noteq> 2"
  using ids_unique [of id_race 0 0 1 2] id_race_reachable by (simp add: id_race_def)

text \<open>Two publishers whose classes live in different translation units get the same
  identifier: the center keeps the first one registered under it, drops the second silently,
  and forgets the first when the second is destroyed.\<close>

theorem publisher_ids_collide:
  assumes "t1 \<noteq> t2" "pub_id t1 fresh_ids = (a, s1)" "pub_id t2 s1 = (b, s2)"
    and "registerPub a (Some p) new_center = Inr c1" "registerPub b (Some q) c1 = Inr c2"
  shows "a = b \<and> publishers c2 = [a \<mapsto> p] \<and> publishers (unRegisterPub b c2) = Map.empty"
  using assms
  by (auto simp: pub_id_def fresh_ids_def registerPub_def unRegisterPub_def new_center_def
      erase_def)

theorem publisher_ids_collide_witness:
  "publishers (unRegisterPub 0 (new_center\<lparr>publishers := [0 \<mapsto> 11]\<rparr>)) = Map.empty"
proof -
  let ?s1 = "fresh_ids\<lparr>PublisherID := (\<lambda>_. 0)(Loader_cc := 1)\<rparr>"
  let ?s2 = "fresh_ids\<lparr>PublisherID := (\<lambda>_. 0)(Loader_cc := 1, Demultiplex_cc := 1)\<rparr>"
  let ?c = "new_center\<lparr>publishers := [0 \<mapsto> 11]\<rparr>"
  have "pub_id Loader_cc fresh_ids = (0, ?s1)" "pub_id Demultiplex_cc ?s1 = (0, ?s2)"
    by (simp_all add: pub_id_def fresh_ids_def)
  moreover have "registerPub 0 (Some 11) new_center = Inr ?c" "registerPub 0 (Some 22) ?c = Inr ?c"
    by (simp_all add: registerPub_def new_center_def)
  ultimately show ?thesis
    using publisher_ids_collide [of Loader_cc Demultiplex_cc 0 ?s1 0 ?s2 11 ?c 22 ?c] by simp
qed

end
