(* ===== verification/Roles.thy ===== *)
theory Roles
  imports PubSub
begin

text \<open>
  The two abstract classes of the layer, \<open>Publisher\<close> (\<open>src/src/pubsub/publisher.hpp\<close>) and
  \<open>Subscriber\<close> (\<open>subscriber.hpp\<close>), as interfaces: what \<open>pubID\<close> and \<open>notify\<close> of the one and
  \<open>subscribe\<close> of the other promise, and what follows when an object of one class listens to
  an object of the other. The components that derive from them give the instances.
\<close>

section \<open>Notifying through the center\<close>

type_synonym 's notifier = "u16 \<Rightarrow> pub_type \<Rightarrow> ctx \<Rightarrow> 's \<Rightarrow> (ctx \<times> 's) result"

text \<open>
  \<open>notifySubscriber\<close> on a state that holds the center: \<open>cen\<close> and \<open>put\<close> read and write it,
  \<open>upd\<close> is the call of a subscriber's \<open>update\<close>.
\<close>

definition center_notifier ::
  "('s \<Rightarrow> center) \<Rightarrow> (center \<Rightarrow> 's \<Rightarrow> 's) \<Rightarrow> (nat \<Rightarrow> ctx \<Rightarrow> 's \<Rightarrow> (ctx \<times> 's) result) \<Rightarrow> 's notifier" where
  "center_notifier cen put upd p t x s =
     (let (ts, c') = notify_targets p t (cen s) in dispatch upd ts x (put c' s))"

lemma targets_of_ok: "center_ok c \<Longrightarrow> center_targets c p t = set (sub_entry (subcribers c) p t)"
  using sub_entry_unregistered [of c p t] by (auto simp: center_targets_eq registered_def)

lemma notify_unheard:
  "center_ok (cen s) \<Longrightarrow> center_targets (cen s) p t = {} \<Longrightarrow>
   center_notifier cen put upd p t x s = Inr (x, put (snd (notify_targets p t (cen s))) s)"
  by (simp add: center_notifier_def center_targets_def case_prod_beta)

lemma one_target:
  assumes "center_ok c" "center_targets c p t = {a}"
  shows "fst (notify_targets p t c) = [a]"
proof -
  let ?xs = "fst (notify_targets p t c)"
  have "set ?xs = {a}" using assms(2) by (simp add: center_targets_def)
  moreover have "distinct ?xs"
    using assms(1) by (auto simp: notify_targets_def center_ok_def Let_def)
  ultimately have "length ?xs = 1" using distinct_card [of ?xs] by simp
  with \<open>set ?xs = {a}\<close> show ?thesis by (cases ?xs) auto
qed

lemma notify_one:
  "center_ok (cen s) \<Longrightarrow> center_targets (cen s) p t = {a} \<Longrightarrow>
   center_notifier cen put upd p t x s = upd a x (put (snd (notify_targets p t (cen s))) s)"
  by (simp add: center_notifier_def one_target case_prod_beta del: dispatch.simps)

section \<open>Publisher\<close>

text \<open>
  A publisher notifies under its own identifier, the event being the one its class stands for
  or the one it is given, unless it is silenced.
\<close>

locale publisher =
  fixes pubID :: "'p \<Rightarrow> u16"
    and event :: "pub_type \<Rightarrow> pub_type"
    and enabled :: "'p \<Rightarrow> bool"
    and notify :: "'s notifier \<Rightarrow> 'p \<Rightarrow> pub_type \<Rightarrow> ctx \<Rightarrow> 's \<Rightarrow> (ctx \<times> 's) result"
  assumes notify_law: "notify ntf p t x s =
    (if enabled p then ntf (pubID p) (event t) x s else Inr (x, s))"
begin

lemma silenced: "\<not> enabled p \<Longrightarrow> notify ntf p t x s = Inr (x, s)"
  by (simp add: notify_law)

lemma unheard:
  "center_ok (cen s) \<Longrightarrow> center_targets (cen s) (pubID p) (event t) = {} \<Longrightarrow> enabled p \<Longrightarrow>
   notify (center_notifier cen put upd) p t x s =
     Inr (x, put (snd (notify_targets (pubID p) (event t) (cen s))) s)"
  by (simp add: notify_law notify_unheard)

end

section \<open>Subscriber\<close>

text \<open>A subscriber enters itself, once, under a publisher's identifier the center knows.\<close>

locale subscriber =
  fixes self :: "'o \<Rightarrow> nat"
    and sub :: "'o \<Rightarrow> u16 \<Rightarrow> pub_type \<Rightarrow> center \<Rightarrow> center result"
  assumes subscribe_law: "center_ok c \<Longrightarrow> \<exists>c'. sub b p t c = Inr c' \<and> center_ok c' \<and>
    publishers c' = publishers c \<and>
    center_targets c' = (\<lambda>q u. if q = p \<and> u = t \<and> registered c p then insert (self b) (center_targets c q u)
                               else center_targets c q u)"
begin

lemma unknown_publisher:
  "center_ok c \<Longrightarrow> \<not> registered c p \<Longrightarrow> \<exists>c'. sub b p t c = Inr c' \<and> center_targets c' = center_targets c"
  using subscribe_law [of c b p t] by auto

end

section \<open>A subscriber listening to a publisher\<close>

locale link = publisher pubID event enabled notify + subscriber self sub
  for pubID :: "'p \<Rightarrow> u16" and event enabled
    and notify :: "'s notifier \<Rightarrow> 'p \<Rightarrow> pub_type \<Rightarrow> ctx \<Rightarrow> 's \<Rightarrow> (ctx \<times> 's) result"
    and self :: "'o \<Rightarrow> nat" and sub
begin

text \<open>Once it has subscribed, where nobody had, its \<open>update\<close> alone is called, once.\<close>

lemma heard:
  assumes "center_ok c" "registered c (pubID p)" "center_targets c (pubID p) (event t) = {}" "enabled p"
  obtains c' where "sub b (pubID p) (event t) c = Inr c'" "center_ok c'"
    "center_targets c' (pubID p) (event t) = {self b}"
    "\<And>cen put upd x s. cen s = c' \<Longrightarrow> notify (center_notifier cen put upd) p t x s =
       upd (self b) x (put (snd (notify_targets (pubID p) (event t) c')) s)"
proof -
  obtain c' where c': "sub b (pubID p) (event t) c = Inr c'" "center_ok c'"
      "center_targets c' (pubID p) (event t) = {self b}"
    using subscribe_law [OF assms(1), of b "pubID p" "event t"] assms(2,3) by auto
  with assms(4) notify_one show thesis by (intro that) (auto simp: notify_law)
qed

end

text \<open>\<open>center_->subscribe(pubID, type, this)\<close> is all the \<open>subscribe\<close> of a class does.\<close>

lemma subscribe_meets_law:
  assumes "center_ok c"
  shows "\<exists>c'. subscribe p t (Some a) c = Inr c' \<and> center_ok c' \<and> publishers c' = publishers c \<and>
    center_targets c' = (\<lambda>q u. if q = p \<and> u = t \<and> registered c p then insert a (center_targets c q u)
                               else center_targets c q u)"
proof -
  obtain c' where c': "subscribe p t (Some a) c = Inr c'" "center_targets c' = (if registered c p
      then (center_targets c)(p := (center_targets c p)(t := insert a (center_targets c p t))) else center_targets c)"
    using bus.sub_law by blast
  moreover have "center_ok c'" using bus_step_refines [OF assms, of "OpSubscribe p t a"] c'(1) by auto
  moreover have "publishers c' = publishers c" using c'(1) by (auto simp: subscribe_def split: if_splits)
  ultimately show ?thesis by (auto simp: fun_eq_iff)
qed

end
