(* ===== verification/Demux.thy ===== *)
theory Demux
  imports Roles
begin

text \<open>
  \<open>Demultiplex\<close> (\<open>src/src/network/demultiplex.hpp\<close>, \<open>demultiplex.cc\<close>), the epoll
  instance that publishes what happens to its descriptors, and \<open>Channel\<close>
  (\<open>channel.hpp\<close>, \<open>channel.cc\<close>), a descriptor's handle on it. Both act on the state
  \<open>'s\<close> of whatever program part holds them, through two arguments: \<open>ntf\<close> is
  \<open>center_->notifySubscriber\<close>, which runs the subscribers on that state, and \<open>sys\<close>
  issues a system call and yields its answer.
\<close>

section \<open>Event masks\<close>

definition EPOLLIN :: u32 where "EPOLLIN = 0x001"
definition EPOLLOUT :: u32 where "EPOLLOUT = 0x004"
definition EPOLLERR :: u32 where "EPOLLERR = 0x008"
definition EPOLLHUP :: u32 where "EPOLLHUP = 0x010"
definition EPOLLRDHUP :: u32 where "EPOLLRDHUP = 0x2000"
definition EPOLLET :: u32 where "EPOLLET = 0x80000000"

definition READABLE :: u32 where "READABLE = EPOLLIN"
definition WRITABLE :: u32 where "WRITABLE = EPOLLOUT"
definition CLOSABLE :: u32 where "CLOSABLE = EPOLLERR OR EPOLLHUP OR EPOLLRDHUP"
definition DefaultEvents :: u32 where "DefaultEvents = READABLE OR CLOSABLE OR EPOLLET"

lemmas mask_defs = EPOLLIN_def EPOLLOUT_def EPOLLERR_def EPOLLHUP_def EPOLLRDHUP_def
  EPOLLET_def READABLE_def WRITABLE_def CLOSABLE_def DefaultEvents_def

text \<open>\<open>events & MASK\<close> as a condition.\<close>

definition has :: "u32 \<Rightarrow> u32 \<Rightarrow> bool" where
  "has m ev \<longleftrightarrow> ev AND m \<noteq> 0"

lemma masks [simp]:
  "has READABLE WRITABLE = False" "has WRITABLE DefaultEvents = False"
  "has READABLE DefaultEvents = True" "has WRITABLE WRITABLE = True"
  "has READABLE READABLE = True" "has CLOSABLE READABLE = False"
  "has CLOSABLE WRITABLE = False" "has READABLE CLOSABLE = False"
  "has WRITABLE CLOSABLE = False" "has CLOSABLE CLOSABLE = True"
  "0 OR WRITABLE = WRITABLE" "0 OR READABLE = READABLE"
  by (simp_all add: has_def mask_defs)

section \<open>System calls\<close>

datatype epoll_op = CtlAdd | CtlMod | CtlDel

datatype syscall =
    Fcntl fd
  | EpollCtl int epoll_op fd u32
  | SysWrite fd string
  | SysClose fd
  | SysShutdown fd

section \<open>Demultiplex\<close>

record demux =
  dmp_id :: u16
  dmpfd :: int
  notify_on :: bool

type_synonym 's sys = "syscall \<Rightarrow> 's \<Rightarrow> int \<times> 's"

text \<open>
  The constructor: \<open>epoll_create\<close>'s answer \<open>epfd\<close>, then the registration in the center
  under an identifier of \<open>demultiplex.cc\<close>; \<open>self\<close> is the object's address.
\<close>

definition make_demux :: "int \<Rightarrow> nat \<Rightarrow> ids \<Rightarrow> center \<Rightarrow> (demux \<times> ids \<times> center) result" where
  "make_demux epfd self i c =
     (let (ident, i') = pub_id Demultiplex_cc i in
      if epfd < 0 then Inl (RuntimeError ''can not create epoll instance'')
      else bindR (registerPub ident (Some self) c) (\<lambda>c'.
        Inr (\<lparr>dmp_id = ident, dmpfd = epfd, notify_on = True\<rparr>, i', c')))"

definition destroy_demux :: "demux \<Rightarrow> center \<Rightarrow> center" where
  "destroy_demux d c = (if dmpfd d \<noteq> -1 then unRegisterPub (dmp_id d) c else c)"

definition enableNotify :: "bool \<Rightarrow> demux \<Rightarrow> demux" where
  "enableNotify enabled d = d\<lparr>notify_on := enabled\<rparr>"

definition demux_pubID :: "demux \<Rightarrow> u16" where
  "demux_pubID d = dmp_id d"

definition demux_notify :: "'s notifier \<Rightarrow> demux \<Rightarrow> pub_type \<Rightarrow> ctx \<Rightarrow> 's \<Rightarrow> (ctx \<times> 's) result" where
  "demux_notify ntf d type x s = (if notify_on d then ntf (dmp_id d) type x s else Inr (x, s))"

interpretation demux_pub: publisher demux_pubID "\<lambda>t. t" notify_on demux_notify
  by unfold_locales (simp add: demux_notify_def demux_pubID_def)

text \<open>The condition \<open>notify_ || (!notify_ && notify)\<close> under which an operation notifies.\<close>

definition notifies :: "demux \<Rightarrow> bool \<Rightarrow> bool" where
  "notifies d flag \<longleftrightarrow> notify_on d \<or> (\<not> notify_on d \<and> flag)"

definition notify_if :: "'s notifier \<Rightarrow> demux \<Rightarrow> bool \<Rightarrow> pub_type \<Rightarrow> ctx \<Rightarrow> 's \<Rightarrow> (ctx \<times> 's) result" where
  "notify_if ntf d flag type x s =
     (if notifies d flag then ntf (dmp_id d) type x s else Inr (x, s))"

text \<open>\<open>self\<close> is what \<open>shared_from_this\<close> yields.\<close>

definition demultiplexRegister ::
  "'s notifier \<Rightarrow> 's sys \<Rightarrow> nat \<Rightarrow> demux \<Rightarrow> fd \<Rightarrow> bool \<Rightarrow> 's \<Rightarrow> (int \<times> 's) result" where
  "demultiplexRegister ntf sys self d sockfd flag s =
     (let s1 = snd (sys (Fcntl sockfd) s);
          x = DmpRegisterContext (pub_code DMPREGISTER) sockfd DefaultEvents
                (if notifies d flag then Some self else None)
      in bindR (notify_if ntf d flag DMPREGISTER x s1) (\<lambda>(_, s2).
           Inr (sys (EpollCtl (dmpfd d) CtlAdd sockfd DefaultEvents) s2)))"

definition demultiplexModify ::
  "'s notifier \<Rightarrow> 's sys \<Rightarrow> demux \<Rightarrow> ctx \<Rightarrow> bool \<Rightarrow> 's \<Rightarrow> (int \<times> 's) result" where
  "demultiplexModify ntf sys d x flag s =
     bindR (notify_if ntf d flag DMPMODIFY (set_event_type (pub_code DMPMODIFY) x) s)
       (\<lambda>(x', s1). bindR (as_modify x') (\<lambda>(f, ev).
          Inr (sys (EpollCtl (dmpfd d) CtlMod f ev) s1)))"

definition demultiplexRemove ::
  "'s notifier \<Rightarrow> 's sys \<Rightarrow> demux \<Rightarrow> ctx \<Rightarrow> bool \<Rightarrow> 's \<Rightarrow> (int \<times> 's) result" where
  "demultiplexRemove ntf sys d x flag s =
     bindR (notify_if ntf d flag DMPDELETE (set_event_type (pub_code DMPDELETE) x) s)
       (\<lambda>(x', s1). bindR (as_delete x') (\<lambda>f.
          Inr (sys (EpollCtl (dmpfd d) CtlDel f 0) s1)))"

text \<open>
  \<open>demultiplexWait\<close>: \<open>eps\<close> is what \<open>epoll_wait\<close> delivers, empty when its answer is not
  positive. The context keeps the delivered events for its owner.
\<close>

definition demultiplexWait ::
  "'s notifier \<Rightarrow> demux \<Rightarrow> ctx \<Rightarrow> bool \<Rightarrow> resp list \<Rightarrow> 's \<Rightarrow> (ctx \<times> 's) result" where
  "demultiplexWait ntf d x flag eps s =
     (if eps = [] then Inr (x, s)
      else bindR (as_wait x) (\<lambda>_.
        notify_if ntf d flag DMPWAIT (DmpWaitContext (event_type x) eps) s))"

section \<open>Channel\<close>

text \<open>
  \<open>leave_\<close>, \<open>socket_\<close>, and the demultiplexer object it points to. The operations take
  that object as \<open>d\<close>; through an empty pointer they dereference null.
\<close>

record channel =
  leave_flag :: bool
  chan_socket :: fd
  chan_dmp :: "nat option"

definition make_channel :: "fd \<Rightarrow> nat option \<Rightarrow> channel" where
  "make_channel f d = \<lparr>leave_flag = False, chan_socket = f, chan_dmp = d\<rparr>"

definition deref_dmp :: "(nat \<Rightarrow> demux option) \<Rightarrow> channel \<Rightarrow> demux result" where
  "deref_dmp dm c =
     (case chan_dmp c of
        None \<Rightarrow> Inl NullDeref
      | Some n \<Rightarrow> (case dm n of None \<Rightarrow> Inl UseAfterFree | Some d \<Rightarrow> Inr d))"

text \<open>\<open>mark\<close> stores \<open>leave_ = true\<close> in the channel, wherever its owner keeps it.\<close>

definition leave ::
  "'s notifier \<Rightarrow> 's sys \<Rightarrow> (nat \<Rightarrow> demux option) \<Rightarrow> ('s \<Rightarrow> 's) \<Rightarrow> channel \<Rightarrow> 's \<Rightarrow> 's result" where
  "leave ntf sys dm mark c s =
     (let s1 = mark s in
      bindR (deref_dmp dm c) (\<lambda>d.
      bindR (demultiplexRemove ntf sys d
               (DmpDeleteContext (pub_code DMPDELETE) (chan_socket c)) False s1)
        (\<lambda>(_, s2). Inr s2)))"

text \<open>The destructor, on a channel that nobody keeps any more.\<close>

definition destroy_channel ::
  "'s notifier \<Rightarrow> 's sys \<Rightarrow> (nat \<Rightarrow> demux option) \<Rightarrow> channel \<Rightarrow> 's \<Rightarrow> 's result" where
  [simp]: "destroy_channel ntf sys dm c s = (if leave_flag c then Inr s else leave ntf sys dm (\<lambda>s. s) c s)"

definition change_events ::
  "'s notifier \<Rightarrow> 's sys \<Rightarrow> (nat \<Rightarrow> demux option) \<Rightarrow> channel \<Rightarrow> (u32 \<Rightarrow> u32) \<Rightarrow> ctx \<Rightarrow> 's \<Rightarrow> 's result"
  where "change_events ntf sys dm c g x s =
     bindR (as_modify x) (\<lambda>(_, ev).
     bindR (deref_dmp dm c) (\<lambda>d.
     bindR (demultiplexModify ntf sys d (DmpModifyContext (event_type x) (chan_socket c) (g ev))
              False s)
       (\<lambda>(_, s2). Inr s2)))"

definition enableRead ::
  "'s notifier \<Rightarrow> 's sys \<Rightarrow> (nat \<Rightarrow> demux option) \<Rightarrow> channel \<Rightarrow> ctx \<Rightarrow> 's \<Rightarrow> 's result" where
  "enableRead ntf sys dm c = change_events ntf sys dm c (\<lambda>ev. ev OR READABLE)"

definition enableWrite ::
  "'s notifier \<Rightarrow> 's sys \<Rightarrow> (nat \<Rightarrow> demux option) \<Rightarrow> channel \<Rightarrow> ctx \<Rightarrow> 's \<Rightarrow> 's result" where
  "enableWrite ntf sys dm c = change_events ntf sys dm c (\<lambda>ev. ev OR WRITABLE)"

definition disableRead ::
  "'s notifier \<Rightarrow> 's sys \<Rightarrow> (nat \<Rightarrow> demux option) \<Rightarrow> channel \<Rightarrow> ctx \<Rightarrow> 's \<Rightarrow> 's result" where
  "disableRead ntf sys dm c = change_events ntf sys dm c (\<lambda>ev. ev AND (NOT READABLE))"

definition disableWrite ::
  "'s notifier \<Rightarrow> 's sys \<Rightarrow> (nat \<Rightarrow> demux option) \<Rightarrow> channel \<Rightarrow> ctx \<Rightarrow> 's \<Rightarrow> 's result" where
  "disableWrite ntf sys dm c = change_events ntf sys dm c (\<lambda>_. DefaultEvents)"

section \<open>Lemmas\<close>

lemma notifies_eq [simp]: "notifies d flag \<longleftrightarrow> notify_on d \<or> flag"
  by (auto simp: notifies_def)

lemma change_events_register [simp]:
  "change_events ntf sys dm c g (DmpRegisterContext e f ev d) s = Inl NullDeref"
  by (simp add: change_events_def)

end
