(* ===== verification/Connection.thy ===== *)
theory Connection
  imports Demux Buffer
begin

text \<open>
  \<open>TcpConnection\<close> (\<open>src/src/network/tcp_connection.hpp\<close>, \<open>tcp_connection.cc\<close>): a
  descriptor with its channel, its two buffers, its peer, its state and the register context
  it shares with nobody. The connections live in the server's map, and an operation of one
  may, through a notification, make the server change or destroy it, so every operation acts
  on the whole reactor state \<open>reactor\<close> and names its connection by the map's key.
\<close>

section \<open>State\<close>

datatype tcp_state = CONNECTED | DISCONNECT

record connection =
  sockfd :: fd
  chan :: channel
  recv_buffer :: array_buffer
  send_buffer :: array_buffer
  addr :: inet_addr
  state :: tcp_state
  conn_ctx :: ctx

text \<open>
  The state of a reactor: the center, the demultiplexers by number, the server's connections
  and counter, and two records of what leaves it: the contexts handed to other subscribers
  (by their addresses) and the system calls issued, both oldest first.
\<close>

record reactor =
  r_center :: center
  r_dmps :: "nat \<Rightarrow> demux option"
  conn_map :: "fd \<rightharpoonup> connection"
  total_conn :: int
  outbox :: "(nat \<times> ctx) list"
  syslog :: "syscall list"

text \<open>
  The environment of a handler: whether the build defines \<open>Debug\<close> (the project's does), and
  the kernel's answers: the peer of a descriptor, the result of \<open>write\<close> on it, and the
  result of the other calls, which no caller looks at.
\<close>

record env =
  e_debug :: bool
  e_peer :: "fd \<Rightarrow> inet_addr"
  e_write :: "fd \<Rightarrow> int"
  e_ctl :: "syscall \<Rightarrow> int"

definition r_sys :: "env \<Rightarrow> reactor sys" where
  "r_sys e c r = (e_ctl e c, r\<lparr>syslog := syslog r @ [c]\<rparr>)"

definition upd_conn :: "fd \<Rightarrow> (connection \<Rightarrow> connection) \<Rightarrow> reactor \<Rightarrow> reactor" where
  "upd_conn k g r =
     (case conn_map r k of
        None \<Rightarrow> r
      | Some c \<Rightarrow> r\<lparr>conn_map := (conn_map r)(k \<mapsto> g c)\<rparr>)"

definition get_conn :: "fd \<Rightarrow> reactor \<Rightarrow> connection result" where
  "get_conn k r = (case conn_map r k of None \<Rightarrow> Inl UseAfterFree | Some c \<Rightarrow> Inr c)"

section \<open>Operations\<close>

definition make_connection :: "env \<Rightarrow> channel \<Rightarrow> ctx \<Rightarrow> connection result" where
  "make_connection e ch x =
     bindR (make_buffer PACKETSIZE) (\<lambda>b.
       Inr \<lparr>sockfd = chan_socket ch, chan = ch, recv_buffer = b, send_buffer = b,
            addr = e_peer e (chan_socket ch), state = CONNECTED, conn_ctx = x\<rparr>)"

definition alive :: "connection \<Rightarrow> bool" where
  "alive c \<longleftrightarrow> state c = CONNECTED"

definition getTcpInfo :: "connection \<Rightarrow> string" where
  "getTcpInfo c = toString (addr c)"

definition disconnect :: "reactor notifier \<Rightarrow> env \<Rightarrow> fd \<Rightarrow> reactor \<Rightarrow> reactor result" where
  "disconnect ntf e k r =
     bindR (get_conn k r) (\<lambda>c.
       leave ntf (r_sys e) (r_dmps r)
         (upd_conn k (\<lambda>c. c\<lparr>chan := (chan c)\<lparr>leave_flag := True\<rparr>\<rparr>)) (chan c)
         (upd_conn k (\<lambda>c. c\<lparr>state := DISCONNECT\<rparr>) r))"

text \<open>
  The destructor, on a connection already out of the map: close the descriptor, then the
  channel's destructor leaves the demultiplexer unless it already has.
\<close>

definition destroy_connection :: "reactor notifier \<Rightarrow> env \<Rightarrow> connection \<Rightarrow> reactor \<Rightarrow> reactor result"
  where "destroy_connection ntf e c r =
     (let r1 = snd (r_sys e (SysClose (sockfd c)) r) in
      destroy_channel ntf (r_sys e) (r_dmps r1) (chan c) r1)"

text \<open>
  \<open>read()\<close>: \<open>got\<close> is the kernel's answer and \<open>data\<close> the bytes it stored (\<open>got\<close> of
  them when it is not negative), at the buffer's \<open>peek()\<close>.
\<close>

definition tcp_read :: "reactor notifier \<Rightarrow> env \<Rightarrow> int \<Rightarrow> string \<Rightarrow> fd \<Rightarrow> reactor \<Rightarrow> reactor result"
  where "tcp_read ntf e got data k r =
     bindR (get_conn k r) (\<lambda>c.
     bindR (peek (recv_buffer c)) (\<lambda>p.
       if state c = DISCONNECT then Inr r
       else bindR (as_register (conn_ctx c)) (\<lambda>(_, ev, _).
         if \<not> has READABLE ev then Inr r
         else if got < 0 then disconnect ntf e k r
         else bindR (write_mem (storage (recv_buffer c)) (unat p) data) (\<lambda>st.
              bindR (hasWritten (word_of_int got) ((recv_buffer c)\<lparr>storage := st\<rparr>)) (\<lambda>b.
                Inr (upd_conn k (\<lambda>c. c\<lparr>recv_buffer := b\<rparr>) r))))))"

definition shutdownWrite :: "reactor notifier \<Rightarrow> env \<Rightarrow> fd \<Rightarrow> reactor \<Rightarrow> reactor result" where
  "shutdownWrite ntf e k r =
     bindR (get_conn k r) (\<lambda>c.
       disableWrite ntf (r_sys e) (r_dmps r) (chan c) (conn_ctx c)
         (snd (r_sys e (SysShutdown (sockfd c)) r)))"

text \<open>An \<open>ssize_t\<close>: 64 bits, two's complement.\<close>

definition ssize :: "int \<Rightarrow> int" where
  "ssize n = sint (word_of_int n :: u64)"

text \<open>
  \<open>send(buf, len)\<close>, \<open>buf\<close> being the block \<open>data\<close> of \<open>len\<close> bytes. The log entry of a
  write holds the bytes the kernel took.
\<close>

definition tcp_send :: "reactor notifier \<Rightarrow> env \<Rightarrow> string \<Rightarrow> fd \<Rightarrow> reactor \<Rightarrow> reactor result" where
  "tcp_send ntf e data k r =
     bindR (get_conn k r) (\<lambda>c.
       if state c = DISCONNECT then Inr r
       else bindR (as_register (conn_ctx c)) (\<lambda>(_, ev, _).
         let len = int (length data);
             direct = \<not> has WRITABLE ev \<and> readableBytes (send_buffer c) = 0;
             answer = e_write e (sockfd c);
             wrote = (if direct \<and> 0 \<le> answer then answer else 0);
             remain = (if direct \<and> 0 \<le> answer then ssize (len - answer) else ssize len);
             r1 = (if direct
                   then snd (r_sys e (SysWrite (sockfd c) (take (nat wrote) data)) r) else r)
         in if 0 < remain
            then bindR (buf_append (Some (drop (nat wrote) data)) (word_of_int remain)
                          (send_buffer c)) (\<lambda>b.
              let r2 = upd_conn k (\<lambda>c. c\<lparr>send_buffer := b\<rparr>) r1
              in if has WRITABLE ev then Inr r2
                 else enableWrite ntf (r_sys e) (r_dmps r2) (chan c)
                        (make_DmpModifyContext (pub_code DMPMODIFY)) r2)
            else Inr r1))"

definition sendInLoop :: "reactor notifier \<Rightarrow> env \<Rightarrow> fd \<Rightarrow> reactor \<Rightarrow> reactor result" where
  "sendInLoop ntf e k r =
     bindR (get_conn k r) (\<lambda>c.
       if readableBytes (send_buffer c) = 0 then Inr r
       else bindR (as_register (conn_ctx c)) (\<lambda>(_, ev, _).
         if has READABLE ev
         then bindR (peek (send_buffer c)) (\<lambda>p.
              bindR (read_mem (storage (send_buffer c)) (unat p)
                       (unat (readableBytes (send_buffer c)))) (\<lambda>bs.
              let wrote = e_write e (sockfd c);
                  r1 = snd (r_sys e (SysWrite (sockfd c) (take (nat wrote) bs)) r)
              in if 0 < wrote
                 then bindR (retrieve (word_of_int wrote) (send_buffer c)) (\<lambda>b.
                   let r2 = upd_conn k (\<lambda>c. c\<lparr>send_buffer := b\<rparr>) r1
                   in if readableBytes b = 0
                      then disableWrite ntf (r_sys e) (r_dmps r2) (chan c) (conn_ctx c) r2
                      else Inr r2)
                 else Inr r1))
         else Inr r))"

end
