(* ===== verification/Server.thy ===== *)
theory Server
  imports Connection
begin

text \<open>
  \<open>TcpServer\<close> (\<open>src/src/network/tcp_server.hpp\<close>, \<open>tcp_server.cc\<close>): the subscriber that
  keeps the client connections. Its handlers run inside the notifications its demultiplexers
  send, and they notify again (closing a connection removes its descriptor, which notifies
  the removal), so the notifier is tied to the handlers by a bound on the nesting depth;
  three levels are shown to be enough.
\<close>

section \<open>The server and its subscriptions\<close>

record server =
  srv_addr :: nat
  srv_sub_id :: u16
  srv_pub_id :: u16

text \<open>
  Constructor and destructor subscribe and unsubscribe the same events: those of the
  acceptor \<open>acc\<close> and of each demultiplexer of the loop group (publisher identifiers
  \<open>dmps\<close>).
\<close>

definition server_events :: "u16 \<Rightarrow> u16 list \<Rightarrow> (u16 \<times> pub_type) list" where
  "server_events acc dmps =
     (acc, ACCEPTED) # concat (map (\<lambda>p.
        [(p, DMPREGISTER), (p, DMPMODIFY), (p, DMPDELETE), (p, DMPWAIT)]) dmps)"

definition make_server :: "nat \<Rightarrow> u16 \<Rightarrow> u16 list \<Rightarrow> ids \<Rightarrow> center \<Rightarrow> (server \<times> ids \<times> center) result"
  where "make_server self acc dmps i c =
     (let (sid, i1) = sub_id Tcp_server_cc i; (pid, i2) = pub_id Tcp_server_cc i1 in
      bindR (wire subscribe (server_events acc dmps) self c) (\<lambda>c'.
        Inr (\<lparr>srv_addr = self, srv_sub_id = sid, srv_pub_id = pid\<rparr>, i2, c')))"

definition destroy_server :: "server \<Rightarrow> u16 \<Rightarrow> u16 list \<Rightarrow> center \<Rightarrow> center result" where
  "destroy_server sv acc dmps c = wire unSubscribe (server_events acc dmps) (srv_addr sv) c"

section \<open>The server as publisher and as subscriber\<close>

definition server_pubID :: "server \<Rightarrow> u16" where
  "server_pubID sv = srv_pub_id sv"

definition server_subID :: "server \<Rightarrow> u16" where
  "server_subID sv = srv_sub_id sv"

text \<open>\<open>notify\<close> publishes \<open>BALANCE\<close> whatever event it is given.\<close>

definition server_notify :: "'s notifier \<Rightarrow> server \<Rightarrow> pub_type \<Rightarrow> ctx \<Rightarrow> 's \<Rightarrow> (ctx \<times> 's) result" where
  [simp]: "server_notify ntf sv type x s = ntf (srv_pub_id sv) BALANCE x s"

definition server_subscribe :: "server \<Rightarrow> u16 \<Rightarrow> pub_type \<Rightarrow> center \<Rightarrow> center result" where
  "server_subscribe sv pubID type c = subscribe pubID type (Some (srv_addr sv)) c"

interpretation demux_server: link demux_pubID "\<lambda>t. t" notify_on demux_notify srv_addr server_subscribe
  by unfold_locales (simp add: server_subscribe_def subscribe_meets_law)

interpretation server_pub: publisher server_pubID "\<lambda>_. BALANCE" "\<lambda>_. True" server_notify
  by unfold_locales (simp add: server_pubID_def)

section \<open>Handlers\<close>

definition updateForAccept :: "ctx \<Rightarrow> reactor \<Rightarrow> (ctx \<times> reactor) result" where
  "updateForAccept x r = Inr (x, r)"

text \<open>
  \<open>updateForRegister\<close>. When the map already has the descriptor, \<open>emplace\<close> destroys the new
  connection while \<open>mx_\<close> is held; its channel's destructor notifies the removal, whose
  handler locks \<open>mx_\<close> again.
\<close>

definition updateForRegister :: "env \<Rightarrow> ctx \<Rightarrow> reactor \<Rightarrow> (ctx \<times> reactor) result" where
  "updateForRegister e x r =
     bindR (as_register x) (\<lambda>(f, ev, d).
       let x' = DmpRegisterContext (event_type x) f ev None in
       bindR (make_connection e (make_channel f d) x') (\<lambda>c.
         if conn_map r f \<noteq> None then Inl SelfDeadlock
         else Inr (x', r\<lparr>conn_map := emplace (conn_map r) f c,
                r_center := account (toString (e_peer e f)) 0 (r_center r),
                total_conn := (if e_debug e then total_conn r + 1 else total_conn r)\<rparr>)))"

definition updateForModify :: "ctx \<Rightarrow> reactor \<Rightarrow> (ctx \<times> reactor) result" where
  "updateForModify x r =
     bindR (as_modify x) (\<lambda>(f, ev).
       case conn_map r f of
         None \<Rightarrow> Inr (x, r)
       | Some c \<Rightarrow> bindR (as_register (conn_ctx c)) (\<lambda>(cf, _, d).
           if f \<noteq> cf then Inr (x, r)
           else Inr (x, upd_conn f (\<lambda>c. c\<lparr>conn_ctx :=
                  DmpRegisterContext (event_type (conn_ctx c)) cf ev d\<rparr>) r)))"

definition removeConnection :: "reactor notifier \<Rightarrow> env \<Rightarrow> fd \<Rightarrow> reactor \<Rightarrow> reactor result" where
  "removeConnection ntf e f r =
     (case conn_map r f of
        None \<Rightarrow> Inr r
      | Some c \<Rightarrow> destroy_connection ntf e c
          (r\<lparr>total_conn := total_conn r - 1, conn_map := erase (conn_map r) f\<rparr>))"

definition updateForDelete :: "reactor notifier \<Rightarrow> env \<Rightarrow> ctx \<Rightarrow> reactor \<Rightarrow> (ctx \<times> reactor) result" where
  "updateForDelete ntf e x r =
     bindR (as_delete x) (\<lambda>f. bindR (removeConnection ntf e f r) (\<lambda>r'. Inr (x, r')))"

text \<open>The loop of \<open>updateForWait\<close>: the descriptors to balance so far, and the state.\<close>

fun wait_loop :: "reactor notifier \<Rightarrow> env \<Rightarrow> resp list \<Rightarrow> fd list \<Rightarrow> reactor \<Rightarrow> (fd list \<times> reactor) result"
  where
  "wait_loop ntf e [] socks r = Inr (socks, r)"
| "wait_loop ntf e (q # qs) socks r =
     (if conn_map r (resp_fd q) = None then wait_loop ntf e qs socks r
      else if has READABLE (resp_events q) \<and> \<not> has CLOSABLE (resp_events q)
      then wait_loop ntf e qs (socks @ [resp_fd q]) r
      else if has WRITABLE (resp_events q)
      then bindR (sendInLoop ntf e (resp_fd q) r) (wait_loop ntf e qs socks)
      else if has CLOSABLE (resp_events q)
      then bindR (disconnect ntf e (resp_fd q) r) (\<lambda>r1.
           bindR (removeConnection ntf e (resp_fd q) r1) (wait_loop ntf e qs socks))
      else wait_loop ntf e qs socks r)"

definition updateForWait ::
  "reactor notifier \<Rightarrow> env \<Rightarrow> server \<Rightarrow> ctx \<Rightarrow> reactor \<Rightarrow> (ctx \<times> reactor) result" where
  "updateForWait ntf e sv x r =
     bindR (as_wait x) (\<lambda>qs.
     bindR (wait_loop ntf e qs [] r) (\<lambda>(socks, r1).
     bindR (server_notify ntf sv BALANCE (LoadBalanceCtx (pub_code BALANCE) socks) r1)
       (\<lambda>(_, r2). Inr (x, r2))))"

definition server_update ::
  "reactor notifier \<Rightarrow> env \<Rightarrow> server \<Rightarrow> ctx \<Rightarrow> reactor \<Rightarrow> (ctx \<times> reactor) result" where
  "server_update ntf e sv x r =
     (if event_type x = pub_code ACCEPTED then updateForAccept x r
      else if event_type x = pub_code DMPREGISTER then updateForRegister e x r
      else if event_type x = pub_code DMPMODIFY then updateForModify x r
      else if event_type x = pub_code DMPDELETE then updateForDelete ntf e x r
      else if event_type x = pub_code DMPWAIT then updateForWait ntf e sv x r
      else Inr (x, r))"

section \<open>Tying the knot\<close>

text \<open>
  \<open>center_->notifySubscriber\<close> as the server's part of the program sees it: the server's own
  \<open>update\<close> runs, any other subscriber is handed the context.
\<close>

fun server_ntf :: "nat \<Rightarrow> env \<Rightarrow> server \<Rightarrow> reactor notifier" where
  "server_ntf 0 e sv p t x r = Inl StackExhausted"
| "server_ntf (Suc n) e sv p t x r =
     (let (ts, c') = notify_targets p t (r_center r) in
      dispatch (\<lambda>a x r. if a = srv_addr sv then server_update (server_ntf n e sv) e sv x r
                         else Inr (x, r\<lparr>outbox := outbox r @ [(a, x)]\<rparr>))
        ts x (r\<lparr>r_center := c'\<rparr>))"

declare server_ntf.simps [simp del]

text \<open>
  The entries into the server's part: a descriptor registered with demultiplexer \<open>n\<close>, the
  events one of its waits delivers, and a send on a connection.
\<close>

definition depth :: nat where "depth = Suc (Suc (Suc 0))"

definition server_accept :: "env \<Rightarrow> server \<Rightarrow> nat \<Rightarrow> demux \<Rightarrow> fd \<Rightarrow> reactor \<Rightarrow> reactor result" where
  "server_accept e sv n d f r =
     bindR (demultiplexRegister (server_ntf depth e sv) (r_sys e) n d f False r) (\<lambda>(_, r'). Inr r')"

definition server_wait :: "env \<Rightarrow> server \<Rightarrow> demux \<Rightarrow> resp list \<Rightarrow> reactor \<Rightarrow> reactor result" where
  "server_wait e sv d eps r =
     bindR (demultiplexWait (server_ntf depth e sv) d (make_DmpWaitContext (pub_code DMPWAIT))
              True eps r) (\<lambda>(_, r'). Inr r')"

definition server_send :: "env \<Rightarrow> server \<Rightarrow> string \<Rightarrow> fd \<Rightarrow> reactor \<Rightarrow> reactor result" where
  "server_send e sv data f r = tcp_send (server_ntf depth e sv) e data f r"

section \<open>The switch of \<open>update\<close>\<close>

lemma server_update_wait:
  "event_type x = pub_code DMPWAIT \<Longrightarrow> server_update ntf e sv x r = updateForWait ntf e sv x r"
  by (simp add: server_update_def)

lemma server_update_register:
  "event_type x = pub_code DMPREGISTER \<Longrightarrow> server_update ntf e sv x r = updateForRegister e x r"
  by (simp add: server_update_def)

lemma server_update_modify:
  "event_type x = pub_code DMPMODIFY \<Longrightarrow> server_update ntf e sv x r = updateForModify x r"
  by (simp add: server_update_def)

lemma server_update_delete:
  "event_type x = pub_code DMPDELETE \<Longrightarrow> server_update ntf e sv x r = updateForDelete ntf e x r"
  by (simp add: server_update_def)

lemma server_update_other:
  "event_type x \<in> {pub_code FORWARD, pub_code BALANCE} \<Longrightarrow> server_update ntf e sv x r = Inr (x, r)"
  by (auto simp: server_update_def)

lemmas server_update_simps = server_update_wait server_update_register server_update_modify
  server_update_delete server_update_other

section \<open>Well-formed reactors\<close>

text \<open>A demultiplexer of the server: it notifies, and the server alone hears its events.\<close>

fun served :: "pub_type \<Rightarrow> bool" where
  "served ACCEPTED = False"
| "served FORWARD = False"
| "served BALANCE = False"
| "served _ = True"

definition wired :: "server \<Rightarrow> reactor \<Rightarrow> demux \<Rightarrow> bool" where
  "wired sv r d \<longleftrightarrow> notify_on d \<and> registered (r_center r) (dmp_id d) \<and>
     (\<forall>t. served t \<longrightarrow>
        sub_entry (subcribers (r_center r)) (dmp_id d) t = [srv_addr sv])"

text \<open>
  A connection between two handlers: its parts agree on the descriptor, it has not left its
  demultiplexer, and its events are the default ones while its send buffer is empty,
  \<open>WRITABLE\<close> alone while bytes wait in it.
\<close>

definition conn_ok :: "reactor \<Rightarrow> fd \<Rightarrow> connection \<Rightarrow> bool" where
  "conn_ok r k c \<longleftrightarrow>
     sockfd c = k \<and> chan_socket (chan c) = k \<and> \<not> leave_flag (chan c) \<and> state c = CONNECTED \<and>
     (\<exists>n d. chan_dmp (chan c) = Some n \<and> r_dmps r n = Some d) \<and>
     buf_ok (recv_buffer c) \<and> buf_ok (send_buffer c) \<and>
     (\<exists>t. conn_ctx c = DmpRegisterContext t k
        (if content (send_buffer c) = [] then DefaultEvents else WRITABLE) None)"

definition reactor_ok :: "server \<Rightarrow> reactor \<Rightarrow> bool" where
  "reactor_ok sv r \<longleftrightarrow>
     (\<forall>n d. r_dmps r n = Some d \<longrightarrow> wired sv r d) \<and>
     (\<forall>k c. conn_map r k = Some c \<longrightarrow> conn_ok r k c) \<and>
     finite (dom (conn_map r)) \<and> total_conn r = int (card (dom (conn_map r)))"

lemma set_sub_entry_same:
  "sub_entry m p t = xs \<Longrightarrow> xs \<noteq> [] \<Longrightarrow> set_sub_entry m p t xs = m"
  by (auto simp: sub_entry_def set_sub_entry_def fun_upd_idem split: option.splits)

lemma notify_targets_same:
  "registered c p \<Longrightarrow> sub_entry (subcribers c) p t = xs \<Longrightarrow> xs \<noteq> [] \<Longrightarrow>
   notify_targets p t c = (xs, c)"
  by (simp add: notify_targets_def registered_def set_sub_entry_same Let_def)

lemma server_ntf_wired:
  "wired sv r d \<Longrightarrow> served t \<Longrightarrow>
   server_ntf (Suc n) e sv (dmp_id d) t x r = server_update (server_ntf n e sv) e sv x r"
  by (simp add: server_ntf.simps wired_def notify_targets_same del: dispatch.simps)

lemma notify_if_wired:
  "wired sv r d \<Longrightarrow> served t \<Longrightarrow>
   notify_if (server_ntf (Suc n) e sv) d flag t x r = server_update (server_ntf n e sv) e sv x r"
  using server_ntf_wired [of sv r d t n e x] by (simp add: notify_if_def wired_def)

lemma wired_cong:
  "r_center r' = r_center r \<Longrightarrow> wired sv r' d = wired sv r d"
  by (simp add: wired_def)

lemma reactor_okD:
  "reactor_ok sv r \<Longrightarrow> r_dmps r n = Some d \<Longrightarrow> wired sv r d"
  "reactor_ok sv r \<Longrightarrow> conn_map r k = Some c \<Longrightarrow> conn_ok r k c"
  by (auto simp: reactor_ok_def)

lemma conn_ok_dmp:
  assumes "conn_ok r k c"
  obtains d where "deref_dmp (r_dmps r) (chan c) = Inr d" "\<exists>n. r_dmps r n = Some d"
proof -
  from assms obtain n d where "chan_dmp (chan c) = Some n" "r_dmps r n = Some d"
    by (auto simp: conn_ok_def)
  then show thesis by (intro that [of d]) (auto simp: deref_dmp_def)
qed

lemma conn_ok_ctx:
  assumes "conn_ok r k c"
  obtains t where "conn_ctx c = DmpRegisterContext t k
    (if content (send_buffer c) = [] then DefaultEvents else WRITABLE) None"
  using assms by (auto simp: conn_ok_def)

section \<open>Closing a connection\<close>

text \<open>
  What closing a connection leaves: the connection gone, the descriptor closed, then deleted
  from the epoll instance.
\<close>

definition closed :: "fd \<Rightarrow> demux \<Rightarrow> reactor \<Rightarrow> reactor" where
  "closed k d r = r\<lparr>total_conn := total_conn r - 1, conn_map := erase (conn_map r) k,
     syslog := syslog r @ [SysClose k, EpollCtl (dmpfd d) CtlDel k 0]\<rparr>"

lemma disconnect_closed:
  assumes "reactor_ok sv r" "conn_map r k = Some c" "deref_dmp (r_dmps r) (chan c) = Inr d"
    "\<exists>n. r_dmps r n = Some d"
  shows "disconnect (server_ntf (Suc (Suc n)) e sv) e k r = Inr (closed k d r)"
proof -
  have c: "conn_ok r k c" and w: "wired sv r d"
    using assms by (auto simp: reactor_ok_def)
  let ?c = "c\<lparr>state := DISCONNECT, chan := (chan c)\<lparr>leave_flag := True\<rparr>\<rparr>"
  let ?r = "r\<lparr>conn_map := (conn_map r)(k \<mapsto> ?c)\<rparr>"
  have mark: "upd_conn k (\<lambda>c. c\<lparr>chan := (chan c)\<lparr>leave_flag := True\<rparr>\<rparr>)
      (upd_conn k (\<lambda>c. c\<lparr>state := DISCONNECT\<rparr>) r) = ?r"
    using assms(2) by (simp add: upd_conn_def)
  have "wired sv ?r d" using w by (simp add: wired_def)
  from notify_if_wired [OF this, of DMPDELETE "Suc n" e False]
  show ?thesis
    using assms(2,3) c
    by (simp add: disconnect_def get_conn_def leave_def mark demultiplexRemove_def
        server_update_delete updateForDelete_def removeConnection_def destroy_connection_def
        r_sys_def closed_def conn_ok_def erase_def)
qed

lemma closed_ok:
  assumes "reactor_ok sv r" "conn_map r k = Some c"
  shows "reactor_ok sv (closed k d r)"
proof -
  have "card (dom (conn_map r)) > 0"
    using assms by (auto simp: reactor_ok_def card_gt_0_iff)
  moreover have "k \<in> dom (conn_map r)" using assms(2) by auto
  ultimately show ?thesis
    using assms by (auto simp: reactor_ok_def closed_def wired_def conn_ok_def erase_def
        card_Diff_singleton split: if_splits)
qed

lemma removeConnection_none [simp]:
  "conn_map r k = None \<Longrightarrow> removeConnection ntf e k r = Inr r"
  by (simp add: removeConnection_def)

text \<open>In a well-formed reactor \<open>sendInLoop\<close> does nothing.\<close>

lemma sendInLoop_idle:
  assumes "reactor_ok sv r" "conn_map r k = Some c"
  shows "sendInLoop ntf e k r = Inr r"
proof -
  have ok: "conn_ok r k c" using assms by (simp add: reactor_ok_def)
  from conn_ok_ctx [OF ok] obtain t where c: "conn_ctx c = DmpRegisterContext t k
      (if content (send_buffer c) = [] then DefaultEvents else WRITABLE) None" .
  moreover have "buf_ok (send_buffer c)" using ok by (simp add: conn_ok_def)
  ultimately have "readableBytes (send_buffer c) = 0 \<longleftrightarrow> content (send_buffer c) = []"
    by (metis length_0_conv unat_readable unat_eq_zero)
  with assms(2) c show ?thesis
    by (auto simp: sendInLoop_def get_conn_def)
qed

section \<open>Handling a wait\<close>

definition ready :: "resp \<Rightarrow> bool" where
  "ready q \<longleftrightarrow> has READABLE (resp_events q) \<and> \<not> has CLOSABLE (resp_events q)"

definition closing :: "resp \<Rightarrow> bool" where
  "closing q \<longleftrightarrow> has CLOSABLE (resp_events q) \<and> \<not> has WRITABLE (resp_events q)"

definition gone :: "resp list \<Rightarrow> fd set" where
  "gone qs = resp_fd ` {q \<in> set qs. closing q}"

lemma gone_Cons [simp]:
  "gone [] = {}" "gone (q # qs) = (if closing q then insert (resp_fd q) (gone qs) else gone qs)"
  by (auto simp: gone_def)

lemma gone_subset: "gone qs \<subseteq> set (map resp_fd qs)"
  by (auto simp: gone_def)

text \<open>The calls that close descriptors, each with the epoll instance it is deleted from.\<close>

definition closing_calls :: "(fd \<times> int) list \<Rightarrow> syscall list" where
  "closing_calls ks = concat (map (\<lambda>k. [SysClose (fst k), EpollCtl (snd k) CtlDel (fst k) 0]) ks)"

lemma closing_calls_simps [simp]:
  "closing_calls [] = []"
  "closing_calls (k # ks) = SysClose (fst k) # EpollCtl (snd k) CtlDel (fst k) 0 # closing_calls ks"
  by (simp_all add: closing_calls_def)

text \<open>The parts of a reactor the closing of connections leaves alone.\<close>

definition same_wiring :: "reactor \<Rightarrow> reactor \<Rightarrow> bool" where
  "same_wiring r r' \<longleftrightarrow>
     r_center r' = r_center r \<and> r_dmps r' = r_dmps r \<and> outbox r' = outbox r"

lemma same_wiring_closed [simp]: "same_wiring r (closed k d r)"
  by (simp add: same_wiring_def closed_def)

lemma same_wiring_trans: "same_wiring r s \<Longrightarrow> same_wiring s t \<Longrightarrow> same_wiring r t"
  by (simp add: same_wiring_def)

lemma wait_loop_ok:
  assumes "reactor_ok sv r" "distinct (map resp_fd qs)"
  shows "\<exists>r'. wait_loop (server_ntf (Suc (Suc n)) e sv) e qs socks r =
      Inr (socks @ map resp_fd (filter (\<lambda>q. ready q \<and> resp_fd q \<in> dom (conn_map r)) qs), r') \<and>
    reactor_ok sv r' \<and> conn_map r' = conn_map r |` (- gone qs) \<and> same_wiring r r' \<and>
    (\<exists>ks. map fst ks = map resp_fd (filter (\<lambda>q. closing q \<and> resp_fd q \<in> dom (conn_map r)) qs) \<and>
      syslog r' = syslog r @ closing_calls ks)"
  using assms
proof (induction qs arbitrary: socks r)
  case Nil
  then show ?case by (simp add: same_wiring_def)
next
  case (Cons q qs)
  let ?ntf = "server_ntf (Suc (Suc n)) e sv" and ?f = "resp_fd q"
  have fresh: "?f \<notin> gone qs" and d: "distinct (map resp_fd qs)"
    using Cons.prems(2) gone_subset [of qs] by auto
  note IH = Cons.IH [OF _ d]
  show ?case
  proof (cases "conn_map r ?f")
    case None
    then have "conn_map r |` (- insert ?f (gone qs)) = conn_map r |` (- gone qs)"
      by (auto simp: restrict_map_def fun_eq_iff)
    with None IH [OF Cons.prems(1), of socks] show ?thesis by (auto simp: domIff)
  next
    case (Some c)
    consider "ready q" | "\<not> ready q" "has WRITABLE (resp_events q)" | "closing q"
      | "\<not> ready q" "\<not> has WRITABLE (resp_events q)" "\<not> closing q"
      by (auto simp: closing_def)
    then show ?thesis
    proof cases
      case 1
      then have "\<not> closing q" by (simp add: ready_def closing_def)
      with 1 Some IH [OF Cons.prems(1), of "socks @ [?f]"] show ?thesis
        by (auto simp: ready_def domIff)
    next
      case 2
      then have "\<not> closing q" by (simp add: closing_def)
      with 2 Some IH [OF Cons.prems(1), of socks] sendInLoop_idle [OF Cons.prems(1) Some]
      show ?thesis by (auto simp: ready_def)
    next
      case 3
      then have "\<not> ready q" by (simp add: ready_def closing_def)
      have "?f \<in> dom (conn_map r)" using Some by auto
      obtain dm where dm: "deref_dmp (r_dmps r) (chan c) = Inr dm" "\<exists>n. r_dmps r n = Some dm"
        by (rule conn_ok_dmp [OF reactor_okD(2) [OF Cons.prems(1) Some]])
      note dis = disconnect_closed [OF Cons.prems(1) Some dm, of n e]
      have gone: "conn_map (closed ?f dm r) ?f = None" by (simp add: closed_def)
      have keep: "resp_fd p \<in> dom (conn_map (closed ?f dm r)) \<longleftrightarrow> resp_fd p \<in> dom (conn_map r)"
        if "p \<in> set qs" for p
      proof -
        have "resp_fd p \<in> set (map resp_fd qs)" using that by simp
        then have "resp_fd p \<noteq> ?f" using Cons.prems(2) by auto
        then show ?thesis by (simp add: closed_def)
      qed
      have "filter (\<lambda>p. P p \<and> resp_fd p \<in> dom (conn_map (closed ?f dm r))) qs =
          filter (\<lambda>p. P p \<and> resp_fd p \<in> dom (conn_map r)) qs" for P
        by (rule filter_cong) (simp_all only: keep)
      moreover have "conn_map (closed ?f dm r) |` (- gone qs) =
          conn_map r |` (- insert ?f (gone qs))"
        by (auto simp: closed_def erase_def restrict_map_def fun_eq_iff)
      ultimately obtain r' ks where r': "wait_loop ?ntf e qs socks (closed ?f dm r) =
          Inr (socks @ map resp_fd (filter (\<lambda>p. ready p \<and> resp_fd p \<in> dom (conn_map r)) qs), r')"
        "reactor_ok sv r'" "conn_map r' = conn_map r |` (- insert ?f (gone qs))"
        "same_wiring (closed ?f dm r) r'"
        "map fst ks = map resp_fd (filter (\<lambda>p. closing p \<and> resp_fd p \<in> dom (conn_map r)) qs)"
        "syslog r' = syslog (closed ?f dm r) @ closing_calls ks"
        using IH [OF closed_ok [OF Cons.prems(1) Some, of dm], of socks] by auto
      have "wait_loop ?ntf e (q # qs) socks r = wait_loop ?ntf e qs socks (closed ?f dm r)"
        using 3 Some by (simp add: closing_def dis gone)
      with r' 3 \<open>?f \<in> dom (conn_map r)\<close> \<open>\<not> ready q\<close> same_wiring_trans [OF same_wiring_closed r'(4)]
      show ?thesis by (intro exI [of _ r'] conjI exI [of _ "(?f, dmpfd dm) # ks"])
        (simp_all add: closed_def)
    next
      case 4
      with Some IH [OF Cons.prems(1), of socks] show ?thesis
        by (auto simp: ready_def closing_def)
    qed
  qed
qed

section \<open>Handing requests to the balancer\<close>

text \<open>The subscribers other than the server that a notification reaches.\<close>

definition others :: "server \<Rightarrow> center \<Rightarrow> u16 \<Rightarrow> pub_type \<Rightarrow> nat list" where
  "others sv c p t = filter (\<lambda>a. a \<noteq> srv_addr sv) (fst (notify_targets p t c))"

lemma dispatch_others:
  "(\<And>r. server_update ntf e sv x r = Inr (x, r)) \<Longrightarrow>
   dispatch (\<lambda>a x r. if a = srv_addr sv then server_update ntf e sv x r
                      else Inr (x, r\<lparr>outbox := outbox r @ [(a, x)]\<rparr>)) ts x r =
   Inr (x, r\<lparr>outbox := outbox r @ map (\<lambda>a. (a, x)) (filter (\<lambda>a. a \<noteq> srv_addr sv) ts)\<rparr>)"
  by (induction ts arbitrary: r) auto

lemma server_ntf_balance:
  "server_ntf (Suc n) e sv p BALANCE (LoadBalanceCtx (pub_code BALANCE) socks) r =
     Inr (LoadBalanceCtx (pub_code BALANCE) socks,
       r\<lparr>r_center := snd (notify_targets p BALANCE (r_center r)),
         outbox := outbox r @ map (\<lambda>a. (a, LoadBalanceCtx (pub_code BALANCE) socks))
                                  (others sv (r_center r) p BALANCE)\<rparr>)"
  by (simp add: server_ntf.simps dispatch_others server_update_other others_def case_prod_beta)

lemma notify_targets_frame [simp]:
  "publishers (snd (notify_targets p t c)) = publishers c"
  "sub_entry (subcribers (snd (notify_targets p t c))) q u = sub_entry (subcribers c) q u"
  "traffic_map (snd (notify_targets p t c)) = traffic_map c"
  by (auto simp: notify_targets_def Let_def)

lemma reactor_ok_center:
  "reactor_ok sv r \<Longrightarrow> publishers c' = publishers (r_center r) \<Longrightarrow>
   (\<And>p t. sub_entry (subcribers c') p t = sub_entry (subcribers (r_center r)) p t) \<Longrightarrow>
   reactor_ok sv (r\<lparr>r_center := c', outbox := ob\<rparr>)"
  by (simp add: reactor_ok_def wired_def conn_ok_def registered_def)

lemma server_wait_ok:
  assumes "reactor_ok sv r" "r_dmps r m = Some d" "eps \<noteq> []" "distinct (map resp_fd eps)"
  defines "socks \<equiv> map resp_fd (filter (\<lambda>q. ready q \<and> resp_fd q \<in> dom (conn_map r)) eps)"
  shows "\<exists>r'. server_wait e sv d eps r = Inr r' \<and> reactor_ok sv r' \<and>
    conn_map r' = conn_map r |` (- gone eps) \<and> r_dmps r' = r_dmps r \<and>
    (\<exists>ks. map fst ks = map resp_fd (filter (\<lambda>q. closing q \<and> resp_fd q \<in> dom (conn_map r)) eps) \<and>
      syslog r' = syslog r @ closing_calls ks) \<and>
    outbox r' = outbox r @ map (\<lambda>a. (a, LoadBalanceCtx (pub_code BALANCE) socks))
                  (others sv (r_center r) (srv_pub_id sv) BALANCE) \<and>
    publishers (r_center r') = publishers (r_center r) \<and>
    traffic_map (r_center r') = traffic_map (r_center r) \<and>
    (\<forall>p t. sub_entry (subcribers (r_center r')) p t = sub_entry (subcribers (r_center r)) p t)"
proof -
  have w: "wired sv r d" using assms(1,2) by (rule reactor_okD)
  obtain r1 ks where r1: "wait_loop (server_ntf (Suc (Suc 0)) e sv) e eps [] r = Inr (socks, r1)"
      "reactor_ok sv r1" "conn_map r1 = conn_map r |` (- gone eps)" "same_wiring r r1"
      "map fst ks = map resp_fd (filter (\<lambda>q. closing q \<and> resp_fd q \<in> dom (conn_map r)) eps)"
      "syslog r1 = syslog r @ closing_calls ks"
    using wait_loop_ok [OF assms(1,4), of 0 e "[]"] by (auto simp: socks_def)
  let ?x = "LoadBalanceCtx (pub_code BALANCE) socks"
  let ?r2 = "r1\<lparr>r_center := snd (notify_targets (srv_pub_id sv) BALANCE (r_center r1)),
      outbox := outbox r1 @ map (\<lambda>a. (a, ?x)) (others sv (r_center r1) (srv_pub_id sv) BALANCE)\<rparr>"
  have "server_wait e sv d eps r = Inr ?r2"
    using assms(3) r1(1) notify_if_wired [OF w, of DMPWAIT "Suc (Suc 0)" e True]
    by (simp add: server_wait_def demultiplexWait_def make_DmpWaitContext_def depth_def
        server_update_wait updateForWait_def server_ntf_balance del: pub_code.simps)
  moreover have "reactor_ok sv ?r2"
    using r1(2) by (rule reactor_ok_center) simp_all
  ultimately show ?thesis
    using r1(3-6) by (intro exI [of _ ?r2] conjI exI [of _ ks]) (simp_all add: same_wiring_def)
qed

end
