(* ===== verification/Event_System.thy ===== *)
theory Event_System
  imports Prelude
begin

text \<open>
  Programs that react to events: the events are handled one after the other, each by a function
  that may fail, and the environment keeps to a contract about the next event. The locale
  states what such a program is shown to be, that in a state of its invariant every event
  within the contract is handled and the invariant kept, and draws the consequences once: for
  the states it can reach and for whole sequences of events. The server with its connections,
  the server's program, the server with the balancer, and the whole network are instances.
\<close>

section \<open>Sequences of events and reachable states\<close>

fun play :: "('ev \<Rightarrow> 's \<Rightarrow> 's result) \<Rightarrow> 'ev list \<Rightarrow> 's \<Rightarrow> 's result" where
  "play act [] s = Inr s"
| "play act (ev # evs) s = bindR (act ev s) (play act evs)"

text \<open>Each event of the sequence is within the contract in the state it meets.\<close>

fun obeys :: "('ev \<Rightarrow> 's \<Rightarrow> 's result) \<Rightarrow> ('ev \<Rightarrow> 's \<Rightarrow> bool) \<Rightarrow> 'ev list \<Rightarrow> 's \<Rightarrow> bool" where
  "obeys act sane [] s \<longleftrightarrow> True"
| "obeys act sane (ev # evs) s \<longleftrightarrow>
     sane ev s \<and> (case act ev s of Inl _ \<Rightarrow> True | Inr s' \<Rightarrow> obeys act sane evs s')"

inductive reached :: "('ev \<Rightarrow> 's \<Rightarrow> 's result) \<Rightarrow> ('ev \<Rightarrow> 's \<Rightarrow> bool) \<Rightarrow> ('s \<Rightarrow> bool) \<Rightarrow> 's \<Rightarrow> bool"
  for act sane start where
  begins: "start s \<Longrightarrow> reached act sane start s"
| goes_on: "reached act sane start s \<Longrightarrow> sane ev s \<Longrightarrow> act ev s = Inr s' \<Longrightarrow> reached act sane start s'"

lemma play_append [simp]: "play act (evs @ evs') s = bindR (play act evs s) (play act evs')"
  by (induction evs arbitrary: s) (auto simp: bindR_def split: sum.splits)

lemma reached_play:
  "reached act sane start s \<Longrightarrow> obeys act sane evs s \<Longrightarrow> play act evs s = Inr s' \<Longrightarrow> reached act sane start s'"
proof (induction evs arbitrary: s)
  case (Cons ev evs)
  from Cons.prems(3) obtain s1 where s1: "act ev s = Inr s1" "play act evs s1 = Inr s'" by (auto simp: result_simps)
  with Cons.prems(1,2) have "reached act sane start s1" by (auto intro: goes_on)
  with Cons.IH [of s1] Cons.prems(2) s1 show ?case by simp
qed simp

section \<open>The contract\<close>

locale event_system =
  fixes act :: "'ev \<Rightarrow> 's \<Rightarrow> 's result" and sane :: "'ev \<Rightarrow> 's \<Rightarrow> bool" and inv :: "'s \<Rightarrow> bool"
  assumes progress: "inv s \<Longrightarrow> sane ev s \<Longrightarrow> \<exists>s'. act ev s = Inr s' \<and> inv s'"
begin

lemma act_inv: "inv s \<Longrightarrow> sane ev s \<Longrightarrow> act ev s = Inr s' \<Longrightarrow> inv s'"
  using progress by fastforce

lemma reached_inv: "reached act sane start s \<Longrightarrow> (\<And>s0. start s0 \<Longrightarrow> inv s0) \<Longrightarrow> inv s"
  by (induction rule: reached.induct) (auto intro: act_inv)

lemma play_ok: "inv s \<Longrightarrow> obeys act sane evs s \<Longrightarrow> \<exists>s'. play act evs s = Inr s' \<and> inv s'"
proof (induction evs arbitrary: s)
  case (Cons ev evs)
  from progress [OF Cons.prems(1)] Cons.prems(2) obtain s1 where "act ev s = Inr s1" "inv s1" by auto
  with Cons.IH [of s1] Cons.prems(2) show ?case by auto
qed simp

end

end
