(* ===== verification/Server_Run.thy ===== *)
theory Server_Run
  imports Server Event_System
begin

text \<open>
  The server at work: its three entries (a descriptor registered with one of its
  demultiplexers, a delivery of events, a send) as steps of a relation, the invariant every
  step keeps, and what follows for the connections, the counter, the system calls issued and
  the bytes accepted for sending.
\<close>

section \<open>One entry at a time\<close>

lemma make_buffer_ok:
  "n \<noteq> 0 \<Longrightarrow> unat n \<le> vec_max \<Longrightarrow>
   \<exists>b. make_buffer n = Inr b \<and> buf_ok b \<and> content b = [] \<and> writerIndex b = 0 \<and>
     storage b = replicate (unat n) (CHR 0x00)"
  by (auto simp: make_buffer_def vec_resize_def buf_ok_def content_def PREPEND_def unat_eq_0)

lemma make_buffer_packetsize:
  "\<exists>b. make_buffer PACKETSIZE = Inr b \<and> buf_ok b \<and> content b = [] \<and> writerIndex b = 0 \<and>
     length (storage b) = 40960"
proof -
  obtain b where "make_buffer PACKETSIZE = Inr b" "buf_ok b" "content b = []" "writerIndex b = 0"
      "storage b = replicate (unat PACKETSIZE) (CHR 0x00)"
    using make_buffer_ok [of PACKETSIZE] by (auto simp: PACKETSIZE_def vec_max_def)
  moreover have "unat PACKETSIZE = 40960" by (simp add: PACKETSIZE_def)
  ultimately show ?thesis by (intro exI [of _ b]) simp
qed

lemma make_connection_ok:
  "\<exists>c. make_connection e (make_channel f d) x = Inr c \<and> sockfd c = f \<and>
     chan c = make_channel f d \<and> buf_ok (recv_buffer c) \<and> content (recv_buffer c) = [] \<and>
     buf_ok (send_buffer c) \<and> content (send_buffer c) = [] \<and> writerIndex (send_buffer c) = 0 \<and>
     length (storage (send_buffer c)) = 40960 \<and> recv_buffer c = send_buffer c \<and>
     addr c = e_peer e f \<and>
     state c = CONNECTED \<and> conn_ctx c = x"
proof -
  obtain b where "make_buffer PACKETSIZE = Inr b" "buf_ok b" "content b = []" "writerIndex b = 0"
      "length (storage b) = 40960"
    using make_buffer_packetsize by auto
  then show ?thesis
    by (simp add: make_connection_def make_channel_def)
qed

lemma server_accept_ok:
  assumes "reactor_ok sv r" "r_dmps r n = Some d" "conn_map r f = None" "e_debug e"
  shows "\<exists>r' c. server_accept e sv n d f r = Inr r' \<and> reactor_ok sv r' \<and>
    conn_map r' = (conn_map r)(f \<mapsto> c) \<and> r_dmps r' = r_dmps r \<and> outbox r' = outbox r \<and>
    content (send_buffer c) = [] \<and> writerIndex (send_buffer c) = 0 \<and>
    length (storage (send_buffer c)) = 40960 \<and> recv_buffer c = send_buffer c \<and>
    chan c = make_channel f (Some n) \<and>
    publishers (r_center r') = publishers (r_center r) \<and>
    subcribers (r_center r') = subcribers (r_center r) \<and>
    addr c = e_peer e f \<and> r_center r' = account (toString (e_peer e f)) 0 (r_center r) \<and>
    syslog r' = syslog r @ [Fcntl f, EpollCtl (dmpfd d) CtlAdd f DefaultEvents]"
proof -
  have w: "wired sv r d" using assms(1,2) by (rule reactor_okD)
  let ?x = "DmpRegisterContext (pub_code DMPREGISTER) f DefaultEvents None"
  obtain c where c: "make_connection e (make_channel f (Some n)) ?x = Inr c" "sockfd c = f"
      "chan c = make_channel f (Some n)" "buf_ok (recv_buffer c)" "buf_ok (send_buffer c)"
      "content (send_buffer c) = []" "state c = CONNECTED" "conn_ctx c = ?x"
      "writerIndex (send_buffer c) = 0" "length (storage (send_buffer c)) = 40960"
      "recv_buffer c = send_buffer c" "addr c = e_peer e f"
    using make_connection_ok by metis
  let ?r' = "r\<lparr>conn_map := (conn_map r)(f \<mapsto> c),
      r_center := account (toString (e_peer e f)) 0 (r_center r), total_conn := total_conn r + 1,
      syslog := syslog r @ [Fcntl f, EpollCtl (dmpfd d) CtlAdd f DefaultEvents]\<rparr>"
  have "notify_on d" using w by (simp add: wired_def)
  moreover have "wired sv (r\<lparr>syslog := syslog r @ [Fcntl f]\<rparr>) d" using w by (simp add: wired_def)
  ultimately have "server_accept e sv n d f r = Inr ?r'"
    using assms(3,4) c(1) notify_if_wired [of sv "r\<lparr>syslog := syslog r @ [Fcntl f]\<rparr>" d DMPREGISTER
        "Suc (Suc 0)" e False]
    by (simp add: server_accept_def demultiplexRegister_def r_sys_def depth_def
        server_update_register updateForRegister_def del: pub_code.simps)
  moreover have "card (insert f (dom (conn_map r))) = card (dom (conn_map r)) + 1"
    using assms(1,3) by (simp add: reactor_ok_def domIff)
  then have "reactor_ok sv ?r'"
    using assms c by (auto simp: reactor_ok_def wired_def conn_ok_def registered_def make_channel_def)
  ultimately show ?thesis
    using c(3,6,9-12) by (intro exI [of _ ?r'] exI [of _ c]) simp
qed

text \<open>
  A send: \<open>accepts\<close> is the kernel's contract for \<open>write\<close> (at most what it was given),
  \<open>sent_by\<close> the bytes the kernel takes at once, none when bytes are waiting already.
\<close>

definition accepts :: "env \<Rightarrow> fd \<Rightarrow> string \<Rightarrow> bool" where
  "accepts e f data \<longleftrightarrow> -1 \<le> e_write e f \<and> e_write e f \<le> int (length data)"

definition sent_by :: "env \<Rightarrow> connection \<Rightarrow> string \<Rightarrow> string" where
  "sent_by e c data =
     (if content (send_buffer c) = [] then take (nat (e_write e (sockfd c))) data else [])"

lemma ssize_small [simp]: "0 \<le> n \<Longrightarrow> n \<le> int vec_max \<Longrightarrow> ssize n = n"
  by (simp add: ssize_def vec_max_def sint_sbintrunc' signed_take_bit_int_eq_self)

lemma enableWrite_ok:
  assumes "wired sv r d" "deref_dmp (r_dmps r) ch = Inr d" "conn_map r f = Some c"
    "chan_socket ch = f" "conn_ctx c = DmpRegisterContext t f ev p"
  shows "enableWrite (server_ntf (Suc n) e sv) (r_sys e) (r_dmps r) ch
      (make_DmpModifyContext (pub_code DMPMODIFY)) r =
    Inr (r\<lparr>conn_map := (conn_map r)(f \<mapsto> c\<lparr>conn_ctx := DmpRegisterContext t f WRITABLE p\<rparr>),
      syslog := syslog r @ [EpollCtl (dmpfd d) CtlMod f WRITABLE]\<rparr>)"
  using assms notify_if_wired [OF assms(1), of DMPMODIFY n e False]
  by (simp add: enableWrite_def change_events_def make_DmpModifyContext_def demultiplexModify_def
      server_update_modify updateForModify_def upd_conn_def r_sys_def del: pub_code.simps)

lemma reactor_ok_upd:
  assumes "reactor_ok sv r" "conn_map r f = Some c" "conn_ok r f c'"
  shows "reactor_ok sv (r\<lparr>conn_map := (conn_map r)(f \<mapsto> c'), syslog := l\<rparr>)"
proof -
  have "insert f (dom (conn_map r)) = dom (conn_map r)" using assms(2) by auto
  with assms show ?thesis
    by (auto simp: reactor_ok_def wired_def conn_ok_def)
qed

text \<open>
  What a send leaves: the connection with its new pending bytes, and the calls issued.
\<close>

definition send_post :: "env \<Rightarrow> fd \<Rightarrow> string \<Rightarrow> reactor \<Rightarrow> connection \<Rightarrow> reactor \<Rightarrow> connection \<Rightarrow> bool"
  where "send_post e f data r c r' c' \<longleftrightarrow>
     conn_map r' = (conn_map r)(f \<mapsto> c') \<and> r_dmps r' = r_dmps r \<and> outbox r' = outbox r \<and>
     r_center r' = r_center r \<and> addr c' = addr c \<and>
     content (send_buffer c') = content (send_buffer c) @ drop (length (sent_by e c data)) data \<and>
     (\<exists>m. syslog r' = syslog r @
        (if content (send_buffer c) = [] then [SysWrite f (sent_by e c data)] else []) @
        map (\<lambda>d. EpollCtl d CtlMod f WRITABLE) m)"

lemma server_send_waiting:
  assumes "reactor_ok sv r" "conn_map r f = Some c" "content (send_buffer c) \<noteq> []"
    "buf_room (send_buffer c) (length data)"
  shows "\<exists>r' c'. server_send e sv data f r = Inr r' \<and> reactor_ok sv r' \<and> send_post e f data r c r' c'"
proof -
  have ok: "conn_ok r f c" using assms(1,2) by (rule reactor_okD)
  then obtain t where x: "conn_ctx c = DmpRegisterContext t f WRITABLE None"
    using assms(3) by (auto elim: conn_ok_ctx)
  have b: "buf_ok (send_buffer c)" "state c = CONNECTED" using ok by (simp_all add: conn_ok_def)
  have len: "length data \<le> vec_max" using assms(4) by (simp add: buf_room_def)
  show ?thesis
  proof (cases "data = []")
    case True
    then show ?thesis
      using assms x b len ok
      by (intro exI [of _ r] exI [of _ c])
        (auto simp: server_send_def tcp_send_def get_conn_def send_post_def sent_by_def fun_upd_idem)
  next
    case False
    then have len_pos: "0 < int (length data)" by simp
    obtain b' where b': "buf_append (Some data) (word_of_nat (length data)) (send_buffer c) = Inr b'"
        "buf_ok b'" "content b' = content (send_buffer c) @ data"
      using buf_append_law [of "send_buffer c" "word_of_nat (length data)" 0 data] assms(4) b len
      by auto
    let ?c = "c\<lparr>send_buffer := b'\<rparr>"
    let ?r = "r\<lparr>conn_map := (conn_map r)(f \<mapsto> ?c), syslog := syslog r\<rparr>"
    have "server_send e sv data f r = Inr ?r"
      using assms(2,3) x b b'(1) len len_pos unat_readable [OF b(1)]
      by (auto simp: server_send_def tcp_send_def get_conn_def Let_def upd_conn_def)
    moreover have "conn_ok r f ?c" using ok x assms(3) b' by (auto simp: conn_ok_def)
    ultimately show ?thesis
      using reactor_ok_upd [OF assms(1,2), of ?c "syslog r"] assms(3) b'(3)
      by (intro exI [of _ ?r] exI [of _ ?c]) (auto simp: send_post_def sent_by_def)
  qed
qed

lemma server_send_direct:
  assumes "reactor_ok sv r" "conn_map r f = Some c" "content (send_buffer c) = []"
    "buf_room (send_buffer c) (length data)" "accepts e f data"
  shows "\<exists>r' c'. server_send e sv data f r = Inr r' \<and> reactor_ok sv r' \<and> send_post e f data r c r' c'"
proof -
  have ok: "conn_ok r f c" using assms(1,2) by (rule reactor_okD)
  then obtain t where x: "conn_ctx c = DmpRegisterContext t f DefaultEvents None"
    using assms(3) by (auto elim: conn_ok_ctx)
  have b: "buf_ok (send_buffer c)" "state c = CONNECTED" "sockfd c = f" "chan_socket (chan c) = f"
    using ok by (simp_all add: conn_ok_def)
  have len: "length data \<le> vec_max" using assms(4) by (simp add: buf_room_def)
  define w where "w = nat (e_write e f)"
  have w: "w \<le> length data" using assms(5) by (auto simp: w_def accepts_def)
  have rd: "readableBytes (send_buffer c) = 0" using assms(3) b(1) by (simp add: readable_eq)
  have ans: "(if 0 \<le> e_write e f then ssize (int (length data) - e_write e f)
      else ssize (int (length data))) = int (length data) - int w"
    "nat (if 0 \<le> e_write e f then e_write e f else 0) = w"
    using len assms(5) by (auto simp: w_def accepts_def)
  have sent: "sent_by e c data = take w data" using assms(3) b(3) by (simp add: sent_by_def w_def)
  let ?r1 = "r\<lparr>syslog := syslog r @ [SysWrite f (take w data)]\<rparr>"
  obtain d where d: "deref_dmp (r_dmps r) (chan c) = Inr d" "\<exists>n. r_dmps r n = Some d"
    by (rule conn_ok_dmp [OF ok])
  show ?thesis
  proof (cases "w = length data")
    case True
    then have "server_send e sv data f r = Inr ?r1"
      using assms(2) x b ans rd
      by (simp add: server_send_def tcp_send_def get_conn_def Let_def r_sys_def)
    moreover have "reactor_ok sv ?r1"
      using reactor_ok_upd [OF assms(1,2) ok, of "syslog r @ [SysWrite f (take w data)]"] assms(2)
      by (simp add: fun_upd_idem)
    ultimately show ?thesis
      using True assms(2,3) by (intro exI [of _ ?r1] exI [of _ c])
        (auto simp: send_post_def sent fun_upd_idem)
  next
    case False
    let ?rem = "length data - w"
    from False w have pos: "0 < int (length data) - int w" by simp
    have rem: "word_of_int (int (length data) - int w) = (word_of_nat ?rem :: u64)"
      using w by (simp add: of_nat_diff)
    have "buf_room (send_buffer c) (unat (word_of_nat ?rem :: u64) + 0)"
      using assms(4) len by (simp add: buf_room_def)
    from buf_append_law [OF b(1) this, of "drop w data"]
    obtain b' where b': "buf_append (Some (drop w data)) (word_of_nat ?rem) (send_buffer c) = Inr b'"
        "buf_ok b'" "content b' = drop w data"
      using assms(3) len by auto
    let ?c = "c\<lparr>send_buffer := b'\<rparr>" and ?c' = "c\<lparr>send_buffer := b', conn_ctx := DmpRegisterContext t f WRITABLE None\<rparr>"
    let ?r2 = "?r1\<lparr>conn_map := (conn_map r)(f \<mapsto> ?c)\<rparr>"
    let ?r3 = "r\<lparr>conn_map := (conn_map r)(f \<mapsto> ?c'), syslog := syslog r @ [SysWrite f (take w data),
        EpollCtl (dmpfd d) CtlMod f WRITABLE]\<rparr>"
    have "wired sv ?r2 d" using assms(1) d(2) by (auto simp: reactor_ok_def wired_def)
    from enableWrite_ok [OF this, of "chan c" f ?c t DefaultEvents None "Suc (Suc 0)" e]
    have "server_send e sv data f r = Inr ?r3"
      using assms(2) x b ans rd d(1) pos rem b'(1)
      by (simp add: server_send_def tcp_send_def get_conn_def Let_def r_sys_def upd_conn_def depth_def
          del: pub_code.simps)
    moreover have "conn_ok r f ?c'" using ok b' False w by (auto simp: conn_ok_def)
    ultimately show ?thesis
      using reactor_ok_upd [OF assms(1,2), of ?c'] assms(3) b'(3) w
      by (intro exI [of _ ?r3] exI [of _ ?c'])
        (auto simp: send_post_def sent intro!: exI [of _ "[dmpfd d]"])
  qed
qed

lemma server_send_ok:
  assumes "reactor_ok sv r" "conn_map r f = Some c" "buf_room (send_buffer c) (length data)"
    "accepts e f data"
  shows "\<exists>r' c'. server_send e sv data f r = Inr r' \<and> reactor_ok sv r' \<and> send_post e f data r c r' c'"
  using assms server_send_direct server_send_waiting by (cases "content (send_buffer c) = []") auto

section \<open>Runs\<close>

text \<open>
  What happens to the server: a descriptor is registered with demultiplexer \<open>n\<close>, one of its
  waits delivers events, the program sends on a connection; or the other components of the
  program, which share the center, have changed it. \<open>admissible\<close> is what the kernel
  and the caller keep to: an accepted descriptor is one the server does not have open, a wait
  delivers a descriptor once, a write answers \<open>-1\<close> or at most what it was given, and what
  waits to be sent stays below the size of a vector; what the others do, accounting traffic
  and looking up subscribers, leaves every notification with the subscribers it had and every
  account open.
\<close>

datatype stimulus =
    Accept env nat fd
  | Deliver env nat "resp list"
  | Send env string fd
  | Elsewhere center

fun server_do :: "server \<Rightarrow> stimulus \<Rightarrow> reactor \<Rightarrow> reactor result" where
  "server_do sv (Accept e n f) r =
     (case r_dmps r n of None \<Rightarrow> Inl UseAfterFree | Some d \<Rightarrow> server_accept e sv n d f r)"
| "server_do sv (Deliver e n eps) r =
     (case r_dmps r n of None \<Rightarrow> Inl UseAfterFree | Some d \<Rightarrow> server_wait e sv d eps r)"
| "server_do sv (Send e data f) r = server_send e sv data f r"
| "server_do sv (Elsewhere c) r = Inr (r\<lparr>r_center := c\<rparr>)"

text \<open>Two centers in which every notification reaches the same subscribers.\<close>

definition same_wires :: "center \<Rightarrow> center \<Rightarrow> bool" where
  "same_wires c c' \<longleftrightarrow> publishers c' = publishers c \<and>
     (\<forall>p t. sub_entry (subcribers c') p t = sub_entry (subcribers c) p t)"

lemma same_wires_refl [simp]: "same_wires c c"
  by (simp add: same_wires_def)

fun admissible :: "reactor \<Rightarrow> stimulus \<Rightarrow> bool" where
  "admissible r (Accept e n f) \<longleftrightarrow> r_dmps r n \<noteq> None \<and> conn_map r f = None \<and> e_debug e"
| "admissible r (Deliver e n eps) \<longleftrightarrow> r_dmps r n \<noteq> None \<and> distinct (map resp_fd eps)"
| "admissible r (Send e data f) \<longleftrightarrow>
     (case conn_map r f of None \<Rightarrow> False
      | Some c \<Rightarrow> buf_room (send_buffer c) (length data) \<and> accepts e f data)"
| "admissible r (Elsewhere c) \<longleftrightarrow>
     same_wires (r_center r) c \<and> dom (traffic_map (r_center r)) \<subseteq> dom (traffic_map c)"

text \<open>The server as its constructor leaves it, before the loop starts.\<close>

definition started :: "server \<Rightarrow> reactor \<Rightarrow> bool" where
  "started sv r \<longleftrightarrow> conn_map r = Map.empty \<and> total_conn r = 0 \<and> outbox r = [] \<and> syslog r = [] \<and>
     (\<forall>n d. r_dmps r n = Some d \<longrightarrow> wired sv r d)"

inductive server_step :: "server \<Rightarrow> reactor \<Rightarrow> reactor \<Rightarrow> bool" for sv where
  step: "admissible r st \<Longrightarrow> server_do sv st r = Inr r' \<Longrightarrow> server_step sv r r'"

inductive server_reach :: "server \<Rightarrow> reactor \<Rightarrow> bool" for sv where
  start: "started sv r \<Longrightarrow> server_reach sv r"
| next_step: "server_reach sv r \<Longrightarrow> server_step sv r r' \<Longrightarrow> server_reach sv r'"

inductive_cases server_stepE: "server_step sv r r'"

text \<open>The descriptors the calls issued so far leave watched: added, and not closed since.\<close>

fun watch :: "syscall \<Rightarrow> fd set \<Rightarrow> fd set" where
  "watch (EpollCtl _ CtlAdd f _) W = insert f W"
| "watch (SysClose f) W = W - {f}"
| "watch _ W = W"

definition watched :: "syscall list \<Rightarrow> fd set" where
  "watched l = fold watch l {}"

lemma watched_append: "watched (l @ m) = fold watch m (watched l)"
  by (simp add: watched_def)

lemma watch_closing_calls: "fold watch (closing_calls ks) W = W - fst ` set ks"
  by (induction ks arbitrary: W) auto

lemma watch_mods: "fold watch (map (\<lambda>d. EpollCtl d CtlMod f ev) m) W = W"
  by (induction m) auto

text \<open>The traffic of every connected address is accounted.\<close>

definition known :: "reactor \<Rightarrow> bool" where
  "known r \<longleftrightarrow> (\<forall>f c. conn_map r f = Some c \<longrightarrow> traffic_map (r_center r) (getTcpInfo c) \<noteq> None)"

text \<open>Every step of a well-formed server returns and leaves it well formed.\<close>

definition server_inv :: "server \<Rightarrow> reactor \<Rightarrow> bool" where
  "server_inv sv r \<longleftrightarrow> reactor_ok sv r \<and> watched (syslog r) = dom (conn_map r) \<and> known r"

lemma server_inv_start: "started sv r \<Longrightarrow> server_inv sv r"
  by (auto simp: started_def server_inv_def reactor_ok_def watched_def known_def)

lemma server_wait_none: "server_wait e sv d [] r = Inr r"
  by (simp add: server_wait_def demultiplexWait_def)

lemma gone_dom: "dom (conn_map r |` (- gone qs)) = dom (conn_map r) - gone qs"
  by auto

lemma server_do_inv:
  assumes "server_inv sv r" "admissible r st"
  shows "\<exists>r'. server_do sv st r = Inr r' \<and> server_inv sv r'"
proof (cases st)
  case (Accept e n f)
  with assms obtain d where d: "r_dmps r n = Some d" "conn_map r f = None" "e_debug e" by auto
  with server_accept_ok [of sv r n d f e] assms(1) Accept show ?thesis
    by (auto simp: server_inv_def watched_append known_def getTcpInfo_def traffic_account split: option.splits)
next
  case (Deliver e n eps)
  with assms obtain d where d: "r_dmps r n = Some d" "distinct (map resp_fd eps)" by auto
  show ?thesis
  proof (cases "eps = []")
    case True
    with Deliver d(1) assms(1) show ?thesis by (simp add: server_wait_none)
  next
    case False
    from server_wait_ok [OF _ d(1) False d(2), of sv e] assms(1)
    obtain r' ks where r': "server_wait e sv d eps r = Inr r'" "reactor_ok sv r'"
      "conn_map r' = conn_map r |` (- gone eps)"
      "map fst ks = map resp_fd (filter (\<lambda>q. closing q \<and> resp_fd q \<in> dom (conn_map r)) eps)"
      "syslog r' = syslog r @ closing_calls ks" "traffic_map (r_center r') = traffic_map (r_center r)"
      by (auto simp: server_inv_def)
    have "fst ` set ks = gone eps \<inter> dom (conn_map r)"
      using arg_cong [OF r'(4), of set] by (auto simp: gone_def)
    then have "watched (syslog r') = dom (conn_map r')"
      using assms(1) r'(3,5) by (auto simp: server_inv_def watched_append watch_closing_calls gone_dom)
    moreover have "known r'" using assms(1) r'(3,6) by (auto simp: server_inv_def known_def restrict_map_def split: if_splits)
    ultimately show ?thesis using r' d(1) Deliver by (simp add: server_inv_def)
  qed
next
  case (Send e data f)
  with assms obtain c where c: "conn_map r f = Some c" "buf_room (send_buffer c) (length data)"
      "accepts e f data"
    by (auto split: option.splits)
  have "reactor_ok sv r" using assms(1) by (simp add: server_inv_def)
  from server_send_ok [OF this c] obtain r' c' where r': "server_send e sv data f r = Inr r'"
      "reactor_ok sv r'" "send_post e f data r c r' c'"
    by blast
  have "f \<in> dom (conn_map r)" using c(1) by auto
  with r' Send assms(1) c(1) show ?thesis
    by (auto simp: server_inv_def send_post_def known_def getTcpInfo_def watched_append watch_mods split: if_splits)
next
  case (Elsewhere c)
  have "known (r\<lparr>r_center := c\<rparr>)"
    using assms Elsewhere unfolding server_inv_def known_def by simp (metis domD domI subsetD)
  with Elsewhere assms reactor_ok_center [of sv r c "outbox r"] show ?thesis
    by (simp add: server_inv_def same_wires_def)
qed

interpretation serving: event_system "server_do sv" "\<lambda>st r. admissible r st" "server_inv sv" for sv
  by unfold_locales (rule server_do_inv)

lemma server_reach_inv: "server_reach sv r \<Longrightarrow> server_inv sv r"
proof (induction rule: server_reach.induct)
  case (start r)
  then show ?case by (rule server_inv_start)
next
  case (next_step r r')
  from next_step.hyps(2) obtain st where "admissible r st" "server_do sv st r = Inr r'"
    by (rule server_stepE)
  with next_step.IH show ?case by (rule serving.act_inv)
qed

lemma server_reach_elsewhere:
  assumes "server_reach sv r" "same_wires (r_center r) c" "dom (traffic_map (r_center r)) \<subseteq> dom (traffic_map c)"
  shows "server_reach sv (r\<lparr>r_center := c\<rparr>)"
  using server_reach.next_step [OF assms(1) server_step.step [of r "Elsewhere c"]] assms(2,3) by simp

section \<open>A running server\<close>

definition demo_server :: server where
  "demo_server = \<lparr>srv_addr = 42, srv_sub_id = 0, srv_pub_id = 0\<rparr>"

definition demo_center :: center where
  "demo_center = \<lparr>publishers = [0 \<mapsto> 7], subcribers = [0 \<mapsto> (\<lambda>t. Some (if served t then [42] else [50]))],
     traffic_map = Map.empty\<rparr>"

definition demo_reactor :: reactor where
  "demo_reactor = \<lparr>r_center = demo_center,
     r_dmps = [0 \<mapsto> \<lparr>dmp_id = 0, dmpfd = 4, notify_on = True\<rparr>], conn_map = Map.empty,
     total_conn = 0, outbox = [], syslog = []\<rparr>"

definition demo_env :: env where
  "demo_env = \<lparr>e_debug = True, e_peer = (\<lambda>f. make_inet [] 0), e_write = (\<lambda>f. 1), e_ctl = (\<lambda>c. 0)\<rparr>"

lemma demo_started: "started demo_server demo_reactor"
  by (auto simp: started_def demo_reactor_def wired_def demo_server_def demo_center_def
      registered_def sub_entry_def split: if_splits)

lemma demo_open:
  "\<exists>r c. server_reach demo_server r \<and> conn_map r = [5 \<mapsto> c] \<and> content (send_buffer c) = [] \<and>
     writerIndex (send_buffer c) = 0 \<and> length (storage (send_buffer c)) = 40960 \<and>
     recv_buffer c = send_buffer c \<and> others demo_server (r_center r) 0 BALANCE = [50] \<and>
     r_dmps r = [0 \<mapsto> \<lparr>dmp_id = 0, dmpfd = 4, notify_on = True\<rparr>] \<and> outbox r = [] \<and>
     syslog r = [Fcntl 5, EpollCtl 4 CtlAdd 5 DefaultEvents]"
proof -
  have a: "admissible demo_reactor (Accept demo_env 0 5)"
    by (simp add: demo_reactor_def demo_env_def)
  have "reactor_ok demo_server demo_reactor"
    using server_inv_start [OF demo_started] by (simp add: server_inv_def)
  then obtain r c where r: "server_do demo_server (Accept demo_env 0 5) demo_reactor = Inr r"
      "conn_map r = [5 \<mapsto> c]" "r_dmps r = r_dmps demo_reactor" "outbox r = []"
      "content (send_buffer c) = []" "writerIndex (send_buffer c) = 0"
      "length (storage (send_buffer c)) = 40960" "recv_buffer c = send_buffer c"
      "publishers (r_center r) = publishers demo_center" "subcribers (r_center r) = subcribers demo_center"
      "syslog r = [Fcntl 5, EpollCtl 4 CtlAdd 5 DefaultEvents]"
    using server_accept_ok [of demo_server demo_reactor 0 _ 5 demo_env]
    by (auto simp: demo_reactor_def demo_env_def)
  have "server_reach demo_server r"
    using server_reach.start [OF demo_started] server_step.step [OF a r(1)]
    by (rule server_reach.next_step)
  moreover have "others demo_server (r_center r) 0 BALANCE = [50]"
    using r(9,10) by (simp add: Let_def others_def notify_targets_def demo_center_def demo_server_def sub_entry_def)
  ultimately show ?thesis using r by (auto simp: demo_reactor_def)
qed

section \<open>Properties\<close>

text \<open>C5. Safety of the server. In every state the server reaches, its counter is the number
  of its connections, the descriptors the kernel watches for it (added to epoll and not
  closed since) are exactly the keys of its connection map, the address of every connection
  has an account of traffic (without one it would be taken to be over the limit), and every
  admissible event is handled to the end: no exception, no null or dangling pointer, no self-deadlock of the
  mutex, and no deeper nesting of notifications than three.\<close>

theorem server_safe:
  assumes "server_reach sv r"
  shows "total_conn r = int (card (dom (conn_map r))) \<and>
    watched (syslog r) = dom (conn_map r) \<and>
    (\<forall>f c. conn_map r f = Some c \<longrightarrow> traffic_map (r_center r) (getTcpInfo c) \<noteq> None) \<and>
    (\<forall>st. admissible r st \<longrightarrow> (\<exists>r'. server_do sv st r = Inr r'))"
proof (intro conjI allI impI)
  have inv: "server_inv sv r" using assms by (rule server_reach_inv)
  then show "total_conn r = int (card (dom (conn_map r)))" "watched (syslog r) = dom (conn_map r)"
    by (simp_all add: server_inv_def reactor_ok_def)
  show "traffic_map (r_center r) (getTcpInfo c) \<noteq> None" if "conn_map r f = Some c" for f c
    using inv that by (auto simp: server_inv_def known_def)
  show "\<exists>r'. server_do sv st r = Inr r'" if "admissible r st" for st
    using server_do_inv [OF inv that] by blast
qed

theorem server_safe_witness:
  "\<exists>r r'. server_reach demo_server r \<and> 5 \<in> dom (conn_map r) \<and>
     server_do demo_server (Deliver demo_env 0 [\<lparr>resp_fd = 5, resp_events = CLOSABLE\<rparr>]) r = Inr r'"
proof -
  obtain r c where r: "server_reach demo_server r" "conn_map r = [5 \<mapsto> c]"
      "r_dmps r = [0 \<mapsto> \<lparr>dmp_id = 0, dmpfd = 4, notify_on = True\<rparr>]"
    using demo_open by blast
  let ?st = "Deliver demo_env 0 [\<lparr>resp_fd = 5, resp_events = CLOSABLE\<rparr>]"
  have "admissible r ?st" using r(3) by simp
  with server_safe [OF r(1)] obtain r' where "server_do demo_server ?st r = Inr r'" by presburger
  with r(1,2) show ?thesis by (intro exI [of _ r] exI [of _ r']) (simp del: server_do.simps)
qed



text \<open>The bytes written to a descriptor so far.\<close>

fun wrote_of :: "fd \<Rightarrow> syscall \<Rightarrow> string" where
  "wrote_of f (SysWrite g bs) = (if g = f then bs else [])"
| "wrote_of f _ = []"

definition wrote_to :: "fd \<Rightarrow> syscall list \<Rightarrow> string" where
  "wrote_to f l = concat (map (wrote_of f) l)"

lemma wrote_to_append [simp]: "wrote_to f (l @ m) = wrote_to f l @ wrote_to f m"
  by (simp add: wrote_to_def)

lemma wrote_to_simps [simp]:
  "wrote_to f [] = []" "wrote_to f (c # l) = wrote_of f c @ wrote_to f l"
  "wrote_to f (map (\<lambda>d. EpollCtl d CtlMod g ev) m) = []"
  "wrote_to f (closing_calls ks) = []"
  by (simp_all add: wrote_to_def concat_eq_Nil_conv closing_calls_def)

text \<open>C17. \<open>send\<close> neither loses nor reorders bytes, however few of them the kernel takes: what
  was written to the descriptor followed by what waits in the send buffer grows by exactly
  the data sent.\<close>

theorem send_stream:
  assumes "server_reach sv r" "conn_map r f = Some c" "admissible r (Send e data f)"
  shows "\<exists>r' c'. server_do sv (Send e data f) r = Inr r' \<and> conn_map r' = (conn_map r)(f \<mapsto> c') \<and>
    wrote_to f (syslog r') @ content (send_buffer c') =
    wrote_to f (syslog r) @ content (send_buffer c) @ data"
proof -
  have "reactor_ok sv r" using server_reach_inv [OF assms(1)] by (simp add: server_inv_def)
  moreover have "buf_room (send_buffer c) (length data)" "accepts e f data"
    using assms(2,3) by auto
  ultimately obtain r' c' where r': "server_send e sv data f r = Inr r'" "send_post e f data r c r' c'"
    using server_send_ok [OF _ assms(2)] by blast
  have "wrote_to f (syslog r') = wrote_to f (syslog r) @ sent_by e c data"
    using r'(2) by (auto simp: send_post_def sent_by_def)
  moreover have "content (send_buffer c') =
      content (send_buffer c) @ drop (length (sent_by e c data)) data"
    using r'(2) by (simp add: send_post_def)
  moreover have "sent_by e c data = [] \<or> content (send_buffer c) = []"
    by (simp add: sent_by_def)
  moreover have "sent_by e c data @ drop (length (sent_by e c data)) data = data"
    by (simp add: sent_by_def min_def)
  moreover have "conn_map r' = (conn_map r)(f \<mapsto> c')" using r'(2) by (simp add: send_post_def)
  ultimately show ?thesis using r'(1) by (intro exI [of _ r'] exI [of _ c']) auto
qed

theorem send_stream_witness:
  "\<exists>r r' c. server_reach demo_server r \<and>
     server_do demo_server (Send demo_env ''hi'' 5) r = Inr r' \<and> conn_map r' = [5 \<mapsto> c] \<and>
     wrote_to 5 (syslog r') @ content (send_buffer c) = ''hi''"
proof -
  obtain r c where r: "server_reach demo_server r" "conn_map r = [5 \<mapsto> c]"
      "content (send_buffer c) = []" "writerIndex (send_buffer c) = 0"
      "syslog r = [Fcntl 5, EpollCtl 4 CtlAdd 5 DefaultEvents]"
    using demo_open by blast
  have "admissible r (Send demo_env ''hi'' 5)"
    using r(2,4) by (simp add: buf_room_def vec_max_def accepts_def demo_env_def)
  from send_stream [OF r(1) _ this, of c] r(2,3,5) obtain r' c'
    where "server_do demo_server (Send demo_env ''hi'' 5) r = Inr r'" "conn_map r' = [5 \<mapsto> c']"
      "wrote_to 5 (syslog r') @ content (send_buffer c') = ''hi''"
    by auto
  then show ?thesis using r(1) by (intro exI [of _ r] exI [of _ r'] exI [of _ c']) simp
qed

text \<open>The connection of \<open>f\<close> stays open from one state to the next.\<close>

definition stays_open :: "server \<Rightarrow> fd \<Rightarrow> reactor \<Rightarrow> reactor \<Rightarrow> bool" where
  "stays_open sv f r r' \<longleftrightarrow> server_step sv r r' \<and> f \<in> dom (conn_map r')"

lemma stays_open_pending:
  assumes "server_inv sv r" "stays_open sv f r r'" "conn_map r f = Some c"
    "content (send_buffer c) \<noteq> []"
  shows "server_inv sv r' \<and> wrote_to f (syslog r') = wrote_to f (syslog r) \<and>
    (\<exists>c' more. conn_map r' f = Some c' \<and>
       content (send_buffer c') = content (send_buffer c) @ more)"
proof -
  from assms(2) obtain st where st: "admissible r st" "server_do sv st r = Inr r'"
      "f \<in> dom (conn_map r')"
    by (auto simp: stays_open_def elim: server_stepE)
  have inv: "server_inv sv r'" using server_do_inv [OF assms(1) st(1)] st(2) by auto
  have ok: "reactor_ok sv r" using assms(1) by (simp add: server_inv_def)
  show ?thesis
  proof (cases st)
    case (Accept e n g)
    with st obtain d where d: "r_dmps r n = Some d" "conn_map r g = None" "e_debug e"
        "server_accept e sv n d g r = Inr r'"
      by auto
    have "f \<noteq> g" using d(2) assms(3) by auto
    with server_accept_ok [OF ok d(1-3)] d(4) assms(3) inv show ?thesis by auto
  next
    case (Deliver e n eps)
    with st obtain d where d: "r_dmps r n = Some d" "distinct (map resp_fd eps)"
        "server_wait e sv d eps r = Inr r'"
      by auto
    show ?thesis
    proof (cases "eps = []")
      case True
      with d(3) assms(3) inv show ?thesis by (simp add: server_wait_none)
    next
      case False
      from server_wait_ok [OF ok d(1) False d(2), of e] d(3) st(3) assms(3) inv
      show ?thesis by (auto simp: restrict_map_def split: if_splits)
    qed
  next
    case (Send e data g)
    with st(1) obtain cg where g: "conn_map r g = Some cg"
        "buf_room (send_buffer cg) (length data)" "accepts e g data"
      by (auto split: option.splits)
    from server_send_ok [OF ok g] st(2) Send obtain c' where "send_post e g data r cg r' c'" by auto
    with assms(3,4) g(1) inv show ?thesis
      by (cases "g = f") (auto simp: send_post_def sent_by_def split: if_splits)
  next
    case (Elsewhere c')
    with st(2) assms(3) inv show ?thesis by auto
  qed
qed

text \<open>C35. Pending bytes are never sent. Once a partial write has left bytes in the send buffer
  of a connection, none of them is ever written: in every later state, as long as the
  connection stays open, nothing more has been written to its descriptor and the buffer has
  only grown. (\<open>sendInLoop\<close> writes only when the events include \<open>READABLE\<close>, and
  \<open>enableWrite\<close> has replaced them by \<open>WRITABLE\<close>.)\<close>

theorem pending_never_flushed:
  assumes "server_reach sv r" "conn_map r f = Some c" "content (send_buffer c) \<noteq> []"
    "(stays_open sv f)\<^sup>*\<^sup>* r r'"
  shows "wrote_to f (syslog r') = wrote_to f (syslog r) \<and>
    (\<exists>c' more. conn_map r' f = Some c' \<and>
       content (send_buffer c') = content (send_buffer c) @ more)"
proof -
  from assms(4) have "server_inv sv r' \<and> wrote_to f (syslog r') = wrote_to f (syslog r) \<and>
    (\<exists>c' more. conn_map r' f = Some c' \<and>
       content (send_buffer c') = content (send_buffer c) @ more)"
  proof (induction rule: rtranclp_induct)
    case base
    then show ?case using assms(2) server_reach_inv [OF assms(1)] by simp
  next
    case (step y z)
    from step.IH obtain c' more where c': "conn_map y f = Some c'"
        "content (send_buffer c') = content (send_buffer c) @ more"
      by blast
    from stays_open_pending [OF _ step.hyps(2) c'(1)] step.IH c'(2) assms(3) show ?case by auto
  qed
  then show ?thesis by blast
qed

lemma demo_pending:
  "\<exists>r c. server_reach demo_server r \<and> conn_map r = [5 \<mapsto> c] \<and> content (send_buffer c) = ''i'' \<and>
     r_dmps r = [0 \<mapsto> \<lparr>dmp_id = 0, dmpfd = 4, notify_on = True\<rparr>]"
proof -
  obtain r c where r: "server_reach demo_server r" "conn_map r = [5 \<mapsto> c]"
      "content (send_buffer c) = []" "writerIndex (send_buffer c) = 0"
      "r_dmps r = [0 \<mapsto> \<lparr>dmp_id = 0, dmpfd = 4, notify_on = True\<rparr>]"
    using demo_open by blast
  have a: "admissible r (Send demo_env ''hi'' 5)"
    using r(2,4) by (simp add: buf_room_def vec_max_def accepts_def demo_env_def)
  have ok: "reactor_ok demo_server r" "conn_map r 5 = Some c"
    using server_reach_inv [OF r(1)] r(2) by (simp_all add: server_inv_def)
  obtain r' c' where r': "server_send demo_env demo_server ''hi'' 5 r = Inr r'"
      "send_post demo_env 5 ''hi'' r c r' c'"
    using server_send_ok [OF ok, of "''hi''" demo_env] a r(2) by auto
  have "server_reach demo_server r'"
    using r(1) server_step.step [OF a] r'(1) by (auto intro: server_reach.next_step)
  moreover have "sockfd c = 5" using ok by (auto simp: reactor_ok_def conn_ok_def)
  ultimately show ?thesis
    using r r'(2) by (auto simp: send_post_def sent_by_def demo_env_def)
qed

theorem pending_never_flushed_witness:
  "\<exists>r r' c. server_reach demo_server r \<and> conn_map r = [5 \<mapsto> c] \<and>
     content (send_buffer c) = ''i'' \<and>
     server_do demo_server (Deliver demo_env 0 [\<lparr>resp_fd = 5, resp_events = WRITABLE\<rparr>]) r = Inr r' \<and>
     wrote_to 5 (syslog r') = wrote_to 5 (syslog r)"
proof -
  obtain r c where r: "server_reach demo_server r" "conn_map r = [5 \<mapsto> c]"
      "content (send_buffer c) = ''i''"
      "r_dmps r = [0 \<mapsto> \<lparr>dmp_id = 0, dmpfd = 4, notify_on = True\<rparr>]"
    using demo_pending by blast
  let ?q = "\<lparr>resp_fd = 5, resp_events = WRITABLE\<rparr>"
  have at5: "conn_map r 5 = Some c" and dm: "r_dmps r 0 = Some \<lparr>dmp_id = 0, dmpfd = 4, notify_on = True\<rparr>"
    using r(2,4) by simp_all
  have ok: "reactor_ok demo_server r" using server_reach_inv [OF r(1)] by (simp add: server_inv_def)
  have a: "admissible r (Deliver demo_env 0 [?q])" using dm by simp
  obtain r' where r': "server_wait demo_env demo_server \<lparr>dmp_id = 0, dmpfd = 4, notify_on = True\<rparr> [?q] r = Inr r'"
      "conn_map r' = conn_map r |` (- gone [?q])"
    using server_wait_ok [OF ok dm, of "[?q]" demo_env] by auto
  have do_r: "server_do demo_server (Deliver demo_env 0 [?q]) r = Inr r'" using dm r'(1) by simp
  have "5 \<in> dom (conn_map r')" using r'(2) r(2) by (simp add: closing_def)
  then have "(stays_open demo_server 5)\<^sup>*\<^sup>* r r'"
    using server_step.step [OF a do_r] by (intro r_into_rtranclp) (simp add: stays_open_def)
  from pending_never_flushed [OF r(1) at5 _ this] r(3) have "wrote_to 5 (syslog r') = wrote_to 5 (syslog r)"
    by simp
  with r(1-3) do_r show ?thesis by (intro exI [of _ r] exI [of _ r'] exI [of _ c]) simp
qed

text \<open>Closing the writing half of a live connection crashes. \<open>shutdownWrite\<close> passes
  the connection's own register context to \<open>disableWrite\<close>, whose cast to a modify context
  yields null, which it dereferences; so does the flush of \<open>sendInLoop\<close> if it ever empties
  the buffer.\<close>

theorem shutdownWrite_null:
  assumes "server_reach sv r" "conn_map r f = Some c"
  shows "shutdownWrite ntf e f r = Inl NullDeref"
proof -
  have "conn_ok r f c"
    using server_reach_inv [OF assms(1)] assms(2) by (auto simp: server_inv_def reactor_ok_def)
  with assms(2) show ?thesis
    by (auto simp: shutdownWrite_def get_conn_def disableWrite_def conn_ok_def split: if_splits)
qed

theorem shutdownWrite_null_witness:
  "\<exists>r. server_reach demo_server r \<and> 5 \<in> dom (conn_map r) \<and>
     shutdownWrite (server_ntf depth demo_env demo_server) demo_env 5 r = Inl NullDeref"
proof -
  obtain r c where r: "server_reach demo_server r" "conn_map r = [5 \<mapsto> c]"
    using demo_open by blast
  then have "conn_map r 5 = Some c" by simp
  with shutdownWrite_null [OF r(1) this] r show ?thesis by (intro exI [of _ r]) auto
qed

text \<open>\<open>read()\<close> stores what it receives at the first unread byte, not after the last one:
  with an empty receive buffer the unread bytes are then those received; with bytes unread,
  the new ones overwrite them, and the tail of what \<open>hasWritten\<close> adds is whatever the
  buffer held there before.\<close>

theorem read_overwrites_unread:
  assumes "server_reach sv r" "conn_map r f = Some c" "content (send_buffer c) = []"
    "length bs \<le> unat (writableBytes (recv_buffer c))"
  shows "\<exists>r' c'. tcp_read ntf e (int (length bs)) bs f r = Inr r' \<and>
    conn_map r' = (conn_map r)(f \<mapsto> c') \<and>
    length (content (recv_buffer c')) = length (content (recv_buffer c)) + length bs \<and>
    take (length bs) (content (recv_buffer c')) = bs"
proof -
  have ok: "conn_ok r f c"
    using server_reach_inv [OF assms(1)] assms(2) by (auto simp: server_inv_def reactor_ok_def)
  let ?b = "recv_buffer c"
  have b: "buf_ok ?b" using ok by (simp add: conn_ok_def)
  obtain t where x: "conn_ctx c = DmpRegisterContext t f DefaultEvents None" "state c = CONNECTED"
    using ok assms(3) by (auto simp: conn_ok_def)
  have room: "unat (writerIndex ?b) + length bs \<le> length (storage ?b)"
    using assms(4) b by (auto simp: buf_ok_def)
  let ?st = "overwrite (storage ?b) (unat (readerIndex ?b)) bs"
  let ?b' = "?b\<lparr>storage := ?st, writerIndex := writerIndex ?b + word_of_nat (length bs)\<rparr>"
  have lens: "length bs \<le> vec_max" "unat (readerIndex ?b) \<le> unat (writerIndex ?b)"
    "length (storage ?b) \<le> vec_max"
    using b room by (auto simp: buf_ok_def word_le_nat_alt)
  then have w: "unat (writerIndex ?b + word_of_nat (length bs)) = unat (writerIndex ?b) + length bs"
    using room by (subst unat_add_small) simp_all
  have wr: "write_mem (storage ?b) (unat (readerIndex ?b)) bs = Inr ?st"
    using lens(2) room by (simp add: write_mem_def)
  have "writableBytes (?b\<lparr>storage := ?st\<rparr>) = writableBytes ?b"
    using lens(2) room by (simp add: writableBytes_def)
  then have "hasWritten (word_of_nat (length bs)) (?b\<lparr>storage := ?st\<rparr>) = Inr ?b'"
    using assms(4) lens(1) by (simp add: hasWritten_def word_less_nat_alt)
  with wr have "tcp_read ntf e (int (length bs)) bs f r =
      Inr (r\<lparr>conn_map := (conn_map r)(f \<mapsto> c\<lparr>recv_buffer := ?b'\<rparr>)\<rparr>)"
    using assms(2) b x by (simp add: tcp_read_def get_conn_def upd_conn_def)
  moreover have "content ?b' = take (unat (writerIndex ?b) - unat (readerIndex ?b) + length bs)
      (bs @ drop (unat (readerIndex ?b) + length bs) (storage ?b))"
    using lens(2) room by (simp add: content_def w drop_overwrite_before overwrite_0 add.commute)
  ultimately show ?thesis
    using lens(2) room b by (intro exI [of _ "r\<lparr>conn_map := (conn_map r)(f \<mapsto> c\<lparr>recv_buffer := ?b'\<rparr>)\<rparr>"]
        exI [of _ "c\<lparr>recv_buffer := ?b'\<rparr>"]) (simp add: length_content)
qed

theorem read_overwrites_unread_witness:
  "\<exists>r r' c'. server_reach demo_server r \<and>
     tcp_read (server_ntf depth demo_env demo_server) demo_env 3 ''hey'' 5 r = Inr r' \<and>
     conn_map r' = [5 \<mapsto> c'] \<and> content (recv_buffer c') = ''hey''"
proof -
  obtain r c where r: "server_reach demo_server r" "conn_map r = [5 \<mapsto> c]"
      "content (send_buffer c) = []" "writerIndex (send_buffer c) = 0"
      "length (storage (send_buffer c)) = 40960" "recv_buffer c = send_buffer c"
    using demo_open by blast
  have at5: "conn_map r 5 = Some c" using r(2) by simp
  have "length ''hey'' \<le> unat (writableBytes (recv_buffer c))"
    using r(4-6) by (simp add: writableBytes_def)
  from read_overwrites_unread [OF r(1) at5 r(3) this, of "server_ntf depth demo_env demo_server" demo_env]
    r(2,3,6)
  obtain r' c' where "tcp_read (server_ntf depth demo_env demo_server) demo_env 3 ''hey'' 5 r = Inr r'"
      "conn_map r' = [5 \<mapsto> c']" "content (recv_buffer c') = ''hey''"
    by auto
  with r(1) show ?thesis by blast
qed

section \<open>Construction and destruction\<close>

lemma wire_subscribe_ok: "wire subscribe ps x c = Inr c' \<Longrightarrow> center_ok c \<Longrightarrow> center_ok c'"
proof (induction ps arbitrary: c)
  case (Cons pt ps)
  obtain p t where pt: "pt = (p, t)" by (cases pt)
  with Cons.prems obtain c1 where c1: "subscribe p t (Some x) c = Inr c1" "wire subscribe ps x c1 = Inr c'"
    by (auto simp: result_simps)
  have "center_ok c1"
  proof (cases "publishers c p")
    case (Some v)
    then have "p \<in> dom (publishers c)" by (rule domI)
    moreover from Some c1(1) have "c1 = c\<lparr>subcribers := set_sub_entry (subcribers c) p t
        (List.insert x (sub_entry (subcribers c) p t))\<rparr>"
      by (simp add: subscribe_def)
    ultimately show ?thesis using Cons.prems(2) by (simp add: center_ok_def)
  qed (use c1(1) Cons.prems(2) in \<open>simp add: subscribe_def\<close>)
  with Cons.IH c1(2) show ?case by blast
qed simp

lemma wired_targets:
  assumes "center_ok (r_center r)" "registered (r_center r) (dmp_id d)" "notify_on d"
    "\<And>t. served t \<Longrightarrow> center_targets (r_center r) (dmp_id d) t = {srv_addr sv}"
  shows "wired sv r d"
proof -
  have "sub_entry (subcribers (r_center r)) (dmp_id d) t = [srv_addr sv]" if "served t" for t
  proof -
    let ?xs = "sub_entry (subcribers (r_center r)) (dmp_id d) t"
    have "set ?xs = {srv_addr sv}" using assms(2,4) that by (simp add: center_targets_eq)
    moreover have "distinct ?xs" using assms(1) by (simp add: center_ok_def)
    ultimately have "length ?xs = 1" using distinct_card by fastforce
    with \<open>set ?xs = {srv_addr sv}\<close> show ?thesis by (cases ?xs) auto
  qed
  with assms(2,3) show ?thesis by (simp add: wired_def)
qed

lemma server_events_iff:
  "(p, t) \<in> set (server_events acc ids) \<longleftrightarrow> p = acc \<and> t = ACCEPTED \<or> p \<in> set ids \<and> served t"
  by (cases t) (auto simp: server_events_def)

text \<open>Construction and destruction balance. The constructor succeeds and makes the server
  the only subscriber of every event of its demultiplexers (so that a server without
  connections satisfies \<open>started\<close>); it registers no publisher, so its own identifier is
  announced only if some other object has registered the same one; and the destructor
  removes exactly the subscriptions the constructor made.\<close>

theorem server_wires_itself:
  assumes "center_ok (r_center r)"
    and "\<forall>d \<in> set ds. registered (r_center r) (dmp_id d) \<and> notify_on d"
    and "\<forall>d \<in> set ds. \<forall>t. served t \<longrightarrow> center_targets (r_center r) (dmp_id d) t = {}"
    and "\<forall>p t. self \<notin> center_targets (r_center r) p t"
  shows "\<exists>sv i' c'. make_server self acc (map dmp_id ds) i (r_center r) = Inr (sv, i', c') \<and>
    srv_addr sv = self \<and> (\<forall>d \<in> set ds. wired sv (r\<lparr>r_center := c'\<rparr>) d) \<and>
    registered c' = registered (r_center r) \<and>
    (\<exists>c''. destroy_server sv acc (map dmp_id ds) c' = Inr c'' \<and>
      center_targets c'' = center_targets (r_center r))"
proof -
  let ?ids = "map dmp_id ds"
  let ?ev = "server_events acc ?ids"
  obtain c' where c': "wire subscribe ?ev self (r_center r) = Inr c'"
      "registered c' = registered (r_center r)"
      "center_targets c' = (\<lambda>p t. if (p, t) \<in> set ?ev \<and> registered (r_center r) p
         then insert self (center_targets (r_center r) p t) else center_targets (r_center r) p t)"
    using bus.wire_sub by blast
  obtain c'' where c'': "wire unSubscribe ?ev self c' = Inr c''"
      "center_targets c'' = (\<lambda>p t. if (p, t) \<in> set ?ev \<and> registered c' p
         then center_targets c' p t - {self} else center_targets c' p t)"
    using bus.wire_unsub [of ?ev self c'] by blast
  obtain sid i1 pid i2 where ids: "sub_id Tcp_server_cc i = (sid, i1)" "pub_id Tcp_server_cc i1 = (pid, i2)"
    by (cases "sub_id Tcp_server_cc i", cases "pub_id Tcp_server_cc (snd (sub_id Tcp_server_cc i))") auto
  let ?sv = "\<lparr>srv_addr = self, srv_sub_id = sid, srv_pub_id = pid\<rparr>"
  have "make_server self acc ?ids i (r_center r) = Inr (?sv, i2, c')"
    using c'(1) ids by (simp add: make_server_def)
  moreover have "wired ?sv (r\<lparr>r_center := c'\<rparr>) d" if "d \<in> set ds" for d
    using that assms(2,3) c'(2,3) wire_subscribe_ok [OF c'(1) assms(1)]
    by (intro wired_targets) (auto simp: server_events_iff)
  moreover have "center_targets c'' = center_targets (r_center r)"
    using assms(4) c'(2,3) c''(2) by (auto simp: fun_eq_iff)
  ultimately show ?thesis
    using c'(2) c''(1) by (intro exI [of _ ?sv] exI [of _ i2] exI [of _ c']) (auto simp: destroy_server_def)
qed

theorem server_wires_itself_witness:
  "\<exists>sv i' c'. make_server 42 1 [0] fresh_ids
       \<lparr>publishers = [0 \<mapsto> 7], subcribers = Map.empty, traffic_map = Map.empty\<rparr> = Inr (sv, i', c') \<and>
     srv_addr sv = 42 \<and> \<not> registered c' 5"
proof -
  let ?c = "\<lparr>publishers = [0 \<mapsto> 7], subcribers = Map.empty, traffic_map = Map.empty\<rparr>"
  have "center_ok ?c" "\<forall>p t. center_targets ?c p t = {}" "registered ?c 0" "\<not> registered ?c 5"
    by (auto simp: center_ok_def sub_entry_def center_targets_eq registered_def)
  with server_wires_itself [of "demo_reactor\<lparr>r_center := ?c\<rparr>"
      "[\<lparr>dmp_id = 0, dmpfd = 4, notify_on = True\<rparr>]" 42 1 fresh_ids]
  show ?thesis by auto
qed

end
