(* ===== verification/Round_Robin.thy ===== *)
theory Round_Robin
  imports Prelude
begin

text \<open>
  Going round: the interface shared by the loop group, which hands descriptors to its
  demultiplexers, and the load balancer, which hands sockets to its backends. \<open>serve\<close> asks
  for the next element a number of times; the locale \<open>round_robin\<close> proves, from what one
  step does, which element each request gets and that no element gets more than one request
  more than another.
\<close>

section \<open>Residues in a run of numbers\<close>

definition residues :: "nat \<Rightarrow> nat \<Rightarrow> nat \<Rightarrow> nat list" where
  "residues p n k = map (\<lambda>i. (p + i) mod n) [0..<k]"

lemma length_residues [simp]: "length (residues p n k) = k"
  by (simp add: residues_def)

lemma residues_0 [simp]: "residues p n 0 = []"
  by (simp add: residues_def)

lemma nth_residues [simp]: "i < k \<Longrightarrow> residues p n k ! i = (p + i) mod n"
  by (simp add: residues_def)

lemma residues_add: "residues p n (k + m) = residues p n k @ residues (p + k) n m"
  by (rule nth_equalityI) (auto simp: nth_append)

lemma residues_Suc: "0 < n \<Longrightarrow> residues p n (Suc k) = p mod n # residues (Suc p mod n) n k"
  by (rule nth_equalityI) (auto simp: nth_Cons mod_simps split: nat.split)

lemma residues_period: "residues (p + n) n k = residues p n k"
  by (rule nth_equalityI) (simp_all add: add.assoc add.left_commute [of p n])

lemma residues_round: "residues p n n = rotate p [0..<n]"
  by (rule nth_equalityI) (simp_all add: nth_rotate)

lemma count_list_distinct: "distinct xs \<Longrightarrow> count_list xs x = (if x \<in> set xs then 1 else 0)"
  by (induction xs) auto

lemma count_round: "j < n \<Longrightarrow> count_list (residues p n n) j = 1"
  by (simp add: residues_round count_list_distinct)

lemma count_residues:
  "j < n \<Longrightarrow> k div n \<le> count_list (residues p n k) j \<and> count_list (residues p n k) j \<le> Suc (k div n)"
proof (induction k rule: less_induct)
  case (less k)
  show ?case
  proof (cases "k < n")
    case True
    then have "residues p n n = residues p n k @ residues (p + k) n (n - k)"
      using residues_add [of p n k "n - k"] by simp
    with count_round [OF less.prems, of p] True show ?thesis by simp
  next
    case False
    have "k = n + (k - n)" using False by simp
    then have "residues p n k = residues p n n @ residues p n (k - n)"
      using residues_add [of p n n "k - n"] by (simp add: residues_period)
    moreover have "k div n = Suc ((k - n) div n)" using False less.prems by (simp add: le_div_geq)
    ultimately show ?thesis using less.IH [of "k - n"] less.prems False count_round [of j n p] by simp
  qed
qed

section \<open>Serving requests in turn\<close>

fun serve :: "('s \<Rightarrow> ('b \<times> 's) result) \<Rightarrow> nat \<Rightarrow> 's \<Rightarrow> ('b list \<times> 's) result" where
  "serve step 0 s = Inr ([], s)"
| "serve step (Suc k) s =
     bindR (step s) (\<lambda>(b, s1). bindR (serve step k s1) (\<lambda>(bs, s2). Inr (b # bs, s2)))"

text \<open>
  \<open>ring\<close> is what is handed out in turn, \<open>cursor\<close> the next to be handed out, \<open>ok\<close> what a
  state must satisfy. A step hands out the element at the cursor and advances it.
\<close>

locale round_robin =
  fixes step :: "'s \<Rightarrow> ('b \<times> 's) result"
    and ring :: "'s \<Rightarrow> 'b list"
    and cursor :: "'s \<Rightarrow> nat"
    and ok :: "'s \<Rightarrow> bool"
  assumes cursor_law: "ok s \<Longrightarrow> cursor s < length (ring s)"
    and step_law: "ok s \<Longrightarrow> \<exists>s'. step s = Inr (ring s ! cursor s, s') \<and> ok s' \<and>
      ring s' = ring s \<and> cursor s' = Suc (cursor s) mod length (ring s)"
begin

lemma serve_ring:
  "ok s \<Longrightarrow> \<exists>s'. serve step k s =
      Inr (map ((!) (ring s)) (residues (cursor s) (length (ring s)) k), s') \<and>
    ok s' \<and> ring s' = ring s"
proof (induction k arbitrary: s)
  case 0
  then show ?case by simp
next
  case (Suc k)
  from cursor_law [OF Suc.prems] have c: "cursor s < length (ring s)" .
  from step_law [OF Suc.prems] obtain s1 where s1: "step s = Inr (ring s ! cursor s, s1)" "ok s1"
      "ring s1 = ring s" "cursor s1 = Suc (cursor s) mod length (ring s)"
    by blast
  from Suc.IH [OF s1(2)] s1(3,4) obtain s2 where
    "serve step k s1 = Inr (map ((!) (ring s)) (residues (Suc (cursor s) mod length (ring s)) (length (ring s)) k), s2)"
    "ok s2" "ring s2 = ring s"
    by auto
  moreover have "0 < length (ring s)" using c by linarith
  ultimately show ?case using s1(1) c by (simp add: residues_Suc)
qed

lemma serve_nth:
  assumes "ok s" "serve step k s = Inr (bs, s')" "i < k"
  shows "bs ! i = ring s ! ((cursor s + i) mod length (ring s))"
  using serve_ring [OF assms(1), of k] assms(2,3) by auto

lemma serve_fair:
  assumes "ok s" "serve step k s = Inr (bs, s')" "distinct (ring s)" "b \<in> set (ring s)"
  shows "k div length (ring s) \<le> count_list bs b \<and> count_list bs b \<le> Suc (k div length (ring s))"
proof -
  let ?n = "length (ring s)" and ?rs = "residues (cursor s) (length (ring s)) k"
  from assms(4) obtain j where j: "j < ?n" "ring s ! j = b" by (auto simp: in_set_conv_nth)
  have bs: "bs = map ((!) (ring s)) ?rs" using serve_ring [OF assms(1), of k] assms(2) by auto
  have range: "set ?rs \<subseteq> {..<?n}" using j(1) by (auto simp: residues_def intro: mod_less_divisor order_le_less_trans)
  have inj: "inj_on ((!) (ring s)) (insert j (set ?rs))"
    using range j(1) assms(3) by (intro inj_on_nth) auto
  have "count_list bs b = count_list ?rs j"
    using inj j(2) bs
    by (auto simp: count_list_eq_length_filter filter_map comp_def inj_on_def intro!: arg_cong [where f = length] filter_cong)
  with count_residues [OF j(1)] show ?thesis by simp
qed

end

end
