(* ===== verification/Loop_Group.thy ===== *)
theory Loop_Group
  imports Server_Run Round_Robin
begin

text \<open>
  The loops that drive the server: \<open>Acceptor\<close> (\<open>src/src/network/acceptor.hpp\<close>), the
  \<open>LoopThreadGroup\<close> of demultiplexers and their threads (\<open>group.hpp\<close>), and \<open>EventLoop\<close>
  (\<open>eventloop.hpp\<close>, \<open>eventloop.cc\<close>), which accepts and registers.
\<close>

section \<open>Acceptor\<close>

record acceptor =
  acc_id :: u16
  acc_server :: fd

text \<open>\<open>self\<close> is the object's address, \<open>sys_listen\<close> the system call.\<close>

definition make_acceptor ::
  "(fd \<Rightarrow> int \<Rightarrow> int) \<Rightarrow> nat \<Rightarrow> fd \<Rightarrow> tu \<Rightarrow> ids \<Rightarrow> center \<Rightarrow> (acceptor \<times> ids \<times> center) result" where
  "make_acceptor sys_listen self serverfd t i c =
     (let (ident, i') = pub_id t i in
      bindR (listen_fd sys_listen serverfd 50) (\<lambda>_.
      bindR (registerPub ident (Some self) c) (\<lambda>c'.
        Inr (\<lparr>acc_id = ident, acc_server = serverfd\<rparr>, i', c'))))"

definition destroy_acceptor :: "acceptor \<Rightarrow> center \<Rightarrow> center" where
  "destroy_acceptor a c = unRegisterPub (acc_id a) c"

definition acceptor_pubID :: "acceptor \<Rightarrow> u16" where
  "acceptor_pubID a = acc_id a"

text \<open>\<open>notify\<close> publishes \<open>ACCEPTED\<close> whatever event it is given.\<close>

definition acceptor_notify :: "'s notifier \<Rightarrow> acceptor \<Rightarrow> pub_type \<Rightarrow> ctx \<Rightarrow> 's \<Rightarrow> (ctx \<times> 's) result" where
  "acceptor_notify ntf a type x s = ntf (acc_id a) ACCEPTED x s"

interpretation acceptor_server: link acceptor_pubID "\<lambda>_. ACCEPTED" "\<lambda>_. True" acceptor_notify
  srv_addr server_subscribe
  by unfold_locales (simp add: acceptor_notify_def acceptor_pubID_def)

text \<open>\<open>ret\<close> is the answer of the system call.\<close>

definition acceptor_accept :: "int \<Rightarrow> fd result" where
  "acceptor_accept ret =
     (if ret < 0 then Inl (RuntimeError ''can not accept connection'') else Inr ret)"

section \<open>LoopThreadGroup\<close>

text \<open>
  The stop flag, the demultiplexers by number, for each thread whether its function has
  returned, the notify flag and the cursor (an index into the demultiplexers).
\<close>

record group =
  g_stop :: bool
  g_dmps :: "nat list"
  g_done :: "bool list"
  g_notify :: bool
  g_iter :: nat

definition make_group :: "bool \<Rightarrow> group" where
  "make_group notify =
     \<lparr>g_stop = False, g_dmps = [], g_done = [], g_notify = notify, g_iter = 0\<rparr>"

text \<open>
  \<open>init\<close>: \<open>news\<close> gives the address and the epoll instance of each demultiplexer made.
\<close>

fun init_loop :: "(nat \<times> int) list \<Rightarrow> ids \<Rightarrow> group \<Rightarrow> reactor \<Rightarrow> (ids \<times> group \<times> reactor) result" where
  "init_loop [] i g r = Inr (i, g, r)"
| "init_loop ((self, epfd) # news) i g r =
     bindR (make_demux epfd self i (r_center r)) (\<lambda>(d, i', c').
       init_loop news i' (g\<lparr>g_dmps := g_dmps g @ [self], g_done := g_done g @ [False]\<rparr>)
         (r\<lparr>r_center := c', r_dmps := (r_dmps r)(self \<mapsto> d)\<rparr>))"

definition group_init :: "int \<Rightarrow> (nat \<times> int) list \<Rightarrow> ids \<Rightarrow> group \<Rightarrow> reactor \<Rightarrow> (ids \<times> group \<times> reactor) result"
  where "group_init n news i g r =
     (if n < 1 then Inl AssertFailed
      else bindR (init_loop (take (nat n) news) i g r) (\<lambda>(i', g', r').
        Inr (i', g'\<lparr>g_iter := 0\<rparr>, r')))"

text \<open>The locked part of \<open>registerFd\<close>: the demultiplexer at the cursor, the cursor advanced.\<close>

definition next_dmp :: "group \<Rightarrow> (nat \<times> group) result" where
  "next_dmp g =
     (if g_iter g < length (g_dmps g)
      then Inr (g_dmps g ! g_iter g,
                g\<lparr>g_iter := (if Suc (g_iter g) = length (g_dmps g) then 0 else Suc (g_iter g))\<rparr>)
      else Inl DebugAbort)"

definition registerFd :: "env \<Rightarrow> server \<Rightarrow> fd \<Rightarrow> group \<Rightarrow> reactor \<Rightarrow> (group \<times> reactor) result" where
  "registerFd e sv f g r =
     bindR (next_dmp g) (\<lambda>(n, g').
       case r_dmps r n of
         None \<Rightarrow> Inl UseAfterFree
       | Some d \<Rightarrow> bindR (server_accept e sv n d f r) (\<lambda>r'. Inr (g', r')))"

definition group_dmp :: "group \<Rightarrow> nat list" where
  [simp]: "group_dmp g = g_dmps g"

text \<open>\<open>joinAll\<close> returns once every thread has; \<open>None\<close> is that it is still waiting.\<close>

definition joinAll :: "group \<Rightarrow> group option" where
  "joinAll g = (if list_all (\<lambda>b. b) (g_done g) then Some g else None)"

definition destroy_group :: "group \<Rightarrow> group option" where
  "destroy_group g = joinAll g"

definition group_stop :: "group \<Rightarrow> group" where
  "group_stop g = g\<lparr>g_stop := True\<rparr>"

text \<open>
  One round of thread \<open>k\<close>'s loop in \<open>run\<close>: \<open>eps\<close> is what its wait delivers, \<open>dm\<close> the
  demultiplexers there are. Whoever hears the delivery runs on the state \<open>'s\<close>, by \<open>ntf\<close>.
\<close>

definition run_round :: "'s notifier \<Rightarrow> (nat \<Rightarrow> demux option) \<Rightarrow> nat \<Rightarrow> resp list \<Rightarrow> group \<Rightarrow> 's \<Rightarrow> (group \<times> 's) result"
  where [simp]: "run_round ntf dm k eps g s =
     (if length (g_dmps g) \<le> k \<or> length (g_done g) \<le> k \<or> g_done g ! k then Inr (g, s)
      else if g_stop g then Inr (g\<lparr>g_done := (g_done g)[k := True]\<rparr>, s)
      else case dm (g_dmps g ! k) of
             None \<Rightarrow> Inl UseAfterFree
           | Some d \<Rightarrow>
               bindR (demultiplexWait ntf d (make_DmpWaitContext (pub_code DMPWAIT)) (g_notify g) eps s)
                 (\<lambda>(_, s'). Inr (g, s')))"

definition thread_round :: "env \<Rightarrow> server \<Rightarrow> nat \<Rightarrow> resp list \<Rightarrow> group \<Rightarrow> reactor \<Rightarrow> (group \<times> reactor) result"
  where "thread_round e sv k eps g r = run_round (server_ntf depth e sv) (r_dmps r) k eps g r"

section \<open>EventLoop\<close>

record event_loop =
  el_stop :: bool
  el_group :: group

definition make_event_loop ::
  "int \<Rightarrow> (nat \<times> int) list \<Rightarrow> ids \<Rightarrow> reactor \<Rightarrow> (ids \<times> event_loop \<times> reactor) result" where
  "make_event_loop subloop news i r =
     bindR (group_init subloop news i (make_group True) r) (\<lambda>(i', g, r').
       Inr (i', \<lparr>el_stop = False, el_group = g\<rparr>, r'))"

text \<open>What \<open>catch (std::exception &)\<close> catches; the other failures are not exceptions.\<close>

fun caught :: "cxx_error \<Rightarrow> bool" where
  "caught (LogicError _) = True"
| "caught (RuntimeError _) = True"
| "caught OutOfRange = True"
| "caught LengthError = True"
| "caught _ = False"

text \<open>
  One round of \<open>loop\<close>, \<open>ret\<close> being the answer of \<open>accept\<close>. An exception is swallowed; the
  only one that can occur here is the acceptor's, before anything has changed.
\<close>

definition loop_round :: "env \<Rightarrow> server \<Rightarrow> int \<Rightarrow> event_loop \<Rightarrow> reactor \<Rightarrow> (event_loop \<times> reactor) result"
  where "loop_round e sv ret el r =
     (if el_stop el then Inr (el, r)
      else case bindR (acceptor_accept ret) (\<lambda>f. registerFd e sv f (el_group el) r) of
             Inr (g, r') \<Rightarrow> Inr (el\<lparr>el_group := g\<rparr>, r')
           | Inl err \<Rightarrow> if caught err then Inr (el, r) else Inl err)"

fun loop :: "env \<Rightarrow> server \<Rightarrow> int list \<Rightarrow> event_loop \<Rightarrow> reactor \<Rightarrow> (event_loop \<times> reactor) result" where
  "loop e sv [] el r = Inr (el, r)"
| "loop e sv (ret # rets) el r =
     bindR (loop_round e sv ret el r) (\<lambda>(el', r'). loop e sv rets el' r')"

text \<open>
  \<open>stop\<close> and the destructor set the flag and join the group's threads: what they set, and
  whether they have returned.
\<close>

definition event_loop_stop :: "event_loop \<Rightarrow> event_loop" where
  "event_loop_stop el = el\<lparr>el_stop := True\<rparr>"

definition stop_returned :: "event_loop \<Rightarrow> bool" where
  "stop_returned el \<longleftrightarrow> joinAll (el_group el) \<noteq> None"

definition dmpForLoopGroup :: "event_loop \<Rightarrow> nat list" where
  [simp]: "dmpForLoopGroup el = group_dmp (el_group el)"

text \<open>The server's \<open>start\<close> is the loop, \<open>rets\<close> being the answers of its calls of \<open>accept\<close>.\<close>

definition server_start :: "env \<Rightarrow> server \<Rightarrow> int list \<Rightarrow> event_loop \<Rightarrow> reactor \<Rightarrow> (event_loop \<times> reactor) result" where
  "server_start e sv rets el r = loop e sv rets el r"

section \<open>Going round the demultiplexers\<close>

definition group_ok :: "group \<Rightarrow> bool" where
  "group_ok g \<longleftrightarrow> g_iter g < length (g_dmps g)"

lemma wrap_Suc: "i < n \<Longrightarrow> (if Suc i = n then 0 else Suc i) = Suc i mod n"
  by (auto simp: mod_less)

interpretation dmps: round_robin next_dmp g_dmps g_iter group_ok
proof unfold_locales
  fix g assume "group_ok g"
  then show "g_iter g < length (g_dmps g)" by (simp add: group_ok_def)
next
  fix g assume ok: "group_ok g"
  then show "\<exists>g'. next_dmp g = Inr (g_dmps g ! g_iter g, g') \<and> group_ok g' \<and> g_dmps g' = g_dmps g \<and>
      g_iter g' = Suc (g_iter g) mod length (g_dmps g)"
    by (auto simp: group_ok_def next_dmp_def wrap_Suc [symmetric])
qed

text \<open>The demultiplexer a descriptor's connection is on.\<close>

definition on_dmp :: "reactor \<Rightarrow> fd \<Rightarrow> nat option" where
  "on_dmp r f = (case conn_map r f of None \<Rightarrow> None | Some c \<Rightarrow> chan_dmp (chan c))"

lemma accept_step:
  assumes "server_reach sv r" "r_dmps r n = Some d" "conn_map r f = None" "e_debug e"
  shows "\<exists>r'. server_accept e sv n d f r = Inr r' \<and> server_reach sv r' \<and> r_dmps r' = r_dmps r \<and>
    dom (conn_map r') = insert f (dom (conn_map r)) \<and> on_dmp r' = (on_dmp r)(f \<mapsto> n) \<and>
    (\<exists>c. conn_map r' = (conn_map r)(f \<mapsto> c) \<and> addr c = e_peer e f) \<and>
    r_center r' = account (toString (e_peer e f)) 0 (r_center r) \<and>
    outbox r' = outbox r \<and> publishers (r_center r') = publishers (r_center r) \<and>
    subcribers (r_center r') = subcribers (r_center r)"
proof -
  have "reactor_ok sv r" using server_reach_inv [OF assms(1)] by (simp add: server_inv_def)
  from server_accept_ok [OF this assms(2-4)] obtain r' c where r': "server_accept e sv n d f r = Inr r'"
      "conn_map r' = (conn_map r)(f \<mapsto> c)" "r_dmps r' = r_dmps r" "chan c = make_channel f (Some n)"
      "outbox r' = outbox r" "publishers (r_center r') = publishers (r_center r)"
      "subcribers (r_center r') = subcribers (r_center r)" "addr c = e_peer e f"
      "r_center r' = account (toString (e_peer e f)) 0 (r_center r)"
    by blast
  have "server_step sv r r'"
    using server_step.step [of r "Accept e n f" sv r'] assms(2-4) r'(1) by simp
  with assms(1) have "server_reach sv r'" by (rule server_reach.next_step)
  moreover have "on_dmp r' = (on_dmp r)(f \<mapsto> n)"
    using r'(2,4) by (auto simp: on_dmp_def fun_eq_iff make_channel_def)
  ultimately show ?thesis using r' by (intro exI [of _ r']) (simp, blast)
qed

lemma loop_serves:
  assumes "server_reach sv r" "group_ok (el_group el)" "\<not> el_stop el" "e_debug e"
    "\<forall>a \<in> set (g_dmps (el_group el)). r_dmps r a \<noteq> None"
    "distinct (filter ((\<le>) 0) rets)" "set (filter ((\<le>) 0) rets) \<inter> dom (conn_map r) = {}"
  shows "\<exists>el' r' as g'. loop e sv rets el r = Inr (el', r') \<and> server_reach sv r' \<and>
    serve next_dmp (length (filter ((\<le>) 0) rets)) (el_group el) = Inr (as, g') \<and>
    map (on_dmp r') (filter ((\<le>) 0) rets) = map Some as \<and>
    (\<forall>f. f \<notin> set (filter ((\<le>) 0) rets) \<longrightarrow> on_dmp r' f = on_dmp r f) \<and>
    dom (conn_map r') = dom (conn_map r) \<union> set (filter ((\<le>) 0) rets)"
  using assms
proof (induction rets arbitrary: el r)
  case Nil
  then show ?case by simp
next
  case (Cons ret rets)
  show ?case
  proof (cases "0 \<le> ret")
    case False
    then have "loop_round e sv ret el r = Inr (el, r)"
      using Cons.prems(3) by (simp add: loop_round_def acceptor_accept_def)
    with False Cons.IH [OF Cons.prems(1-5)] Cons.prems(6,7) show ?thesis by simp
  next
    case True
    let ?g = "el_group el"
    from dmps.step_law [OF Cons.prems(2)] obtain g1 where g1: "next_dmp ?g = Inr (g_dmps ?g ! g_iter ?g, g1)"
        "group_ok g1" "g_dmps g1 = g_dmps ?g"
      by blast
    let ?a = "g_dmps ?g ! g_iter ?g"
    have "?a \<in> set (g_dmps ?g)" using Cons.prems(2) by (simp add: group_ok_def)
    with Cons.prems(5) obtain d where d: "r_dmps r ?a = Some d" by blast
    have fresh: "conn_map r ret = None" using True Cons.prems(7) by auto
    from accept_step [OF Cons.prems(1) d fresh Cons.prems(4)] obtain r1 where
      r1: "server_accept e sv ?a d ret r = Inr r1" "server_reach sv r1" "r_dmps r1 = r_dmps r"
        "dom (conn_map r1) = insert ret (dom (conn_map r))" "on_dmp r1 = (on_dmp r)(ret \<mapsto> ?a)"
      by blast
    let ?el = "el\<lparr>el_group := g1\<rparr>"
    have round: "loop_round e sv ret el r = Inr (?el, r1)"
      using True Cons.prems(3) g1(1) d r1(1)
      by (simp add: loop_round_def acceptor_accept_def registerFd_def)
    have "set (filter ((\<le>) 0) rets) \<inter> dom (conn_map r1) = {}" "distinct (filter ((\<le>) 0) rets)"
      "ret \<notin> set (filter ((\<le>) 0) rets)"
      using Cons.prems(6,7) r1(4) True by auto
    with Cons.IH [OF r1(2), of ?el] g1 Cons.prems(3-5) r1(3)
    obtain el' r' as g' where rest: "loop e sv rets ?el r1 = Inr (el', r')" "server_reach sv r'"
        "serve next_dmp (length (filter ((\<le>) 0) rets)) g1 = Inr (as, g')"
        "map (on_dmp r') (filter ((\<le>) 0) rets) = map Some as"
        "\<forall>f. f \<notin> set (filter ((\<le>) 0) rets) \<longrightarrow> on_dmp r' f = on_dmp r1 f"
        "dom (conn_map r') = dom (conn_map r1) \<union> set (filter ((\<le>) 0) rets)"
      by auto
    have "on_dmp r' ret = Some ?a"
      using rest(5) r1(5) \<open>ret \<notin> set (filter ((\<le>) 0) rets)\<close> by simp
    then show ?thesis
      using True round rest r1(4,5) g1(1)
      by (intro exI [of _ el'] exI [of _ r'] exI [of _ "?a # as"] exI [of _ g']) auto
  qed
qed

text \<open>C20. The accept loop spreads the clients evenly. Whatever the answers of \<open>accept\<close> (the
  failed ones are passed over), the loop handles them all; every accepted descriptor gets a
  connection, the \<open>j\<close>-th accepted on the demultiplexer \<open>j\<close> places after the cursor, round
  and round, so each demultiplexer receives the same number of them up to one.\<close>

theorem loop_spreads:
  assumes "server_reach sv r" "group_ok (el_group el)" "\<not> el_stop el" "e_debug e"
    and "\<forall>a \<in> set (g_dmps (el_group el)). r_dmps r a \<noteq> None" "distinct (g_dmps (el_group el))"
    and "fs = filter ((\<le>) 0) rets" "distinct fs" "set fs \<inter> dom (conn_map r) = {}"
  shows "\<exists>el' r'. loop e sv rets el r = Inr (el', r') \<and> server_reach sv r' \<and>
    dom (conn_map r') = dom (conn_map r) \<union> set fs \<and>
    (\<forall>j < length fs. on_dmp r' (fs ! j) =
       Some (g_dmps (el_group el) ! ((g_iter (el_group el) + j) mod length (g_dmps (el_group el))))) \<and>
    (\<forall>a \<in> set (g_dmps (el_group el)).
       length fs div length (g_dmps (el_group el)) \<le> count_list (map (on_dmp r') fs) (Some a) \<and>
       count_list (map (on_dmp r') fs) (Some a) \<le> Suc (length fs div length (g_dmps (el_group el))))"
proof -
  let ?g = "el_group el"
  obtain el' r' as g' where run: "loop e sv rets el r = Inr (el', r')" "server_reach sv r'"
      "serve next_dmp (length fs) ?g = Inr (as, g')" "map (on_dmp r') fs = map Some as"
      "dom (conn_map r') = dom (conn_map r) \<union> set fs"
    using loop_serves [OF assms(1-5)] assms(7-9) by blast
  have len: "length as = length fs" using arg_cong [OF run(4), of length] by simp
  have "on_dmp r' (fs ! j) = Some (g_dmps ?g ! ((g_iter ?g + j) mod length (g_dmps ?g)))"
    if "j < length fs" for j
    using dmps.serve_nth [OF assms(2) run(3) that] arg_cong [OF run(4), of "\<lambda>xs. xs ! j"] that len
    by simp
  moreover have "count_list (map Some as) (Some a) = count_list as a" for a
    by (induction as) auto
  ultimately show ?thesis
    using run dmps.serve_fair [OF assms(2) run(3) assms(6)] by auto
qed

definition demo_group :: group where
  "demo_group = \<lparr>g_stop = False, g_dmps = [0], g_done = [False], g_notify = True, g_iter = 0\<rparr>"

theorem loop_spreads_witness:
  "\<exists>el' r'. loop demo_env demo_server [-1, 7, 9] \<lparr>el_stop = False, el_group = demo_group\<rparr>
       demo_reactor = Inr (el', r') \<and> on_dmp r' 9 = Some 0 \<and> dom (conn_map r') = {7, 9}"
proof -
  have c: "conn_map demo_reactor = Map.empty" "e_debug demo_env"
    "\<forall>a \<in> set (g_dmps demo_group). r_dmps demo_reactor a \<noteq> None" "group_ok demo_group"
    "distinct (g_dmps demo_group)"
    by (simp_all add: demo_reactor_def demo_env_def demo_group_def group_ok_def)
  from loop_spreads [OF server_reach.start [OF demo_started],
      of "\<lparr>el_stop = False, el_group = demo_group\<rparr>" demo_env "[7, 9]" "[-1, 7, 9]"] c
  obtain el' r' where "loop demo_env demo_server [-1, 7, 9] \<lparr>el_stop = False, el_group = demo_group\<rparr>
      demo_reactor = Inr (el', r')" "dom (conn_map r') = {7, 9}"
      "\<forall>j < length [7 :: int, 9]. on_dmp r' ([7, 9] ! j) =
        Some (g_dmps demo_group ! ((g_iter demo_group + j) mod length (g_dmps demo_group)))"
    by auto
  moreover from this(3) have "on_dmp r' 9 = Some 0"
    by (auto simp: demo_group_def dest: spec [of _ "1 :: nat"])
  ultimately show ?thesis by blast
qed

section \<open>Stopping\<close>

text \<open>What happens once the event loop is built: rounds of its loop, of its threads, a stop.\<close>

datatype loop_event =
    MainRound env int
  | ThreadRound env nat "resp list"
  | StopCalled

fun loop_do :: "server \<Rightarrow> loop_event \<Rightarrow> event_loop \<times> reactor \<Rightarrow> (event_loop \<times> reactor) result" where
  "loop_do sv (MainRound e ret) (el, r) = loop_round e sv ret el r"
| "loop_do sv (ThreadRound e k eps) (el, r) =
     bindR (thread_round e sv k eps (el_group el) r) (\<lambda>(g, r'). Inr (el\<lparr>el_group := g\<rparr>, r'))"
| "loop_do sv StopCalled (el, r) = Inr (event_loop_stop el, r)"

fun loop_run :: "server \<Rightarrow> loop_event list \<Rightarrow> event_loop \<times> reactor \<Rightarrow> (event_loop \<times> reactor) result" where
  "loop_run sv [] s = Inr s"
| "loop_run sv (ev # evs) s = bindR (loop_do sv ev s) (loop_run sv evs)"

definition running :: "group \<Rightarrow> bool" where
  "running g \<longleftrightarrow> \<not> g_stop g \<and> g_done g \<noteq> [] \<and> list_all Not (g_done g)"

lemma init_loop_running:
  "init_loop news i g r = Inr (i', g', r') \<Longrightarrow>
   g_stop g' = g_stop g \<and> g_done g' = g_done g @ replicate (length news) False"
  by (induction news i g r rule: init_loop.induct) (auto simp: result_simps replicate_app_Cons_same)

lemma next_dmp_frame: "next_dmp g = Inr (n, g') \<Longrightarrow> g_stop g' = g_stop g \<and> g_done g' = g_done g"
  by (auto simp: next_dmp_def split: if_splits)

lemma loop_do_running:
  "loop_do sv ev (el, r) = Inr (el', r') \<Longrightarrow> running (el_group el) \<Longrightarrow> running (el_group el')"
  by (cases ev) (auto simp: loop_round_def registerFd_def thread_round_def running_def
      event_loop_stop_def result_simps list_all_length
      dest!: next_dmp_frame split: if_splits sum.splits option.splits)

lemma loop_run_running:
  "loop_run sv evs (el, r) = Inr (el', r') \<Longrightarrow> running (el_group el) \<Longrightarrow> running (el_group el')"
proof (induction evs arbitrary: el r)
  case (Cons ev evs)
  from Cons.prems(1) obtain el1 r1 where "loop_do sv ev (el, r) = Inr (el1, r1)"
      "loop_run sv evs (el1, r1) = Inr (el', r')"
    by (auto simp: result_simps)
  with Cons.IH loop_do_running Cons.prems(2) show ?case by blast
qed simp

text \<open>Stopping an event loop never returns. From the loop's construction on, whatever
  its own rounds, those of its threads and the calls of \<open>stop\<close> (also the destructor's) do,
  in any order, no thread of the group has returned, so the join in \<open>stop\<close> is still
  waiting: the flag it sets is the loop's own, and nothing sets the group's.\<close>

theorem event_loop_stop_blocks:
  assumes "make_event_loop subloop news i r0 = Inr (i', el, r)" "int (length news) \<ge> subloop"
    and "loop_run sv evs (el, r) = Inr (el', r')"
  shows "\<not> stop_returned (event_loop_stop el')"
proof -
  from assms(1) obtain g1 where sub: "\<not> subloop < 1"
      and g1: "init_loop (take (nat subloop) news) i (make_group True) r0 = Inr (i', g1, r)"
      and el: "el_group el = g1\<lparr>g_iter := 0\<rparr>"
    by (auto simp: make_event_loop_def group_init_def result_simps split: if_splits)
  have "length (take (nat subloop) news) = nat subloop" using assms(2) by simp
  moreover have "nat subloop > 0" using sub by simp
  ultimately have "running (el_group el)"
    using init_loop_running [OF g1] el by (simp add: running_def make_group_def list_all_length)
  then have run: "running (el_group el')" by (rule loop_run_running [OF assms(3)])
  then obtain b bs where "g_done (el_group el') = b # bs" "\<not> b"
    by (cases "g_done (el_group el')") (auto simp: running_def)
  then show ?thesis by (simp add: stop_returned_def event_loop_stop_def joinAll_def)
qed

theorem event_loop_stop_blocks_witness:
  "\<exists>i' el r. make_event_loop 1 [(3, 4)] fresh_ids (demo_reactor\<lparr>r_center := new_center\<rparr>) = Inr (i', el, r) \<and>
     \<not> stop_returned (event_loop_stop el)"
proof -
  obtain i' el r where m: "make_event_loop 1 [(3, 4)] fresh_ids (demo_reactor\<lparr>r_center := new_center\<rparr>) = Inr (i', el, r)"
    by (cases "pub_id Demultiplex_cc fresh_ids")
      (auto simp: make_event_loop_def group_init_def make_demux_def registerPub_def)
  from event_loop_stop_blocks [OF m, of demo_server "[]"] m show ?thesis by auto
qed

end
