(* ===== verification/Loader.thy ===== *)
theory Loader
  imports Server_Run Round_Robin "HOL-Library.Multiset"
begin

text \<open>
  \<open>LoadBalancer\<close> (\<open>src/src/proxy/loader.hpp\<close>, \<open>loader.cc\<close>): the backends, the queue of
  batches of client sockets the server hands over, the loop that assigns each socket a
  backend and publishes the assignment, and the health check.
\<close>

section \<open>State\<close>

text \<open>
  \<open>backend_\<close> and \<open>checked_\<close> are hash maps, kept as the lists of their entries in iteration
  order. Where an insertion puts an entry, and whether it reorders the others, is the
  library's business: \<open>arr\<close> is the order of the keys after it, a permutation of them.
\<close>

record balancer =
  lb_addr :: nat
  lb_pub :: u16
  lb_sub :: u16
  backend :: "(string \<times> inet_addr) list"
  lb_stop :: bool
  lb_sockes :: "fd list"
  sock_queue :: "fd list list"
  checked :: "(string \<times> u16) list"
  check_text :: string

type_synonym arrangement = "string list \<Rightarrow> string list"

definition hash_emplace :: "arrangement \<Rightarrow> string \<Rightarrow> 'v \<Rightarrow> (string \<times> 'v) list \<Rightarrow> (string \<times> 'v) list" where
  "hash_emplace arr k v xs =
     (if k \<in> fst ` set xs then xs
      else map (\<lambda>q. (q, the (map_of ((k, v) # xs) q))) (arr (k # map fst xs)))"

definition hash_erase :: "string \<Rightarrow> (string \<times> 'v) list \<Rightarrow> (string \<times> 'v) list" where
  "hash_erase k xs = filter (\<lambda>e. fst e \<noteq> k) xs"

definition make_balancer :: "nat \<Rightarrow> ids \<Rightarrow> center \<Rightarrow> (balancer \<times> ids \<times> center) result" where
  "make_balancer self i c =
     (let (pid, i1) = pub_id Loader_cc i; (sid, i2) = sub_id Loader_cc i1 in
      bindR (registerPub pid (Some self) c) (\<lambda>c'.
        Inr (\<lparr>lb_addr = self, lb_pub = pid, lb_sub = sid, backend = [], lb_stop = False,
              lb_sockes = [], sock_queue = [], checked = [], check_text = []\<rparr>, i2, c')))"

definition lb_set_stop :: "balancer \<Rightarrow> balancer" where
  "lb_set_stop lb = lb\<lparr>lb_stop := True\<rparr>"

definition destroy_balancer :: "balancer \<Rightarrow> center \<Rightarrow> balancer \<times> center" where
  "destroy_balancer lb c = (lb_set_stop lb, unRegisterPub (lb_pub lb) c)"

definition updateForLoadbalance :: "ctx \<Rightarrow> balancer \<Rightarrow> (ctx \<times> balancer) result" where
  "updateForLoadbalance x lb =
     bindR (as_balance x) (\<lambda>socks.
       Inr (LoadBalanceCtx (event_type x) [], lb\<lparr>sock_queue := sock_queue lb @ [socks]\<rparr>))"

definition lb_update :: "ctx \<Rightarrow> balancer \<Rightarrow> (ctx \<times> balancer) result" where
  "lb_update x lb =
     (if event_type x = pub_code BALANCE then updateForLoadbalance x lb else Inr (x, lb))"

definition lb_pubID :: "balancer \<Rightarrow> u16" where
  "lb_pubID lb = lb_pub lb"

definition lb_subID :: "balancer \<Rightarrow> u16" where
  "lb_subID lb = lb_sub lb"

text \<open>\<open>notify\<close> publishes \<open>FORWARD\<close> whatever event it is given.\<close>

definition lb_notify :: "'s notifier \<Rightarrow> balancer \<Rightarrow> pub_type \<Rightarrow> ctx \<Rightarrow> 's \<Rightarrow> (ctx \<times> 's) result" where
  "lb_notify ntf lb type x s = ntf (lb_pub lb) FORWARD x s"

definition lb_subscribe :: "balancer \<Rightarrow> u16 \<Rightarrow> pub_type \<Rightarrow> center \<Rightarrow> center result" where
  "lb_subscribe lb pubID type c = subscribe pubID type (Some (lb_addr lb)) c"

interpretation server_balancer: link server_pubID "\<lambda>_. BALANCE" "\<lambda>_. True" server_notify lb_addr lb_subscribe
  by unfold_locales (simp add: lb_subscribe_def subscribe_meets_law)

interpretation lb_pub_role: publisher lb_pubID "\<lambda>_. FORWARD" "\<lambda>_. True" lb_notify
  by unfold_locales (simp add: lb_notify_def lb_pubID_def)

section \<open>Backends\<close>

definition addBackend :: "arrangement \<Rightarrow> arrangement \<Rightarrow> inet_addr \<Rightarrow> u16 \<Rightarrow> balancer \<Rightarrow> balancer" where
  "addBackend arr1 arr2 a check_port lb =
     (let str = toString a in
      lb\<lparr>backend := hash_emplace arr1 str a (backend lb),
         checked := hash_emplace arr2 str check_port (checked lb)\<rparr>)"

definition removeBackend :: "inet_addr \<Rightarrow> balancer \<Rightarrow> balancer" where
  "removeBackend a lb =
     (if toString a \<notin> fst ` set (backend lb) then lb
      else lb\<lparr>backend := hash_erase (toString a) (backend lb)\<rparr>)"

definition specifyCheckText :: "string \<Rightarrow> balancer \<Rightarrow> balancer" where
  "specifyCheckText t lb = lb\<lparr>check_text := t\<rparr>"

section \<open>The health check\<close>

text \<open>
  The kernel's answers while one backend is checked, each by the value of \<open>time\<close> at the
  attempt: of \<open>socket\<close> and \<open>connect\<close>, of \<open>write\<close>, and the bytes of \<open>buf\<close> after \<open>recv\<close>.
\<close>

record probe =
  p_connect :: "nat \<Rightarrow> int \<times> int"
  p_write :: "nat \<Rightarrow> int"
  p_recv :: "nat \<Rightarrow> string"

text \<open>The three loops: the socket, and the value of \<open>time\<close> the other two end with.\<close>

fun connect_tries :: "probe \<Rightarrow> nat \<Rightarrow> fd result" where
  "connect_tries p 0 = Inr 0"
| "connect_tries p (Suc t) =
     bindR (connectTo (fst (p_connect p (Suc t))) (snd (p_connect p (Suc t)))) (\<lambda>sock.
       if sock > 0 \<or> t = 0 then Inr sock else connect_tries p t)"

fun write_tries :: "probe \<Rightarrow> u64 \<Rightarrow> nat \<Rightarrow> int" where
  "write_tries p len 0 = 0"
| "write_tries p len (Suc t) =
     (if word_of_int (p_write p (Suc t)) = len then int (Suc t) else write_tries p len t)"

text \<open>\<open>text_ == buf\<close> reads \<open>buf\<close> up to a NUL, past its end when it has none.\<close>

fun recv_tries :: "probe \<Rightarrow> string \<Rightarrow> nat \<Rightarrow> int result" where
  "recv_tries p text 0 = Inr 0"
| "recv_tries p text (Suc t) =
     (let buf = p_recv p (Suc t) in
      if CHR 0x00 \<notin> set buf then Inl OutOfBounds
      else if text = c_str buf then Inr (int (Suc t)) else recv_tries p text t)"

definition check_one :: "probe \<Rightarrow> string \<times> u16 \<Rightarrow> balancer \<Rightarrow> balancer result" where
  "check_one p kp lb =
     (case map_of (backend lb) (fst kp) of
        None \<Rightarrow> Inl OutOfRange
      | Some a \<Rightarrow>
          bindR (connect_tries p 3) (\<lambda>sock.
          if sock < 0 then Inr (lb\<lparr>backend := hash_erase (fst kp) (backend lb)\<rparr>)
          else if write_tries p (word_of_nat (length (check_text lb))) 3 < 0
          then Inr (lb\<lparr>backend := hash_erase (fst kp) (backend lb)\<rparr>)
          else bindR (recv_tries p (check_text lb) 3) (\<lambda>time.
            if time < 0 then Inr (lb\<lparr>backend := hash_erase (fst kp) (backend lb)\<rparr>)
            else Inr lb)))"

text \<open>\<open>ps\<close> gives the answers for each backend, by its key.\<close>

fun check_loop :: "(string \<Rightarrow> probe) \<Rightarrow> (string \<times> u16) list \<Rightarrow> balancer \<Rightarrow> balancer result" where
  "check_loop ps [] lb = Inr lb"
| "check_loop ps (kp # kps) lb = bindR (check_one (ps (fst kp)) kp lb) (check_loop ps kps)"

definition checkAllBackend :: "(string \<Rightarrow> probe) \<Rightarrow> balancer \<Rightarrow> balancer result" where
  "checkAllBackend ps lb = check_loop ps (checked lb) lb"

section \<open>Balancing\<close>

text \<open>The iterator's round: the backend it points at, and the iterator advanced.\<close>

definition bal_next :: "(string \<times> inet_addr) list \<times> nat \<Rightarrow>
    (inet_addr \<times> (string \<times> inet_addr) list \<times> nat) result" where
  "bal_next s =
     (if snd s < length (fst s)
      then Inr (snd (fst s ! snd s),
                (fst s, if Suc (snd s) = length (fst s) then 0 else Suc (snd s)))
      else Inl DebugAbort)"

text \<open>\<open>sock_map\<close> is the list of its entries, in the order they were inserted.\<close>

fun balance_loop :: "(string \<times> inet_addr) list \<times> nat \<Rightarrow> fd list \<Rightarrow> (fd \<times> inet_addr) list \<Rightarrow>
    (fd \<times> inet_addr) list result" where
  "balance_loop s [] m = Inr m"
| "balance_loop s (sock # socks) m =
     bindR (bal_next s) (\<lambda>(b, s').
       balance_loop s' socks (if sock \<in> fst ` set m then m else m @ [(sock, b)]))"

definition balancing :: "balancer \<Rightarrow> fd list \<Rightarrow> (fd \<times> inet_addr) list result" where
  "balancing lb socks = balance_loop (backend lb, 0) socks []"

text \<open>
  \<open>loadbalance\<close> as the steps of its thread: at the loop's head, spinning on the empty queue,
  or returned. A step yields the context it notifies, if any; \<open>arr\<close> is the order in which
  the hash table of the assignment is iterated.
\<close>

datatype lb_pc = LoopHead | Spinning | Finished

definition lb_serve :: "((fd \<times> inet_addr) list \<Rightarrow> (fd \<times> inet_addr) list) \<Rightarrow> fd list \<Rightarrow> fd list list \<Rightarrow>
    balancer \<Rightarrow> (ctx \<times> balancer) result" where
  "lb_serve arr socks rest lb =
     (let lb1 = lb\<lparr>lb_sockes := socks, sock_queue := rest\<rparr> in
      bindR (balancing lb1 (lb_sockes lb1)) (\<lambda>m.
        Inr (ForwardContext (pub_code FORWARD) (arr m), lb1)))"

fun loadbalance :: "((fd \<times> inet_addr) list \<Rightarrow> (fd \<times> inet_addr) list) \<Rightarrow> lb_pc \<times> balancer \<Rightarrow>
    (ctx option \<times> lb_pc \<times> balancer) result" where
  "loadbalance arr (LoopHead, lb) = Inr (None, if lb_stop lb then Finished else Spinning, lb)"
| "loadbalance arr (Spinning, lb) =
     (case sock_queue lb of
        [] \<Rightarrow> Inr (None, Spinning, lb)
      | socks # rest \<Rightarrow> bindR (lb_serve arr socks rest lb) (\<lambda>(x, lb'). Inr (Some x, LoopHead, lb')))"
| "loadbalance arr (Finished, lb) = Inr (None, Finished, lb)"

section \<open>The backends in turn\<close>

interpretation backends: round_robin bal_next "\<lambda>s. map snd (fst s)" snd "\<lambda>s. snd s < length (fst s)"
proof unfold_locales
  fix s :: "(string \<times> inet_addr) list \<times> nat"
  assume "snd s < length (fst s)"
  then show "snd s < length (map snd (fst s))" by simp
next
  fix s :: "(string \<times> inet_addr) list \<times> nat"
  assume ok: "snd s < length (fst s)"
  have "(if Suc (snd s) = length (fst s) then 0 else Suc (snd s)) = Suc (snd s) mod length (fst s)"
    using ok by (auto simp: mod_less)
  moreover have "0 < length (fst s)" using ok by linarith
  ultimately show "\<exists>s'. bal_next s = Inr (map snd (fst s) ! snd s, s') \<and> snd s' < length (fst s') \<and>
      map snd (fst s') = map snd (fst s) \<and> snd s' = Suc (snd s) mod length (map snd (fst s))"
    using ok by (simp add: bal_next_def)
qed

lemma balance_loop_serves:
  "serve bal_next (length socks) s = Inr (bs, s') \<Longrightarrow> distinct (map fst m @ socks) \<Longrightarrow>
   balance_loop s socks m = Inr (m @ zip socks bs)"
proof (induction socks arbitrary: s m bs)
  case (Cons sock socks)
  from Cons.prems(1) obtain b s1 bs1 where b: "bal_next s = Inr (b, s1)"
      "serve bal_next (length socks) s1 = Inr (bs1, s')" "bs = b # bs1"
    by (auto simp: result_simps)
  have "sock \<notin> fst ` set m" "distinct (map fst (m @ [(sock, b)]) @ socks)"
    using Cons.prems(2) by auto
  with Cons.IH [OF b(2), of "m @ [(sock, b)]"] b(1,3) show ?case by simp
qed simp

lemma balance_keys:
  "balance_loop s socks m = Inr m' \<Longrightarrow> distinct (map fst m) \<Longrightarrow>
   distinct (map fst m') \<and> fst ` set m' = fst ` set m \<union> set socks"
proof (induction s socks m rule: balance_loop.induct)
  case (2 s sock socks m)
  from 2(2) obtain b s' where b: "bal_next s = Inr (b, s')"
      "balance_loop s' socks (if sock \<in> fst ` set m then m else m @ [(sock, b)]) = Inr m'"
    by (auto simp: result_simps)
  from 2(1) [OF b(1) refl b(2)] 2(3) show ?case by (auto split: if_splits)
qed simp

lemma balancing_serves:
  assumes "backend lb \<noteq> []" "distinct socks"
  shows "\<exists>bs s'. serve bal_next (length socks) (backend lb, 0) = Inr (bs, s') \<and>
    balancing lb socks = Inr (zip socks bs) \<and>
    bs = map ((!) (map snd (backend lb))) (residues 0 (length (backend lb)) (length socks))"
proof -
  let ?bs = "map ((!) (map snd (backend lb))) (residues 0 (length (backend lb)) (length socks))"
  obtain s' where s': "serve bal_next (length socks) (backend lb, 0) = Inr (?bs, s')"
    using backends.serve_ring [of "(backend lb, 0)" "length socks"] assms(1) by auto
  from balance_loop_serves [OF this, of "[]"] assms(2)
  have "balancing lb socks = Inr (zip socks ?bs)" by (simp add: balancing_def)
  with s' show ?thesis by blast
qed

text \<open>The assignment of a batch, in whatever order the hash table is iterated.\<close>

lemma batch_assigned:
  assumes "backend lb \<noteq> []" "distinct socks" "mset ps = mset m" "balancing lb socks = Inr m"
  shows "map fst m = socks" "set ps = set m" "distinct (map fst ps)"
    "\<forall>j < length socks. (socks ! j, snd (backend lb ! (j mod length (backend lb)))) \<in> set ps"
proof -
  from balancing_serves [OF assms(1,2)] assms(4) obtain bs where m: "m = zip socks bs"
    and bs: "bs = map ((!) (map snd (backend lb))) (residues 0 (length (backend lb)) (length socks))"
    by auto
  have len: "length bs = length socks" using bs by simp
  then show "map fst m = socks" by (simp add: m)
  show sets: "set ps = set m" using assms(3) by (rule mset_eq_setD)
  have "mset (map fst ps) = mset socks" using assms(3) \<open>map fst m = socks\<close> by (metis mset_map)
  then show "distinct (map fst ps)" using assms(2) by (metis mset_eq_imp_distinct_iff)
  show "\<forall>j < length socks. (socks ! j, snd (backend lb ! (j mod length (backend lb)))) \<in> set ps"
  proof (intro allI impI)
    fix j assume j: "j < length socks"
    have "j mod length (backend lb) < length (backend lb)" using assms(1) by simp
    then have "m ! j = (socks ! j, snd (backend lb ! (j mod length (backend lb))))"
      using j len bs by (simp add: m)
    moreover have "j < length m" using j len by (simp add: m)
    ultimately show "(socks ! j, snd (backend lb ! (j mod length (backend lb)))) \<in> set ps"
      unfolding sets by (metis nth_mem)
  qed
qed

text \<open>
  Well-formed backends: the keys are the addresses' texts, one entry each, and every backend
  has a port to check.
\<close>

definition lb_ok :: "balancer \<Rightarrow> bool" where
  "lb_ok lb \<longleftrightarrow> distinct (map fst (backend lb)) \<and> (\<forall>(k, a) \<in> set (backend lb). k = toString a) \<and>
     distinct (map fst (checked lb)) \<and> fst ` set (backend lb) \<subseteq> fst ` set (checked lb)"

lemma lb_ok_addresses: "lb_ok lb \<Longrightarrow> distinct (map snd (backend lb))"
proof -
  assume ok: "lb_ok lb"
  then have key: "fst e = toString (snd e)" if "e \<in> set (backend lb)" for e
    using that by (cases e) (auto simp: lb_ok_def)
  have "distinct (backend lb)" using ok by (simp add: lb_ok_def distinct_map)
  moreover have "inj_on snd (set (backend lb))" by (rule inj_onI) (simp add: key prod_eq_iff)
  ultimately show ?thesis by (simp add: distinct_map)
qed

lemma hash_emplace_props:
  assumes "mset (arr (k # map fst xs)) = mset (k # map fst xs)" "distinct (map fst xs)"
  shows "distinct (map fst (hash_emplace arr k v xs)) \<and>
    map_of (hash_emplace arr k v xs) = (if k \<in> fst ` set xs then map_of xs else (map_of xs)(k \<mapsto> v)) \<and>
    fst ` set (hash_emplace arr k v xs) = insert k (fst ` set xs)"
proof (cases "k \<in> fst ` set xs")
  case True
  then show ?thesis using assms(2) by (auto simp: hash_emplace_def)
next
  case False
  have set_arr: "set (arr (k # map fst xs)) = insert k (fst ` set xs)"
    using mset_eq_setD [OF assms(1)] by simp
  have "distinct (arr (k # map fst xs))"
    using mset_eq_imp_distinct_iff [OF assms(1)] False assms(2) by auto
  moreover have "map_of (map (\<lambda>q. (q, f q)) qs) = (\<lambda>q. if q \<in> set qs then Some (f q) else None)"
    for f :: "string \<Rightarrow> 'a" and qs by (induction qs) auto
  moreover have "\<exists>w. map_of xs q = Some w" if "q \<in> fst ` set xs" for q
    using that by (metis map_of_eq_None_iff not_None_eq)
  moreover have "map_of xs q = None" if "q \<notin> fst ` set xs" for q
    using that by (metis map_of_eq_None_iff)
  ultimately show ?thesis
    using False set_arr by (auto simp: hash_emplace_def comp_def fun_eq_iff image_image)
qed

section \<open>Properties of the balancing\<close>

definition arranges :: "('a list \<Rightarrow> 'a list) \<Rightarrow> bool" where
  "arranges arr \<longleftrightarrow> (\<forall>xs. mset (arr xs) = mset xs)"

text \<open>C22. The backends are a finite map. Adding a backend, wherever the hash tables put it,
  keeps the backends well formed (one entry per address, keyed by its text, and checked) and
  makes it the one found under its text, the first one added under a text staying; removing
  it makes exactly it unknown; nothing else changes.\<close>

theorem backend_map:
  assumes "lb_ok lb" "arranges arr1" "arranges arr2"
  shows "lb_ok (addBackend arr1 arr2 a port lb) \<and>
    map_of (backend (addBackend arr1 arr2 a port lb)) =
      (case map_of (backend lb) (toString a) of
         None \<Rightarrow> (map_of (backend lb))(toString a \<mapsto> a)
       | Some b \<Rightarrow> map_of (backend lb)) \<and>
    map_of (backend (removeBackend a lb)) = (map_of (backend lb))(toString a := None)"
proof -
  let ?k = "toString a"
  have d: "distinct (map fst (backend lb))" "distinct (map fst (checked lb))"
    using assms(1) by (simp_all add: lb_ok_def)
  note B = hash_emplace_props [OF _ d(1), of arr1 ?k a]
    and C = hash_emplace_props [OF _ d(2), of arr2 ?k port]
  have ms: "mset (arr1 (?k # map fst (backend lb))) = mset (?k # map fst (backend lb))"
    "mset (arr2 (?k # map fst (checked lb))) = mset (?k # map fst (checked lb))"
    using assms(2,3) by (simp_all add: arranges_def)
  note B = B [OF ms(1)] and C = C [OF ms(2)]
  have keyed: "k = toString b" if "map_of (backend lb) k = Some b" for k b
    using assms(1) map_of_SomeD [OF that] by (auto simp: lb_ok_def)
  have "k = toString b" if "(k, b) \<in> set (hash_emplace arr1 ?k a (backend lb))" for k b
  proof -
    have "map_of (hash_emplace arr1 ?k a (backend lb)) k = Some b"
      using map_of_is_SomeI [OF _ that] B by blast
    with B keyed show ?thesis by (auto split: if_splits)
  qed
  then have "\<forall>(k, b) \<in> set (hash_emplace arr1 ?k a (backend lb)). k = toString b" by blast
  moreover have "fst ` set (backend lb) \<subseteq> fst ` set (checked lb)" using assms(1) by (simp add: lb_ok_def)
  ultimately have "lb_ok (addBackend arr1 arr2 a port lb)"
    using B C by (simp add: lb_ok_def addBackend_def Let_def subset_insertI2)
  moreover have "map_of (backend (addBackend arr1 arr2 a port lb)) =
      (case map_of (backend lb) ?k of None \<Rightarrow> (map_of (backend lb))(?k \<mapsto> a) | Some b \<Rightarrow> map_of (backend lb))"
  proof (cases "map_of (backend lb) ?k")
    case None
    then have "?k \<notin> fst ` set (backend lb)" by (simp add: map_of_eq_None_iff)
    with None B show ?thesis by (simp add: addBackend_def Let_def)
  next
    case (Some b)
    then have "?k \<in> fst ` set (backend lb)" by (metis map_of_eq_None_iff option.distinct(1))
    with Some B show ?thesis by (simp add: addBackend_def Let_def)
  qed
  moreover have "map_of (backend (removeBackend a lb)) = (map_of (backend lb))(?k := None)"
  proof (cases "?k \<in> fst ` set (backend lb)")
    case True
    have "map_of (filter (\<lambda>e. fst e \<noteq> ?k) xs) = (map_of xs)(?k := None)" for xs :: "(string \<times> inet_addr) list"
      by (induction xs) (auto simp: fun_eq_iff)
    with True show ?thesis by (simp add: removeBackend_def hash_erase_def)
  next
    case False
    then have "map_of (backend lb) ?k = None" by (simp add: map_of_eq_None_iff)
    with False show ?thesis by (simp add: removeBackend_def fun_upd_idem)
  qed
  ultimately show ?thesis by blast
qed

definition demo_balancer :: balancer where
  "demo_balancer = \<lparr>lb_addr = 60, lb_pub = 0, lb_sub = 0,
     backend = [(''[a:1]'', make_inet ''a'' 1), (''[b:2]'', make_inet ''b'' 2)], lb_stop = False,
     lb_sockes = [], sock_queue = [], checked = [(''[b:2]'', 8), (''[a:1]'', 9)],
     check_text = ''hi''\<rparr>"

lemma demo_texts [simp]:
  "toString (make_inet ''a'' 1) = ''[a:1]''" "toString (make_inet ''b'' 2) = ''[b:2]''"
  by (simp_all add: toString_def make_inet_def to_dec.simps digit_def c_str_def char_of_def bit_Suc_0_iff)

lemma demo_balancer_ok: "lb_ok demo_balancer"
  by (auto simp: lb_ok_def demo_balancer_def)

lemma arranges_rev: "arranges rev"
  by (simp add: arranges_def)

theorem backend_map_witness:
  "map_of (backend (removeBackend (make_inet ''a'' 1) demo_balancer)) = [''[b:2]'' \<mapsto> make_inet ''b'' 2]"
  using backend_map [OF demo_balancer_ok arranges_rev arranges_rev, of "make_inet ''a'' 1" 0]
  by (simp add: demo_balancer_def fun_upd_twist)

text \<open>C21. One batch is balanced evenly. With a backend at hand, every socket of the batch is
  assigned one, the \<open>j\<close>-th socket the backend \<open>j\<close> places from the first, round and round,
  so that the numbers of sockets of any two backends differ by one at most.\<close>

theorem batch_balanced:
  assumes "lb_ok lb" "backend lb \<noteq> []" "distinct socks"
  shows "\<exists>m. balancing lb socks = Inr m \<and> map fst m = socks \<and>
    (\<forall>j < length socks. m ! j = (socks ! j, snd (backend lb ! (j mod length (backend lb))))) \<and>
    (\<forall>a \<in> snd ` set (backend lb).
       length socks div length (backend lb) \<le> count_list (map snd m) a \<and>
       count_list (map snd m) a \<le> Suc (length socks div length (backend lb)))"
proof -
  from balancing_serves [OF assms(2,3)] obtain bs s' where
    run: "serve bal_next (length socks) (backend lb, 0) = Inr (bs, s')" and
    m: "balancing lb socks = Inr (zip socks bs)" and
    bs: "bs = map ((!) (map snd (backend lb))) (residues 0 (length (backend lb)) (length socks))"
    by blast
  have len: "length bs = length socks" using bs by simp
  have ok: "snd (backend lb, 0 :: nat) < length (fst (backend lb, 0 :: nat))" using assms(2) by simp
  have "zip socks bs ! j = (socks ! j, snd (backend lb ! (j mod length (backend lb))))"
    if "j < length socks" for j
  proof -
    have "bs ! j = map snd (backend lb) ! (j mod length (backend lb))" using that bs by simp
    moreover have "j mod length (backend lb) < length (backend lb)" using assms(2) by simp
    ultimately show ?thesis using that len by simp
  qed
  moreover have "length socks div length (backend lb) \<le> count_list bs a \<and>
      count_list bs a \<le> Suc (length socks div length (backend lb))" if "a \<in> snd ` set (backend lb)" for a
    using backends.serve_fair [OF ok run, of a] lb_ok_addresses [OF assms(1)] that by simp
  ultimately show ?thesis using m len by simp
qed

theorem batch_balanced_witness:
  "\<exists>m. balancing demo_balancer [5, 6, 7] = Inr m \<and> m ! 2 = (7, make_inet ''a'' 1)"
proof -
  from batch_balanced [OF demo_balancer_ok, of "[5, 6, 7]"] obtain m where
    "balancing demo_balancer [5, 6, 7] = Inr m"
    "\<forall>j < length [5 :: int, 6, 7]. m ! j = ([5, 6, 7] ! j, snd (backend demo_balancer ! (j mod length (backend demo_balancer))))"
    by (auto simp: demo_balancer_def)
  moreover from this(2) [rule_format, of 2] have "m ! 2 = (7, make_inet ''a'' 1)"
    by (simp add: demo_balancer_def numeral_2_eq_2)
  ultimately show ?thesis by blast
qed

section \<open>Runs of the balancing thread\<close>

text \<open>Batches the server hands over, steps of the thread, and calls of \<open>stop\<close>.\<close>

datatype lb_event = Batch "fd list" | ThreadStep | StopBalancer

fun lb_do :: "((fd \<times> inet_addr) list \<Rightarrow> (fd \<times> inet_addr) list) \<Rightarrow> lb_event \<Rightarrow> lb_pc \<times> balancer \<Rightarrow>
    (ctx option \<times> lb_pc \<times> balancer) result" where
  "lb_do arr (Batch socks) (pc, lb) =
     bindR (lb_update (LoadBalanceCtx (pub_code BALANCE) socks) lb) (\<lambda>(_, lb'). Inr (None, pc, lb'))"
| "lb_do arr ThreadStep (pc, lb) = loadbalance arr (pc, lb)"
| "lb_do arr StopBalancer (pc, lb) = Inr (None, pc, lb_set_stop lb)"

fun lb_run :: "((fd \<times> inet_addr) list \<Rightarrow> (fd \<times> inet_addr) list) \<Rightarrow> lb_event list \<Rightarrow> lb_pc \<times> balancer \<Rightarrow>
    (ctx list \<times> lb_pc \<times> balancer) result" where
  "lb_run arr [] s = Inr ([], s)"
| "lb_run arr (ev # evs) s =
     bindR (lb_do arr ev s) (\<lambda>(x, s1).
     bindR (lb_run arr evs s1) (\<lambda>(xs, s2).
       Inr ((case x of None \<Rightarrow> xs | Some c \<Rightarrow> c # xs), s2)))"

fun batches :: "lb_event list \<Rightarrow> fd list list" where
  "batches [] = []"
| "batches (Batch socks # evs) = socks # batches evs"
| "batches (_ # evs) = batches evs"

text \<open>The context a batch leads to.\<close>

definition forwards ::
  "((fd \<times> inet_addr) list \<Rightarrow> (fd \<times> inet_addr) list) \<Rightarrow> (string \<times> inet_addr) list \<Rightarrow> fd list \<Rightarrow> ctx \<Rightarrow> bool" where
  "forwards arr bk socks x \<longleftrightarrow>
     (\<exists>m. x = ForwardContext (pub_code FORWARD) (arr m) \<and> balance_loop (bk, 0) socks [] = Inr m)"

lemma balancing_total: "bk \<noteq> [] \<Longrightarrow> i < length bk \<Longrightarrow> \<exists>m'. balance_loop (bk, i) socks m = Inr m'"
  by (induction socks arbitrary: i m) (auto simp: bal_next_def)

lemma lb_do_step:
  assumes "backend lb \<noteq> []"
  shows "\<exists>x pc' lb' done. lb_do arr ev (pc, lb) = Inr (x, pc', lb') \<and> backend lb' = backend lb \<and>
    list_all2 (forwards arr (backend lb)) done (case x of None \<Rightarrow> [] | Some c \<Rightarrow> [c]) \<and>
    done @ sock_queue lb' = sock_queue lb @ batches [ev]"
proof (cases ev)
  case ThreadStep
  show ?thesis
  proof (cases pc)
    case Spinning
    show ?thesis
    proof (cases "sock_queue lb")
      case (Cons socks rest)
      obtain m where "balance_loop (backend lb, 0) socks [] = Inr m"
        using balancing_total [OF assms, of 0 socks "[]"] assms by auto
      with Cons Spinning ThreadStep show ?thesis
        by (auto simp: lb_serve_def balancing_def forwards_def intro!: exI [of _ "[socks]"])
    qed (use Spinning ThreadStep in auto)
  qed (use ThreadStep in auto)
qed (auto simp: lb_update_def updateForLoadbalance_def lb_set_stop_def)

lemma lb_run_all:
  assumes "backend lb \<noteq> []"
  shows "\<exists>xs pc' lb' done. lb_run arr evs (pc, lb) = Inr (xs, pc', lb') \<and> backend lb' = backend lb \<and>
    list_all2 (forwards arr (backend lb)) done xs \<and> done @ sock_queue lb' = sock_queue lb @ batches evs"
  using assms
proof (induction evs arbitrary: pc lb)
  case Nil
  then show ?case by auto
next
  case (Cons ev evs)
  obtain x pc1 lb1 d1 where 1: "lb_do arr ev (pc, lb) = Inr (x, pc1, lb1)" "backend lb1 = backend lb"
      "list_all2 (forwards arr (backend lb)) d1 (case x of None \<Rightarrow> [] | Some c \<Rightarrow> [c])"
      "d1 @ sock_queue lb1 = sock_queue lb @ batches [ev]"
    using lb_do_step [OF Cons.prems] by blast
  obtain xs pc' lb' d2 where 2: "lb_run arr evs (pc1, lb1) = Inr (xs, pc', lb')" "backend lb' = backend lb1"
      "list_all2 (forwards arr (backend lb1)) d2 xs" "d2 @ sock_queue lb' = sock_queue lb1 @ batches evs"
    using Cons.IH [of lb1 pc1] Cons.prems 1(2) by auto
  have "batches (ev # evs) = batches [ev] @ batches evs" by (cases ev) auto
  then have "(d1 @ d2) @ sock_queue lb' = sock_queue lb @ batches (ev # evs)"
    using 1(4) 2(4) by (metis append.assoc)
  moreover have "list_all2 (forwards arr (backend lb)) (d1 @ d2)
      ((case x of None \<Rightarrow> [] | Some c \<Rightarrow> [c]) @ xs)"
    using 1(2,3) 2(3) by (simp add: list_all2_appendI)
  moreover have "(case x of None \<Rightarrow> xs | Some c \<Rightarrow> c # xs) = (case x of None \<Rightarrow> [] | Some c \<Rightarrow> [c]) @ xs"
    by (cases x) auto
  ultimately show ?case
    using 1(1,2) 2(1,2)
    by (intro exI [of _ "(case x of None \<Rightarrow> xs | Some c \<Rightarrow> c # xs)"] exI [of _ pc'] exI [of _ lb']
        exI [of _ "d1 @ d2"]) simp
qed

text \<open>The balancing thread serves every batch once, in the order they were handed over,
  and never fails while there is a backend: the batches it has published, followed by those
  still queued, are those there were and those handed over since; what it publishes for a
  batch is the assignment of its sockets, each batch starting again at the first backend.\<close>

theorem loadbalance_fifo:
  assumes "backend lb \<noteq> []"
  shows "\<exists>xs pc' lb' done. lb_run arr evs (pc, lb) = Inr (xs, pc', lb') \<and>
    done @ sock_queue lb' = sock_queue lb @ batches evs \<and>
    list_all2 (\<lambda>socks x. \<exists>m. x = ForwardContext (pub_code FORWARD) (arr m) \<and>
      balancing lb socks = Inr m) done xs"
  using lb_run_all [OF assms, of arr evs pc] by (simp add: forwards_def [abs_def] balancing_def) blast

theorem loadbalance_fifo_witness:
  "\<exists>xs pc lb' d. lb_run rev [Batch [5, 6], ThreadStep, ThreadStep, Batch [7]] (LoopHead, demo_balancer) = Inr (xs, pc, lb') \<and>
     d @ sock_queue lb' = [[5, 6], [7]]"
  using loadbalance_fifo [of demo_balancer rev "[Batch [5, 6], ThreadStep, ThreadStep, Batch [7]]" LoopHead]
  by (simp add: demo_balancer_def) blast

text \<open>Round robin holds within a batch only. When no batch has more than \<open>k\<close> sockets, then
  however many batches are served, every client goes to one of the first \<open>k\<close> backends of the
  table; with one client ready at a time, all go to the same backend and the others are never
  used.\<close>

theorem short_batches_starve:
  assumes "backend lb \<noteq> []" "\<forall>b \<in> set (sock_queue lb @ batches evs). length b \<le> k \<and> distinct b"
    and "lb_run arr evs (pc, lb) = Inr (xs, pc', lb')" "arranges arr" "k \<le> length (backend lb)"
  shows "\<forall>x \<in> set xs. \<forall>m. x = ForwardContext (pub_code FORWARD) m \<longrightarrow>
    snd ` set m \<subseteq> snd ` set (take k (backend lb))"
proof (intro ballI allI impI)
  fix x m assume x: "x \<in> set xs" and m: "x = ForwardContext (pub_code FORWARD) m"
  obtain srv where srv: "list_all2 (forwards arr (backend lb)) srv xs"
      "srv @ sock_queue lb' = sock_queue lb @ batches evs"
    using lb_run_all [OF assms(1), of arr evs pc] assms(3) by auto
  from x srv(1) obtain socks where "socks \<in> set srv" "forwards arr (backend lb) socks x"
    by (metis list_all2_conv_all_nth in_set_conv_nth)
  then obtain a where a: "balance_loop (backend lb, 0) socks [] = Inr a" "m = arr a"
    using m by (auto simp: forwards_def)
  have "socks \<in> set (sock_queue lb @ batches evs)"
    using srv(2) \<open>socks \<in> set srv\<close> by (metis Un_iff set_append)
  then have len: "length socks \<le> k" "distinct socks" using assms(2) by auto
  obtain bs where bs: "balancing lb socks = Inr (zip socks bs)"
      "bs = map ((!) (map snd (backend lb))) (residues 0 (length (backend lb)) (length socks))"
    using balancing_serves [OF assms(1) len(2)] by blast
  have "set m = set (zip socks bs)"
    using a bs(1) assms(4) mset_eq_setD [of "arr a" a] by (simp add: balancing_def arranges_def)
  moreover have "b \<in> snd ` set (take k (backend lb))" if "b \<in> set bs" for b
  proof -
    from that bs(2) obtain i where i: "i < length socks" "b = map snd (backend lb) ! (i mod length (backend lb))"
      by (auto simp: residues_def)
    then have "i < k" "i < length (backend lb)" using len(1) assms(5) by auto
    then have "b = snd (take k (backend lb) ! i)" "i < length (take k (backend lb))" using i(2) by auto
    then show ?thesis using nth_mem by blast
  qed
  ultimately show "snd ` set m \<subseteq> snd ` set (take k (backend lb))"
    by (auto dest: set_zip_rightD)
qed

theorem short_batches_starve_witness:
  "\<exists>xs pc lb'. lb_run rev [Batch [5], ThreadStep, ThreadStep, Batch [7], ThreadStep, ThreadStep]
       (LoopHead, demo_balancer) = Inr (xs, pc, lb') \<and>
     (\<forall>x \<in> set xs. \<forall>m. x = ForwardContext (pub_code FORWARD) m \<longrightarrow> snd ` set m \<subseteq> {make_inet ''a'' 1})"
proof -
  let ?evs = "[Batch [5], ThreadStep, ThreadStep, Batch [7], ThreadStep, ThreadStep]"
  have ne: "backend demo_balancer \<noteq> []" by (simp add: demo_balancer_def)
  obtain xs pc lb' where run: "lb_run rev ?evs (LoopHead, demo_balancer) = Inr (xs, pc, lb')"
    using lb_run_all [OF ne, of rev ?evs LoopHead] by blast
  have "\<forall>b \<in> set (sock_queue demo_balancer @ batches ?evs). length b \<le> 1 \<and> distinct b"
    "1 \<le> length (backend demo_balancer)"
    by (simp_all add: demo_balancer_def)
  from short_batches_starve [OF ne this(1) run arranges_rev this(2)] run
  show ?thesis by (simp add: demo_balancer_def del: lb_run.simps)
qed

text \<open>Stopping an idle balancer has no effect. While its thread spins on the empty queue,
  no number of calls of \<open>stop\<close> and of further steps makes it return: the flag is read at the
  loop's head only, which the thread reaches again only after serving one more batch.\<close>

theorem stop_ignored_while_idle:
  assumes "sock_queue lb = []" "batches evs = []"
  shows "\<exists>lb'. lb_run arr evs (Spinning, lb) = Inr ([], Spinning, lb') \<and> sock_queue lb' = []"
  using assms
proof (induction evs arbitrary: lb)
  case (Cons ev evs)
  then show ?case by (cases ev) (auto simp: lb_set_stop_def)
qed simp

theorem stop_ignored_while_idle_witness:
  "\<exists>lb'. lb_run rev [StopBalancer, ThreadStep, ThreadStep] (Spinning, demo_balancer) = Inr ([], Spinning, lb')"
  using stop_ignored_while_idle [of demo_balancer "[StopBalancer, ThreadStep, ThreadStep]" rev]
  by (auto simp: demo_balancer_def)

section \<open>Properties of the health check\<close>

lemma write_tries_nonneg: "0 \<le> write_tries p len t"
  by (induction t) auto

lemma connect_tries_nonneg: "connect_tries p t = Inr sock \<Longrightarrow> 0 \<le> sock"
  by (induction t) (auto simp: connectTo_def result_simps split: if_splits)

lemma short_c_str: "CHR 0x00 \<in> set buf \<Longrightarrow> length (c_str buf) < length buf"
  by (induction buf) (auto simp: c_str_def)

lemma recv_tries_blind:
  assumes "\<forall>t. length (p_recv p t) = length text" "recv_tries p text t = Inr time"
  shows "time = 0 \<and> (\<forall>i \<in> {1..t}. c_str (p_recv p i) \<noteq> text)"
  using assms(2)
proof (induction t)
  case (Suc t)
  let ?buf = "p_recv p (Suc t)"
  from Suc.prems have nul: "CHR 0x00 \<in> set ?buf" by (auto simp: Let_def split: if_splits)
  then have "c_str ?buf \<noteq> text" using short_c_str [OF nul] assms(1) by auto
  with Suc nul show ?case by (auto simp: atLeastAtMostSuc_conv)
qed simp

lemma check_one_blind:
  assumes "\<forall>t. length (p_recv p t) = length (check_text lb)" "check_one p kp lb = Inr lb'"
  shows "lb' = lb \<and> fst kp \<in> fst ` set (backend lb) \<and>
    (\<forall>t \<in> {1..3}. c_str (p_recv p t) \<noteq> check_text lb)"
proof -
  from assms(2) obtain a sock where a: "map_of (backend lb) (fst kp) = Some a"
      "connect_tries p 3 = Inr sock"
    by (auto simp: check_one_def result_simps split: option.splits)
  have "fst kp \<in> fst ` set (backend lb)" using a(1) by (metis map_of_eq_None_iff option.distinct(1))
  moreover have "\<not> sock < 0" using connect_tries_nonneg [OF a(2)] by simp
  moreover have "\<not> write_tries p l 3 < 0" for l using write_tries_nonneg [of p l 3] by simp
  ultimately have "\<exists>time. recv_tries p (check_text lb) 3 = Inr time \<and>
      (if time < 0 then Inr (lb\<lparr>backend := hash_erase (fst kp) (backend lb)\<rparr>) else Inr lb) =
        (Inr lb' :: balancer result)"
    using assms(2) a by (simp add: check_one_def result_simps split del: if_split)
  then obtain time where time: "recv_tries p (check_text lb) 3 = Inr time"
      "(if time < 0 then Inr (lb\<lparr>backend := hash_erase (fst kp) (backend lb)\<rparr>) else Inr lb) =
        (Inr lb' :: balancer result)"
    by blast
  from recv_tries_blind [OF assms(1) time(1)] time(2) \<open>fst kp \<in> fst ` set (backend lb)\<close>
  show ?thesis by simp
qed

text \<open>C40. The health check cannot tell a live backend. If \<open>recv\<close> leaves in \<open>buf\<close> what
  fits there, then whatever the backends answer, a check that returns has removed no backend,
  and every reply it compared differed from the text, also the replies that are the text
  itself: \<open>buf\<close> has no room for the NUL the comparison needs, so an exact reply is read past
  the end of the array. (A backend that refuses the connection makes \<open>connectTo\<close> throw,
  which leaves the check altogether; \<open>time\<close> is never negative after its loops.)\<close>

theorem health_check_blind:
  assumes "\<forall>k t. length (p_recv (ps k) t) = length (check_text lb)"
    and "checkAllBackend ps lb = Inr lb'"
  shows "lb' = lb \<and> fst ` set (checked lb) \<subseteq> fst ` set (backend lb) \<and>
    (\<forall>k \<in> fst ` set (checked lb). \<forall>t \<in> {1..3}. c_str (p_recv (ps k) t) \<noteq> check_text lb)"
proof -
  have "check_loop ps kps lb = Inr lb' \<Longrightarrow> lb' = lb \<and> fst ` set kps \<subseteq> fst ` set (backend lb) \<and>
    (\<forall>k \<in> fst ` set kps. \<forall>t \<in> {1..3}. c_str (p_recv (ps k) t) \<noteq> check_text lb)" for kps
  proof (induction kps)
    case (Cons kp kps)
    from Cons.prems obtain lb1 where lb1: "check_one (ps (fst kp)) kp lb = Inr lb1"
        "check_loop ps kps lb1 = Inr lb'"
      by (auto simp: result_simps)
    from check_one_blind [OF _ lb1(1)] assms(1) lb1(2) Cons.IH show ?case by auto
  qed simp
  then show ?thesis using assms(2) by (simp add: checkAllBackend_def)
qed

text \<open>A backend that echoes the text it is sent, in a buffer that held a NUL before.\<close>

definition demo_probe :: probe where
  "demo_probe = \<lparr>p_connect = (\<lambda>t. (9, 0)), p_write = (\<lambda>t. 2), p_recv = (\<lambda>t. [CHR ''h'', CHR 0x00])\<rparr>"

theorem health_check_blind_witness:
  "\<exists>lb'. checkAllBackend (\<lambda>k. demo_probe) demo_balancer = Inr lb' \<and> lb' = demo_balancer"
proof -
  have c: "check_one demo_probe kp demo_balancer = Inr demo_balancer"
    if "kp \<in> set (checked demo_balancer)" for kp
    using that by (auto simp: check_one_def demo_probe_def demo_balancer_def numeral_3_eq_3
        connectTo_def c_str_def)
  have "checkAllBackend (\<lambda>k. demo_probe) demo_balancer = Inr demo_balancer"
    using c by (simp add: checkAllBackend_def demo_balancer_def)
  moreover have "\<forall>k t. length (p_recv ((\<lambda>k. demo_probe) k) t) = length (check_text demo_balancer)"
    by (simp add: demo_probe_def demo_balancer_def)
  ultimately show ?thesis using health_check_blind [of "\<lambda>k. demo_probe" demo_balancer] by blast
qed

text \<open>Removing a backend ends the health checks. \<open>removeBackend\<close> leaves the address in
  \<open>checked_\<close>, so every later check fails: with the exception of \<open>backend_.at\<close> when it comes to
  that address, if not with another failure before.\<close>

theorem remove_breaks_check:
  assumes "lb_ok lb" "toString a \<in> fst ` set (backend lb)"
  shows "\<exists>err. checkAllBackend ps (removeBackend a lb) = Inl err"
proof -
  let ?lb = "removeBackend a lb" and ?k = "toString a"
  have k: "?k \<in> fst ` set (checked ?lb)" "?k \<notin> fst ` set (backend ?lb)"
    using assms by (auto simp: lb_ok_def removeBackend_def hash_erase_def)
  have keys: "fst ` set (backend lb2) \<subseteq> fst ` set (backend lb1)"
    if "check_one p kp lb1 = Inr lb2" for p kp lb1 lb2
    using that by (auto simp: check_one_def hash_erase_def result_simps split: option.splits if_splits)
  have "?k \<in> fst ` set kps \<Longrightarrow> ?k \<notin> fst ` set (backend lb1) \<Longrightarrow>
      \<exists>err. check_loop ps kps lb1 = Inl err" for kps lb1
  proof (induction kps arbitrary: lb1)
    case (Cons kp kps)
    show ?case
    proof (cases "check_one (ps (fst kp)) kp lb1")
      case (Inr lb2)
      then have "fst kp \<in> fst ` set (backend lb1)"
        by (auto simp: check_one_def split: option.splits dest: map_of_SomeD)
          (metis fst_conv image_eqI map_of_SomeD)
      with Cons.prems(2) have "?k \<noteq> fst kp" by metis
      with Cons.prems(1) have "?k \<in> fst ` set kps" by simp
      moreover have "?k \<notin> fst ` set (backend lb2)" using keys [OF Inr] Cons.prems(2) by auto
      ultimately show ?thesis using Cons.IH [of lb2] Inr by simp
    qed simp
  qed simp
  then show ?thesis using k by (simp add: checkAllBackend_def)
qed

theorem remove_breaks_check_witness:
  "\<exists>err. checkAllBackend (\<lambda>k. demo_probe) (removeBackend (make_inet ''a'' 1) demo_balancer) = Inl err"
  using remove_breaks_check [OF demo_balancer_ok, of "make_inet ''a'' 1" "\<lambda>k. demo_probe"]
  by (simp add: demo_balancer_def)

end
