(* ===== verification/Proxy.thy ===== *)
theory Proxy
  imports Loop_Group
begin

text \<open>
  \<open>ProxyServer\<close> (\<open>src/src/proxy/proxy_server.hpp\<close>, \<open>proxy_server.cc\<close>, with the \<open>Packet\<close> of
  \<open>packet.hpp\<close>): for each client socket a connection to a backend, the two maps between
  them, and the transfer of bytes in both directions, by \<open>read\<close> and \<open>send\<close> through a packet
  (the build's choice, \<open>MSG_ATTACH\<close>) or by \<open>splice\<close> through a pipe.
\<close>

section \<open>State and environment\<close>

definition MAX_IP_SIZE :: nat where "MAX_IP_SIZE = 10"
definition MAX_PORT_SIZE :: nat where "MAX_PORT_SIZE = 6"
definition MAX_PACKET_SIZE :: nat where "MAX_PACKET_SIZE = 64 * 1024"

text \<open>
  A packet: \<open>pk_head\<close> is \<open>ip_\<close> and \<open>port_\<close>, which lie next to each other, so that copying a
  text longer than \<open>ip_\<close> goes over into \<open>port_\<close>.
\<close>

record packet =
  pk_head :: string
  pk_length :: u64
  segment :: string

definition blank_packet :: packet where
  "blank_packet = \<lparr>pk_head = replicate (MAX_IP_SIZE + MAX_PORT_SIZE) (CHR 0x00), pk_length = 0,
     segment = replicate MAX_PACKET_SIZE (CHR 0x00)\<rparr>"

record proxy =
  px_addr :: nat
  px_sub :: u16
  px_pub :: u16
  px_stop :: bool
  sock_map :: "fd \<rightharpoonup> fd"
  reversed_map :: "fd \<rightharpoonup> fd"
  px_group :: group

text \<open>
  The state of the proxy's part of the program: the center, the demultiplexers by number,
  the proxy, the bytes in its pipe, the bytes it has delivered, each block with the
  descriptor it went to, the connections it has made, each with the address, and the other
  system calls issued, oldest first.
\<close>

record pworld =
  w_center :: center
  w_dmps :: "nat \<rightharpoonup> demux"
  w_px :: proxy
  w_pipe :: string
  w_out :: "(fd \<times> string) list"
  w_conns :: "(fd \<times> inet_addr) list"
  w_sys :: "syscall list"

text \<open>
  The environment of a handler: the build's choice, and the kernel's answers: to \<open>socket\<close>
  and \<open>connect\<close> for a client, the peer of a descriptor, to \<open>read\<close> on a descriptor the count
  with the bytes and \<open>errno\<close>, to the \<open>i\<close>-th \<open>send\<close> on a descriptor of so many bytes; to the
  \<open>splice\<close> from a descriptor, the count with the bytes, and to the \<open>i\<close>-th \<open>splice\<close> to one.
\<close>

record penv =
  pe_attach :: bool
  pe_connect :: "fd \<Rightarrow> int \<times> int"
  pe_peer :: "fd \<Rightarrow> inet_addr"
  pe_read :: "fd \<Rightarrow> int \<times> string"
  pe_errno :: "fd \<Rightarrow> int"
  pe_send :: "fd \<Rightarrow> nat \<Rightarrow> nat \<Rightarrow> int"
  pe_splice_in :: "fd \<Rightarrow> int \<times> string"
  pe_splice_out :: "fd \<Rightarrow> nat \<Rightarrow> nat \<Rightarrow> int"
  pe_ctl :: "syscall \<Rightarrow> int"

definition w_syscall :: "penv \<Rightarrow> pworld sys" where
  "w_syscall e c w = (pe_ctl e c, w\<lparr>w_sys := w_sys w @ [c]\<rparr>)"

definition upd_px :: "(proxy \<Rightarrow> proxy) \<Rightarrow> pworld \<Rightarrow> pworld" where
  "upd_px g w = w\<lparr>w_px := g (w_px w)\<rparr>"

section \<open>Construction\<close>

fun quiet_loop :: "nat list \<Rightarrow> nat \<Rightarrow> reactor \<Rightarrow> reactor result" where
  "quiet_loop [] self r = Inr r"
| "quiet_loop (a # as) self r =
     (case r_dmps r a of
        None \<Rightarrow> Inl UseAfterFree
      | Some d \<Rightarrow>
          bindR (subscribe (dmp_id d) DMPWAIT (Some self) (r_center r)) (\<lambda>c.
            quiet_loop as self (r\<lparr>r_dmps := (r_dmps r)(a \<mapsto> enableNotify False d), r_center := c\<rparr>)))"

text \<open>\<open>piped\<close> is the answer of \<open>pipe2\<close>; the group is built in the center and objects of \<open>r\<close>.\<close>

definition make_proxy :: "int \<Rightarrow> nat \<Rightarrow> int \<Rightarrow> (nat \<times> int) list \<Rightarrow> ids \<Rightarrow> reactor \<Rightarrow>
    (ids \<times> proxy \<times> reactor) result" where
  "make_proxy piped self n_thread news i r =
     (let (sid, i1) = sub_id Proxy_server_cc i; (pid, i2) = pub_id Proxy_server_cc i1 in
      if piped = -1
      then Inl (RuntimeError ''can't open two pipe to transfer data in kernel space'')
      else bindR (group_init n_thread news i2 (make_group True) r) (\<lambda>(i3, g, r1).
           bindR (quiet_loop (g_dmps g) self r1) (\<lambda>r2.
           bindR (registerPub pid (Some self) (r_center r2)) (\<lambda>c.
             Inr (i3, \<lparr>px_addr = self, px_sub = sid, px_pub = pid, px_stop = False,
                       sock_map = Map.empty, reversed_map = Map.empty, px_group = g\<rparr>,
                  r2\<lparr>r_center := c\<rparr>)))))"

fun unsubscribe_loop :: "nat list \<Rightarrow> nat \<Rightarrow> (nat \<rightharpoonup> demux) \<Rightarrow> center \<Rightarrow> center result" where
  "unsubscribe_loop [] self dm c = Inr c"
| "unsubscribe_loop (a # as) self dm c =
     (case dm a of
        None \<Rightarrow> Inl UseAfterFree
      | Some d \<Rightarrow> bindR (unSubscribe (dmp_id d) DMPWAIT (Some self) c) (unsubscribe_loop as self dm))"

definition destroy_proxy :: "pworld \<Rightarrow> center result" where
  "destroy_proxy w = unsubscribe_loop (g_dmps (px_group (w_px w))) (px_addr (w_px w)) (w_dmps w) (w_center w)"

definition px_set_stop :: "proxy \<Rightarrow> proxy" where
  "px_set_stop p = p\<lparr>px_stop := True\<rparr>"

definition px_pubID :: "proxy \<Rightarrow> u16" where
  "px_pubID p = px_pub p"

definition px_subID :: "proxy \<Rightarrow> u16" where
  "px_subID p = px_sub p"

text \<open>\<open>notify\<close> publishes \<open>FORWARD\<close> whatever event it is given.\<close>

definition px_notify :: "'s notifier \<Rightarrow> proxy \<Rightarrow> pub_type \<Rightarrow> ctx \<Rightarrow> 's \<Rightarrow> (ctx \<times> 's) result" where
  "px_notify ntf p type x s = ntf (px_pub p) FORWARD x s"

definition px_subscribe :: "proxy \<Rightarrow> u16 \<Rightarrow> pub_type \<Rightarrow> center \<Rightarrow> center result" where
  "px_subscribe p pubID type c = subscribe pubID type (Some (px_addr p)) c"

interpretation px_publisher: publisher px_pubID "\<lambda>_. FORWARD" "\<lambda>_. True" px_notify
  by unfold_locales (simp add: px_notify_def px_pubID_def)

interpretation px_subscriber: subscriber px_addr px_subscribe
  by unfold_locales (simp add: px_subscribe_def subscribe_meets_law)

text \<open>One round of \<open>pooling\<close>: returned at the head, or waiting for the group's threads.\<close>

definition pooling_round :: "proxy \<Rightarrow> proxy option" where
  "pooling_round p = (if px_stop p then Some p else map_option (\<lambda>g. p\<lparr>px_group := g\<rparr>) (joinAll (px_group p)))"

section \<open>Connections to the backends\<close>

definition px_registerFd :: "pworld notifier \<Rightarrow> penv \<Rightarrow> fd \<Rightarrow> pworld \<Rightarrow> pworld result" where
  "px_registerFd ntf e f w =
     bindR (next_dmp (px_group (w_px w))) (\<lambda>(n, g).
       case w_dmps w n of
         None \<Rightarrow> Inl UseAfterFree
       | Some d \<Rightarrow>
           bindR (demultiplexRegister ntf (w_syscall e) n d f False (upd_px (\<lambda>p. p\<lparr>px_group := g\<rparr>) w))
             (\<lambda>(_, w'). Inr w'))"

text \<open>\<open>establishWith\<close>, for client \<open>incoming\<close> (the answers of the kernel are by client).\<close>

definition establishWith :: "pworld notifier \<Rightarrow> penv \<Rightarrow> fd \<Rightarrow> inet_addr \<Rightarrow> pworld \<Rightarrow> (fd \<times> pworld) result"
  where "establishWith ntf e incoming a w =
     bindR (connectTo (fst (pe_connect e incoming)) (snd (pe_connect e incoming))) (\<lambda>sock.
     bindR (px_registerFd ntf e sock
              (snd (w_syscall e (Fcntl sock) (w\<lparr>w_conns := w_conns w @ [(sock, a)]\<rparr>)))) (\<lambda>w'.
       Inr (sock, w')))"

section \<open>Moving bytes\<close>

text \<open>
  The loop of \<open>forward\<close>: \<open>ans\<close> gives the answers of \<open>send\<close>, \<open>len\<close> is \<open>packet->length_\<close>,
  \<open>i\<close> the number of calls made, \<open>out\<close> what was sent. \<open>None\<close> is that the loop never ends.
\<close>

partial_function (option) send_loop ::
  "(nat \<Rightarrow> nat \<Rightarrow> int) \<Rightarrow> string \<Rightarrow> u64 \<Rightarrow> int \<Rightarrow> nat \<Rightarrow> int \<Rightarrow> string \<Rightarrow> (int \<times> string) result option" where
  "send_loop ans seg len recved i tot out =
     (let count = unat (len - word_of_int tot); sent = ans i count in
      if length seg < nat tot + count then Some (Inl OutOfBounds)
      else if sent = -1 then Some (Inr (tot, out))
      else if tot + sent = recved
      then Some (Inr (tot + sent, out @ take (nat sent) (drop (nat tot) seg)))
      else send_loop ans seg len recved (Suc i) (tot + sent)
             (out @ take (nat sent) (drop (nat tot) seg)))"

text \<open>
  \<open>forward\<close>, which is called in the build with \<open>MSG_ATTACH\<close> only: first the packet is set to
  zeros. It yields what it returns, the packet it leaves and the state.
\<close>

definition forward :: "penv \<Rightarrow> fd \<Rightarrow> fd \<Rightarrow> packet \<Rightarrow> pworld \<Rightarrow> (int \<times> packet \<times> pworld) result option"
  where "forward e in_fd out_fd packet w =
     (let pk = blank_packet; (recved, data) = pe_read e in_fd in
      case write_mem (segment pk) 0 data of
        Inl err \<Rightarrow> Some (Inl err)
      | Inr seg \<Rightarrow>
          let pk1 = pk\<lparr>segment := seg\<rparr> in
          if recved = -1 \<and> (pe_errno e in_fd = EAGAIN \<or> pe_errno e in_fd = EWOULDBLOCK)
          then Some (Inr (recved, pk1, w))
          else let pk2 = pk1\<lparr>pk_length := word_of_int recved\<rparr> in
            map_option (\<lambda>res. bindR res (\<lambda>(total, out).
                Inr (total, pk2, w\<lparr>w_out := w_out w @ [(out_fd, out)]\<rparr>)))
              (send_loop (pe_send e out_fd) (segment pk2) (pk_length pk2) recved 0 0 []))"

text \<open>The loop of \<open>zeroCopy\<close>; \<open>pipe\<close> is what the pipe holds, oldest byte first.\<close>

partial_function (option) splice_loop ::
  "(nat \<Rightarrow> nat \<Rightarrow> int) \<Rightarrow> int \<Rightarrow> nat \<Rightarrow> int \<Rightarrow> string \<Rightarrow> string \<Rightarrow> (int \<times> string \<times> string) option" where
  "splice_loop ans len i tot pipe out =
     (if len \<le> 0 then Some (tot, pipe, out)
      else let slen = ans i (nat len) in
        if slen < 0 then Some (tot, pipe, out)
        else splice_loop ans (len - slen) (Suc i) (tot + slen) (drop (nat slen) pipe)
               (out @ take (nat slen) pipe))"

definition zeroCopy :: "penv \<Rightarrow> fd \<Rightarrow> fd \<Rightarrow> pworld \<Rightarrow> (int \<times> pworld) option" where
  "zeroCopy e in_fd out_fd w =
     (let (len, data) = pe_splice_in e in_fd in
      if len \<le> 0 then Some (len, w)
      else map_option (\<lambda>(total, pipe, out).
             (total, w\<lparr>w_pipe := pipe, w_out := w_out w @ [(out_fd, out)]\<rparr>))
           (splice_loop (pe_splice_out e out_fd) len 0 0 (w_pipe w @ data) []))"

section \<open>Handlers\<close>

definition transfer :: "penv \<Rightarrow> fd \<Rightarrow> fd \<Rightarrow> packet \<Rightarrow> pworld \<Rightarrow> (int \<times> packet \<times> pworld) result option" where
  "transfer e in_fd out_fd pk w =
     (if pe_attach e then forward e in_fd out_fd pk w
      else map_option (\<lambda>(tot, w'). Inr (tot, pk, w')) (zeroCopy e in_fd out_fd w))"

text \<open>
  Handling \<open>CLOSABLE\<close>: first the descriptor is closed, then, under the lock, its entries go.
\<close>

definition close_fd :: "penv \<Rightarrow> fd \<Rightarrow> pworld \<Rightarrow> pworld" where
  "close_fd e f w = snd (w_syscall e (SysClose f) w)"

definition forget :: "fd \<Rightarrow> pworld \<Rightarrow> pworld" where
  "forget f w =
     (case sock_map (w_px w) f of
        None \<Rightarrow> w
      | Some c \<Rightarrow> upd_px (\<lambda>p. p\<lparr>reversed_map := erase (reversed_map p) c,
                                sock_map := erase (sock_map p) f\<rparr>) w)"

fun wait_events :: "penv \<Rightarrow> resp list \<Rightarrow> packet \<Rightarrow> pworld \<Rightarrow> pworld result option" where
  "wait_events e [] pk w = Some (Inr w)"
| "wait_events e (q # qs) pk w =
     (case sock_map (w_px w) (resp_fd q) of
        None \<Rightarrow> Some (Inl OutOfRange)
      | Some client \<Rightarrow>
          bindO (if has READABLE (resp_events q) \<and> \<not> has CLOSABLE (resp_events q)
                 then transfer e (resp_fd q) client pk w else Some (Inr (0, pk, w)))
            (\<lambda>(_, pk1, w1).
               if has CLOSABLE (resp_events q)
               then wait_events e qs pk1 (forget (resp_fd q) (close_fd e (resp_fd q) w1))
               else wait_events e qs pk1 w1))"

definition px_updateForWait :: "penv \<Rightarrow> ctx \<Rightarrow> pworld \<Rightarrow> pworld result option" where
  "px_updateForWait e x w =
     bindO (Some (as_wait x)) (\<lambda>qs. wait_events e qs blank_packet w)"

text \<open>
  The locked part of \<open>updateForForward\<close>: whether to go on with this client, and the state.
  The socket is registered by \<open>establishWith\<close> and again after the maps have it.
\<close>

definition assure_backend :: "pworld notifier \<Rightarrow> penv \<Rightarrow> fd \<Rightarrow> inet_addr \<Rightarrow> pworld \<Rightarrow> (bool \<times> pworld) result"
  where "assure_backend ntf e incoming a w =
     (if reversed_map (w_px w) incoming \<noteq> None then Inr (True, w)
      else bindR (establishWith ntf e incoming a w) (\<lambda>(sock, w1).
        if sock < 0 then Inr (False, w1)
        else bindR (px_registerFd ntf e sock
          (upd_px (\<lambda>p. p\<lparr>sock_map := emplace (sock_map p) sock incoming,
                         reversed_map := emplace (reversed_map p) incoming sock\<rparr>) w1)) (\<lambda>w2.
          Inr (True, w2))))"

definition head_of :: "inet_addr \<Rightarrow> packet \<Rightarrow> packet result" where
  "head_of a pk =
     bindR (write_mem (pk_head pk) 0 (ip_string a)) (\<lambda>h.
     bindR (write_mem h MAX_IP_SIZE (port_string a)) (\<lambda>h'. Inr (pk\<lparr>pk_head := h'\<rparr>)))"

fun forward_pairs :: "pworld notifier \<Rightarrow> penv \<Rightarrow> (fd \<times> inet_addr) list \<Rightarrow> packet \<Rightarrow> pworld \<Rightarrow>
    pworld result option" where
  "forward_pairs ntf e [] pk w = Some (Inr w)"
| "forward_pairs ntf e ((incoming, a) # ps) pk w =
     bindO (Some (assure_backend ntf e incoming a w)) (\<lambda>(go, w1).
     if \<not> go then forward_pairs ntf e ps pk w1
     else case reversed_map (w_px w1) incoming of
       None \<Rightarrow> Some (Inl OutOfRange)
     | Some sock \<Rightarrow>
         let peer = pe_peer e incoming; addr_str = toString peer in
         if isLismited addr_str (w_center w1) then forward_pairs ntf e ps pk w1
         else bindO (Some (if pe_attach e then head_of peer pk else Inr pk)) (\<lambda>pk1.
              bindO (transfer e incoming sock pk1 w1) (\<lambda>(tot, pk2, w2).
                forward_pairs ntf e ps pk2
                  (if tot > 0 then w2\<lparr>w_center := account addr_str (word_of_int tot) (w_center w2)\<rparr>
                   else w2))))"

definition px_updateForForward :: "pworld notifier \<Rightarrow> penv \<Rightarrow> ctx \<Rightarrow> pworld \<Rightarrow> pworld result option" where
  "px_updateForForward ntf e x w =
     bindO (Some (as_forward x)) (\<lambda>ps. forward_pairs ntf e ps blank_packet w)"

definition px_update :: "pworld notifier \<Rightarrow> penv \<Rightarrow> ctx \<Rightarrow> pworld \<Rightarrow> (ctx \<times> pworld) result option" where
  "px_update ntf e x w =
     (if event_type x = pub_code DMPWAIT
      then bindO (px_updateForWait e x w) (\<lambda>w'. Some (Inr (x, w')))
      else if event_type x = pub_code FORWARD
      then bindO (px_updateForForward ntf e x w) (\<lambda>w'. Some (Inr (x, w')))
      else Some (Inr (x, w)))"

section \<open>Moving bytes: lemmas\<close>

text \<open>The kernel's contract for \<open>send\<close> and \<open>splice\<close>: an error, or some of the bytes, at least one.\<close>

definition takes_some :: "(nat \<Rightarrow> nat \<Rightarrow> int) \<Rightarrow> bool" where
  "takes_some ans \<longleftrightarrow> (\<forall>i n. ans i n = -1 \<or> (n = 0 \<and> ans i n = 0) \<or> (1 \<le> ans i n \<and> ans i n \<le> int n))"

definition never_fails :: "(nat \<Rightarrow> nat \<Rightarrow> int) \<Rightarrow> bool" where
  "never_fails ans \<longleftrightarrow> (\<forall>i n. ans i n \<noteq> -1)"

lemma takes_some_cases:
  assumes "takes_some ans"
  obtains "ans i n = -1" | "n = 0" "ans i n = 0" | m where "ans i n = int m" "1 \<le> m" "m \<le> n"
proof -
  consider "ans i n = -1" | "n = 0" "ans i n = 0" | "1 \<le> ans i n" "ans i n \<le> int n"
    using assms unfolding takes_some_def by blast
  then show thesis
  proof cases
    case 3
    then show thesis by (intro that(3) [of "nat (ans i n)"]) auto
  qed (use that in blast)+
qed

lemma send_loop_takes:
  assumes "takes_some ans" "length data \<le> MAX_PACKET_SIZE" "k \<le> length data"
    "length seg = MAX_PACKET_SIZE" "take (length data) seg = data"
  shows "\<exists>j. k \<le> j \<and> j \<le> length data \<and> (never_fails ans \<longrightarrow> j = length data) \<and>
    send_loop ans seg (word_of_nat (length data)) (int (length data)) i (int k) (take k data) =
      Some (Inr (int j, take j data))"
  using assms(3)
proof (induction "length data - k" arbitrary: k i rule: less_induct)
  case less
  let ?n = "length data - k"
  have "word_of_nat (length data) - word_of_int (int k) = (word_of_nat ?n :: u64)"
    using less.prems by (simp add: of_nat_diff)
  moreover have "?n \<le> vec_max" using assms(2) by (simp add: MAX_PACKET_SIZE_def vec_max_def)
  ultimately have count: "unat (word_of_nat (length data) - word_of_int (int k) :: u64) = ?n" by simp
  have fits: "\<not> length seg < nat (int k) + ?n" using less.prems assms(2,4) by simp
  show ?case
  proof (rule takes_some_cases [OF assms(1), of i ?n])
    assume fail: "ans i ?n = -1"
    then have "\<not> never_fails ans" by (auto simp: never_fails_def)
    with fail show ?thesis using less.prems count fits
      by (intro exI [of _ k]) (simp add: send_loop.simps)
  next
    assume "?n = 0" "ans i ?n = 0"
    then show ?thesis using less.prems count fits
      by (intro exI [of _ k]) (simp add: send_loop.simps)
  next
    fix m assume 3: "ans i ?n = int m" "1 \<le> m" "m \<le> ?n"
    have bytes: "take k data @ take m (drop k seg) = take (k + m) data"
    proof -
      have "take m (drop k data) = take m (drop k seg)"
        using 3(3) less.prems arg_cong [OF assms(5), of "\<lambda>xs. take m (drop k xs)"]
        by (simp add: drop_take min_def)
      then show ?thesis by (simp add: take_add)
    qed
    show ?thesis
    proof (cases "k + m = length data")
      case True
      then show ?thesis using 3 less.prems count fits bytes
        by (intro exI [of _ "length data"]) (simp add: send_loop.simps flip: of_nat_add)
    next
      case False
      have "length data - (k + m) < length data - k" "k + m \<le> length data"
        using 3 less.prems by auto
      from less.hyps [OF this, of "Suc i"] obtain j where j: "k + m \<le> j" "j \<le> length data"
          "never_fails ans \<longrightarrow> j = length data"
          "send_loop ans seg (word_of_nat (length data)) (int (length data)) (Suc i) (int (k + m))
             (take (k + m) data) = Some (Inr (int j, take j data))"
        by blast
      moreover have "send_loop ans seg (word_of_nat (length data)) (int (length data)) i (int k) (take k data) =
          send_loop ans seg (word_of_nat (length data)) (int (length data)) (Suc i) (int (k + m)) (take (k + m) data)"
        using 3 False count fits bytes by (subst send_loop.simps) (simp add: Let_def flip: of_nat_add)
      ultimately show ?thesis by (intro exI [of _ j]) simp
    qed
  qed
qed

lemma segment_blank [simp]: "length (segment blank_packet) = MAX_PACKET_SIZE"
  by (simp add: blank_packet_def)

lemma write_blank:
  "length data \<le> MAX_PACKET_SIZE \<Longrightarrow>
   write_mem (segment blank_packet) 0 data = Inr (overwrite (segment blank_packet) 0 data)"
  by (simp add: write_mem_def)

lemma forward_takes:
  assumes "takes_some (pe_send e out_fd)" "pe_read e in_fd = (int (length data), data)"
    "length data \<le> MAX_PACKET_SIZE"
  shows "\<exists>j pk'. j \<le> length data \<and> (never_fails (pe_send e out_fd) \<longrightarrow> j = length data) \<and>
    pk_head pk' = pk_head blank_packet \<and>
    forward e in_fd out_fd pk w = Some (Inr (int j, pk', w\<lparr>w_out := w_out w @ [(out_fd, take j data)]\<rparr>))"
proof -
  let ?seg = "overwrite (segment blank_packet) 0 data"
  have seg: "length ?seg = MAX_PACKET_SIZE" "take (length data) ?seg = data"
    using assms(3) by (simp_all add: overwrite_0)
  obtain j where "j \<le> length data" "never_fails (pe_send e out_fd) \<longrightarrow> j = length data"
    "send_loop (pe_send e out_fd) ?seg (word_of_nat (length data)) (int (length data)) 0 0 [] =
      Some (Inr (int j, take j data))"
    using send_loop_takes [OF assms(1,3) _ seg, of 0 0] by auto
  then show ?thesis
    using assms(2,3) by (intro exI [of _ j] exI [of _ "blank_packet\<lparr>segment := ?seg, pk_length := word_of_nat (length data)\<rparr>"])
      (simp add: forward_def write_blank Let_def)
qed

text \<open>C24. \<open>forward\<close> returns and is exact: when the kernel's \<open>send\<close> takes at least one byte or
  fails, it ends, whatever the packet held before, with a prefix of the bytes read delivered
  in order and their number as its result; all of them when no \<open>send\<close> fails (bytes after a
  failed \<open>send\<close> are dropped).\<close>

theorem forward_exact:
  assumes "takes_some (pe_send e out_fd)" "pe_read e in_fd = (int (length data), data)"
    "length data \<le> MAX_PACKET_SIZE"
  shows "\<exists>j pk'. j \<le> length data \<and>
    forward e in_fd out_fd pk w = Some (Inr (int j, pk', w\<lparr>w_out := w_out w @ [(out_fd, take j data)]\<rparr>)) \<and>
    (never_fails (pe_send e out_fd) \<longrightarrow> take j data = data)"
  using forward_takes [OF assms, of pk w] by auto

definition demo_ntf :: "pworld notifier" where
  "demo_ntf p t x w = Inr (x, w)"

definition demo_world :: pworld where
  "demo_world = \<lparr>w_center = new_center, w_dmps = [0 \<mapsto> \<lparr>dmp_id = 3, dmpfd = 4, notify_on = False\<rparr>,
       1 \<mapsto> \<lparr>dmp_id = 4, dmpfd = 5, notify_on = False\<rparr>],
     w_px = \<lparr>px_addr = 70, px_sub = 0, px_pub = 0, px_stop = False, sock_map = Map.empty,
       reversed_map = Map.empty,
       px_group = \<lparr>g_stop = False, g_dmps = [0, 1], g_done = [False, False], g_notify = True, g_iter = 0\<rparr>\<rparr>,
     w_pipe = [], w_out = [], w_conns = [], w_sys = []\<rparr>"

definition demo_penv :: penv where
  "demo_penv = \<lparr>pe_attach = True, pe_connect = (\<lambda>c. (c + 100, 0)),
     pe_peer = (\<lambda>f. make_inet ''1.2.3.4'' (word_of_int f)), pe_read = (\<lambda>f. (2, ''ok'')),
     pe_errno = (\<lambda>f. 0), pe_send = (\<lambda>f i n. int (min 1 n)), pe_splice_in = (\<lambda>f. (2, ''ok'')),
     pe_splice_out = (\<lambda>f i n. int (min 1 n)), pe_ctl = (\<lambda>c. 0)\<rparr>"

lemma demo_sends: "takes_some (pe_send demo_penv f)" "never_fails (pe_send demo_penv f)"
  by (auto simp: takes_some_def never_fails_def demo_penv_def min_def)

theorem forward_exact_witness:
  "\<exists>pk'. forward demo_penv 7 8 blank_packet demo_world =
     Some (Inr (2, pk', demo_world\<lparr>w_out := w_out demo_world @ [(8, ''ok'')]\<rparr>))"
proof -
  have p: "pe_read demo_penv 7 = (int (length ''ok''), ''ok'')" "length ''ok'' \<le> MAX_PACKET_SIZE"
    by (simp_all add: demo_penv_def MAX_PACKET_SIZE_def)
  from forward_exact [OF demo_sends(1) p, of 8 blank_packet demo_world] demo_sends(2) [of 8]
  obtain j pk' where j: "j \<le> length ''ok''" "take j ''ok'' = ''ok''"
    "forward demo_penv 7 8 blank_packet demo_world = Some (Inr (int j, pk', demo_world\<lparr>w_out := w_out demo_world @ [(8, take j ''ok'')]\<rparr>))"
    by blast
  from arg_cong [OF j(2), of length] j(1) have "j = 2" by simp
  with j(3) show ?thesis by simp
qed

text \<open>A failed \<open>read\<close> other than \<open>EAGAIN\<close> is not recognised: \<open>forward\<close> takes its answer for
  a length, so that \<open>packet->length_\<close> is \<open>2^64 - 1\<close>, and asks the kernel to send that many
  bytes from the packet of \<open>64K\<close>.\<close>

theorem forward_read_error:
  assumes "pe_read e in_fd = (-1, [])" "pe_errno e in_fd \<noteq> EAGAIN"
  shows "forward e in_fd out_fd pk w = Some (Inl OutOfBounds)"
proof -
  have "unat (-1 :: u64) = 2 ^ 64 - 1" by (simp add: unsigned_minus_1_eq_mask mask_eq_exp_minus_1)
  then have "send_loop ans seg (-1) (-1) 0 0 [] = Some (Inl OutOfBounds)"
    if "length seg = MAX_PACKET_SIZE" for ans seg
    using that by (subst send_loop.simps) (simp add: Let_def MAX_PACKET_SIZE_def)
  moreover have "length (overwrite (segment blank_packet) 0 []) = MAX_PACKET_SIZE" by simp
  ultimately show ?thesis
    using assms write_blank [of "[]"]
    by (simp add: forward_def Let_def EAGAIN_def EWOULDBLOCK_def)
qed

theorem forward_read_error_witness:
  "forward (demo_penv\<lparr>pe_read := (\<lambda>f. (-1, [])), pe_errno := (\<lambda>f. 104)\<rparr>) 7 8 blank_packet demo_world =
     Some (Inl OutOfBounds)"
  using forward_read_error [of "demo_penv\<lparr>pe_read := (\<lambda>f. (-1, [])), pe_errno := (\<lambda>f. 104)\<rparr>" 7 8 blank_packet demo_world]
  by (simp add: EAGAIN_def)

text \<open>The pipe is a queue: what \<open>zeroCopy\<close> finds and puts there comes out in order.\<close>

lemma splice_loop_takes:
  assumes "takes_some ans" "k \<le> n" "n \<le> length p"
  shows "\<exists>j. k \<le> j \<and> j \<le> n \<and> (never_fails ans \<longrightarrow> j = n) \<and>
    splice_loop ans (int (n - k)) i (int k) (drop k p) (take k p) = Some (int j, drop j p, take j p)"
  using assms(2)
proof (induction "n - k" arbitrary: k i rule: less_induct)
  case less
  show ?case
  proof (cases "k = n")
    case True
    then have "splice_loop ans (int (n - k)) i (int k) (drop k p) (take k p) =
        Some (int n, drop n p, take n p)"
      by (subst splice_loop.simps) simp
    with True show ?thesis by (intro exI [of _ n]) simp
  next
    case False
    then have pos: "\<not> int (n - k) \<le> 0" using less.prems by simp
    show ?thesis
    proof (rule takes_some_cases [OF assms(1), of i "n - k"])
      assume fail: "ans i (n - k) = -1"
      then have "\<not> never_fails ans" by (auto simp: never_fails_def)
      moreover have "splice_loop ans (int (n - k)) i (int k) (drop k p) (take k p) =
          Some (int k, drop k p, take k p)"
        using pos by (subst splice_loop.simps) (simp only: Let_def nat_int fail if_False, simp)
      ultimately show ?thesis using less.prems by (intro exI [of _ k]) simp
    next
      assume "n - k = 0"
      then show ?thesis using pos by simp
    next
      fix m assume m: "ans i (n - k) = int m" "1 \<le> m" "m \<le> n - k"
      have "n - (k + m) < n - k" "k + m \<le> n" using m less.prems by auto
      from less.hyps [OF this, of "Suc i"] obtain j where j: "k + m \<le> j" "j \<le> n"
          "never_fails ans \<longrightarrow> j = n"
          "splice_loop ans (int (n - (k + m))) (Suc i) (int (k + m)) (drop (k + m) p) (take (k + m) p) =
             Some (int j, drop j p, take j p)"
        by blast
      moreover have "splice_loop ans (int (n - k)) i (int k) (drop k p) (take k p) =
          splice_loop ans (int (n - (k + m))) (Suc i) (int (k + m)) (drop (k + m) p) (take (k + m) p)"
      proof -
        have eqs: "int (n - k) - int m = int (n - (k + m))" "int k + int m = int (k + m)"
          "drop m (drop k p) = drop (k + m) p" "take k p @ take m (drop k p) = take (k + m) p"
          using m less.prems by (simp_all add: take_add add.commute)
        have "\<not> int m < 0" by simp
        then show ?thesis
          using pos m(1) by (subst splice_loop.simps) (simp only: Let_def eqs nat_int if_False)
      qed
      ultimately show ?thesis by (intro exI [of _ j]) simp
    qed
  qed
qed



section \<open>The two maps\<close>

definition maps_ok :: "proxy \<Rightarrow> bool" where
  "maps_ok p \<longleftrightarrow> (\<forall>b c. sock_map p b = Some c \<longleftrightarrow> reversed_map p c = Some b)"

text \<open>
  A well-formed proxy: the maps are inverse to each other, the group's cursor is in range,
  and its demultiplexers exist and are quiet, as the constructor leaves them.
\<close>

definition px_ok :: "pworld \<Rightarrow> bool" where
  "px_ok w \<longleftrightarrow> maps_ok (w_px w) \<and> group_ok (px_group (w_px w)) \<and>
     (\<forall>a \<in> set (g_dmps (px_group (w_px w))). \<exists>d. w_dmps w a = Some d \<and> \<not> notify_on d)"

lemma maps_ok_insert:
  assumes "maps_ok p" "reversed_map p c = None" "sock_map p b = None"
  shows "maps_ok (p\<lparr>sock_map := (sock_map p)(b \<mapsto> c), reversed_map := (reversed_map p)(c \<mapsto> b),
    px_group := g\<rparr>)"
  using assms unfolding maps_ok_def by simp (metis option.distinct(1) option.inject)

lemma maps_ok_forget: "maps_ok (w_px w) \<Longrightarrow> maps_ok (w_px (forget f w))"
proof (cases "sock_map (w_px w) f")
  case (Some c)
  assume ok: "maps_ok (w_px w)"
  then have r: "reversed_map (w_px w) c = Some f" using Some by (simp add: maps_ok_def)
  have "w_px (forget f w) = (w_px w)\<lparr>reversed_map := (reversed_map (w_px w))(c := None),
      sock_map := (sock_map (w_px w))(f := None)\<rparr>"
    using Some by (simp add: forget_def upd_px_def erase_def)
  then show ?thesis
    using ok Some r unfolding maps_ok_def by simp (metis option.inject)
qed (simp add: forget_def)

lemma forget_maps:
  "maps_ok (w_px w) \<Longrightarrow> sock_map (w_px (forget f w)) = (sock_map (w_px w))(f := None)"
  by (auto simp: forget_def upd_px_def erase_def fun_upd_idem split: option.splits)

text \<open>The part of it that registering needs.\<close>

definition quiet_group :: "pworld \<Rightarrow> bool" where
  "quiet_group w \<longleftrightarrow> group_ok (px_group (w_px w)) \<and>
     (\<forall>a \<in> set (g_dmps (px_group (w_px w))). \<exists>d. w_dmps w a = Some d \<and> \<not> notify_on d)"

lemma px_ok_iff: "px_ok w \<longleftrightarrow> maps_ok (w_px w) \<and> quiet_group w"
  by (auto simp: px_ok_def quiet_group_def)

lemma quiet_group_frame:
  "quiet_group w \<Longrightarrow> group_ok g \<Longrightarrow> g_dmps g = g_dmps (px_group (w_px w)) \<Longrightarrow>
   px_group (w_px w') = g \<Longrightarrow> w_dmps w' = w_dmps w \<Longrightarrow> quiet_group w'"
  by (simp add: quiet_group_def)

lemma register_step:
  assumes "quiet_group w"
  shows "\<exists>n g d. next_dmp (px_group (w_px w)) = Inr (n, g) \<and> group_ok g \<and>
    g_dmps g = g_dmps (px_group (w_px w)) \<and> (\<exists>i. g = (px_group (w_px w))\<lparr>g_iter := i\<rparr>) \<and> w_dmps w n = Some d \<and>
    px_registerFd ntf e f w = Inr (w\<lparr>w_px := (w_px w)\<lparr>px_group := g\<rparr>,
      w_sys := w_sys w @ [Fcntl f, EpollCtl (dmpfd d) CtlAdd f DefaultEvents]\<rparr>)"
proof -
  let ?g = "px_group (w_px w)"
  have ok: "group_ok ?g" using assms by (simp add: quiet_group_def)
  from dmps.step_law [OF ok] obtain g where g: "next_dmp ?g = Inr (g_dmps ?g ! g_iter ?g, g)"
      "group_ok g" "g_dmps g = g_dmps ?g"
    by blast
  have i: "\<exists>i. g = ?g\<lparr>g_iter := i\<rparr>" using g(1) by (auto simp: next_dmp_def split: if_splits)
  have "g_dmps ?g ! g_iter ?g \<in> set (g_dmps ?g)" using ok by (simp add: group_ok_def)
  then obtain d where d: "w_dmps w (g_dmps ?g ! g_iter ?g) = Some d" "\<not> notify_on d"
    using assms unfolding quiet_group_def by blast
  have "px_registerFd ntf e f w = Inr (w\<lparr>w_px := (w_px w)\<lparr>px_group := g\<rparr>,
      w_sys := w_sys w @ [Fcntl f, EpollCtl (dmpfd d) CtlAdd f DefaultEvents]\<rparr>)"
    using g(1) d
    by (simp add: px_registerFd_def demultiplexRegister_def notify_if_def w_syscall_def upd_px_def)
  with g i d(1) show ?thesis by blast
qed

lemma px_ok_frame:
  "px_ok w \<Longrightarrow> group_ok g \<Longrightarrow> g_dmps g = g_dmps (px_group (w_px w)) \<Longrightarrow> maps_ok p \<Longrightarrow>
   px_group p = g \<Longrightarrow> w_px w' = p \<Longrightarrow> w_dmps w' = w_dmps w \<Longrightarrow> px_ok w'"
  by (simp add: px_ok_def)

text \<open>A connection to a backend is made, and registered on two demultiplexers in turn.\<close>

lemma assure_new:
  assumes "quiet_group w" "reversed_map (w_px w) c = None" "pe_connect e c = (b, ret)" "0 \<le> b" "0 \<le> ret"
  shows "\<exists>n1 n2 g d1 d2. serve next_dmp 2 (px_group (w_px w)) = Inr ([n1, n2], g) \<and>
    w_dmps w n1 = Some d1 \<and> w_dmps w n2 = Some d2 \<and> group_ok g \<and>
    g_dmps g = g_dmps (px_group (w_px w)) \<and> (\<exists>i. g = (px_group (w_px w))\<lparr>g_iter := i\<rparr>) \<and>
    assure_backend ntf e c a w = Inr (True, w\<lparr>
      w_px := (w_px w)\<lparr>sock_map := emplace (sock_map (w_px w)) b c,
                       reversed_map := (reversed_map (w_px w))(c \<mapsto> b), px_group := g\<rparr>,
      w_conns := w_conns w @ [(b, a)],
      w_sys := w_sys w @ [Fcntl b, Fcntl b, EpollCtl (dmpfd d1) CtlAdd b DefaultEvents,
                          Fcntl b, EpollCtl (dmpfd d2) CtlAdd b DefaultEvents]\<rparr>)"
proof -
  let ?w0 = "w\<lparr>w_conns := w_conns w @ [(b, a)], w_sys := w_sys w @ [Fcntl b]\<rparr>"
  have ok0: "quiet_group ?w0" using assms(1) by (simp add: quiet_group_def)
  from register_step [OF ok0, of ntf e b] obtain n1 g1 d1 where
    1: "next_dmp (px_group (w_px w)) = Inr (n1, g1)" "group_ok g1"
      "g_dmps g1 = g_dmps (px_group (w_px w))" "\<exists>i. g1 = (px_group (w_px w))\<lparr>g_iter := i\<rparr>" "w_dmps w n1 = Some d1"
      "px_registerFd ntf e b ?w0 = Inr (?w0\<lparr>w_px := (w_px w)\<lparr>px_group := g1\<rparr>,
        w_sys := w_sys ?w0 @ [Fcntl b, EpollCtl (dmpfd d1) CtlAdd b DefaultEvents]\<rparr>)"
    by auto
  let ?p = "(w_px w)\<lparr>sock_map := emplace (sock_map (w_px w)) b c,
    reversed_map := (reversed_map (w_px w))(c \<mapsto> b), px_group := g1\<rparr>"
  let ?w1 = "?w0\<lparr>w_px := ?p,
    w_sys := w_sys ?w0 @ [Fcntl b, EpollCtl (dmpfd d1) CtlAdd b DefaultEvents]\<rparr>"
  have ok1: "quiet_group ?w1" using quiet_group_frame [OF ok0, of g1 ?w1] 1(2,3) by simp
  from register_step [OF ok1, of ntf e b] obtain n2 g2 d2 where
    2: "next_dmp g1 = Inr (n2, g2)" "group_ok g2" "g_dmps g2 = g_dmps g1" "\<exists>i. g2 = g1\<lparr>g_iter := i\<rparr>" "w_dmps w n2 = Some d2"
      "px_registerFd ntf e b ?w1 = Inr (?w1\<lparr>w_px := ?p\<lparr>px_group := g2\<rparr>,
        w_sys := w_sys ?w1 @ [Fcntl b, EpollCtl (dmpfd d2) CtlAdd b DefaultEvents]\<rparr>)"
    by auto
  have "serve next_dmp 2 (px_group (w_px w)) = Inr ([n1, n2], g2)"
    using 1(1) 2(1) by (simp add: numeral_2_eq_2)
  moreover have "establishWith ntf e c a w = Inr (b, ?w0\<lparr>w_px := (w_px w)\<lparr>px_group := g1\<rparr>,
        w_sys := w_sys ?w0 @ [Fcntl b, EpollCtl (dmpfd d1) CtlAdd b DefaultEvents]\<rparr>)"
    using 1(6) assms(3-5) by (simp add: establishWith_def connectTo_def w_syscall_def)
  moreover have "upd_px (\<lambda>p. p\<lparr>sock_map := emplace (sock_map p) b c,
        reversed_map := emplace (reversed_map p) c b\<rparr>) (?w0\<lparr>w_px := (w_px w)\<lparr>px_group := g1\<rparr>,
        w_sys := w_sys ?w0 @ [Fcntl b, EpollCtl (dmpfd d1) CtlAdd b DefaultEvents]\<rparr>) = ?w1"
    using assms(2) by (simp add: upd_px_def)
  ultimately have "assure_backend ntf e c a w = Inr (True, ?w1\<lparr>w_px := ?p\<lparr>px_group := g2\<rparr>,
        w_sys := w_sys ?w1 @ [Fcntl b, EpollCtl (dmpfd d2) CtlAdd b DefaultEvents]\<rparr>)"
    using 2(6) assms(2,4) by (simp only: assure_backend_def) simp
  moreover note \<open>serve next_dmp 2 (px_group (w_px w)) = Inr ([n1, n2], g2)\<close>
  moreover have "\<exists>i. g2 = (px_group (w_px w))\<lparr>g_iter := i\<rparr>" using 1(4) 2(4) by auto
  ultimately show ?thesis using 1(3,5) 2(2,3,5) by simp
qed

text \<open>Every backend socket is registered twice. Making the connection for a new client
  adds its socket to the demultiplexer at the group's cursor and, after the maps have it, to
  the next one too, so that with two threads both see every event of the backend.\<close>

theorem registered_twice:
  assumes "px_ok w" "reversed_map (w_px w) c = None" "pe_connect e c = (b, ret)" "0 \<le> b" "0 \<le> ret"
    "sock_map (w_px w) b = None"
  shows "\<exists>w' d1 d2. assure_backend ntf e c a w = Inr (True, w') \<and>
    (let g = px_group (w_px w); n = length (g_dmps g) in
       w_dmps w (g_dmps g ! (g_iter g mod n)) = Some d1 \<and>
       w_dmps w (g_dmps g ! (Suc (g_iter g) mod n)) = Some d2) \<and>
    w_sys w' = w_sys w @ [Fcntl b, Fcntl b, EpollCtl (dmpfd d1) CtlAdd b DefaultEvents,
                          Fcntl b, EpollCtl (dmpfd d2) CtlAdd b DefaultEvents]"
proof -
  obtain n1 n2 g d1 d2 w' where sv: "serve next_dmp 2 (px_group (w_px w)) = Inr ([n1, n2], g)"
      "w_dmps w n1 = Some d1" "w_dmps w n2 = Some d2" "assure_backend ntf e c a w = Inr (True, w')"
      "w_sys w' = w_sys w @ [Fcntl b, Fcntl b, EpollCtl (dmpfd d1) CtlAdd b DefaultEvents,
                             Fcntl b, EpollCtl (dmpfd d2) CtlAdd b DefaultEvents]"
    using assure_new [OF _ assms(2-5), of ntf a] assms(1) by (auto simp: px_ok_iff)
  have "group_ok (px_group (w_px w))" using assms(1) by (simp add: px_ok_def)
  from dmps.serve_nth [OF this sv(1), of 0] dmps.serve_nth [OF this sv(1), of 1] sv(2-)
  show ?thesis by (simp add: Let_def)
qed

lemma demo_world_ok: "px_ok demo_world"
  by (auto simp: px_ok_def demo_world_def maps_ok_def group_ok_def)

theorem registered_twice_witness:
  "\<exists>w' d1 d2. assure_backend demo_ntf demo_penv 7 (make_inet ''a'' 1) demo_world = Inr (True, w') \<and>
     w_dmps demo_world 0 = Some d1 \<and> w_dmps demo_world 1 = Some d2 \<and>
     w_sys w' = [Fcntl 107, Fcntl 107, EpollCtl (dmpfd d1) CtlAdd 107 DefaultEvents,
                 Fcntl 107, EpollCtl (dmpfd d2) CtlAdd 107 DefaultEvents]"
  using registered_twice [OF demo_world_ok, of 7 demo_penv 107 0 demo_ntf "make_inet ''a'' 1"]
  by (auto simp: demo_world_def demo_penv_def Let_def)

section \<open>Forwarding requests\<close>

lemma to_dec_bound: "n < 10 ^ Suc k \<Longrightarrow> length (to_dec n) \<le> Suc k"
proof (induction k arbitrary: n)
  case 0
  then show ?case by (simp add: to_dec.simps)
next
  case (Suc k)
  show ?case
  proof (cases "n < 10")
    case False
    have "n div 10 < 10 ^ Suc k" using Suc.prems by (simp add: div_less_iff_less_mult mult.commute)
    with Suc.IH False show ?thesis by (subst to_dec.simps) simp
  qed (simp add: to_dec.simps)
qed

lemma port_fits: "length (port_string a) \<le> MAX_PORT_SIZE"
proof -
  have "unat (inet_port a) < 2 ^ LENGTH(16)" by (rule unsigned_less)
  then have "unat (inet_port a) < 10 ^ Suc 4" by simp
  from to_dec_bound [OF this] show ?thesis by (simp add: port_string_def MAX_PORT_SIZE_def)
qed

lemma head_fits:
  assumes "length (ip_string a) \<le> 15" "length (pk_head pk) = MAX_IP_SIZE + MAX_PORT_SIZE"
  shows "\<exists>pk'. head_of a pk = Inr pk'"
  using assms port_fits [of a]
  by (simp add: head_of_def write_mem_def MAX_IP_SIZE_def MAX_PORT_SIZE_def)

text \<open>What a client brings: the connection it gets, its request, its address's account.\<close>

definition backend_of :: "penv \<Rightarrow> pworld \<Rightarrow> fd \<Rightarrow> fd" where
  "backend_of e w c = (case reversed_map (w_px w) c of Some b \<Rightarrow> b | None \<Rightarrow> fst (pe_connect e c))"

definition request :: "penv \<Rightarrow> fd \<Rightarrow> string" where
  "request e c = snd (pe_read e c)"

definition peer_text :: "penv \<Rightarrow> fd \<Rightarrow> string" where
  "peer_text e c = toString (pe_peer e c)"

definition good_client :: "penv \<Rightarrow> pworld \<Rightarrow> fd \<Rightarrow> bool" where
  "good_client e w c \<longleftrightarrow>
     (reversed_map (w_px w) c = None \<longrightarrow> 0 \<le> fst (pe_connect e c) \<and> 0 \<le> snd (pe_connect e c) \<and>
        sock_map (w_px w) (fst (pe_connect e c)) = None) \<and>
     fst (pe_read e c) = int (length (request e c)) \<and> length (request e c) \<le> MAX_PACKET_SIZE \<and>
     takes_some (pe_send e (backend_of e w c)) \<and> never_fails (pe_send e (backend_of e w c)) \<and>
     length (ip_string (pe_peer e c)) \<le> 15 \<and>
     (\<exists>t. traffic_map (w_center w) (peer_text e c) = Some t \<and> t \<le> MAX_TRAFFIC)"

text \<open>The new connections of a batch, and what one client leaves.\<close>

definition new_conns :: "penv \<Rightarrow> pworld \<Rightarrow> (fd \<times> inet_addr) list \<Rightarrow> (fd \<times> inet_addr) list" where
  "new_conns e w ps = map (\<lambda>q. (fst (pe_connect e (fst q)), snd q))
     (filter (\<lambda>q. reversed_map (w_px w) (fst q) = None) ps)"

text \<open>What the proxy's handlers leave alone: its addresses, its demultiplexers, the group but for its cursor.\<close>

definition px_frame :: "pworld \<Rightarrow> pworld \<Rightarrow> bool" where
  "px_frame w w' \<longleftrightarrow> px_addr (w_px w') = px_addr (w_px w) \<and> w_dmps w' = w_dmps w \<and>
     (\<exists>i. px_group (w_px w') = (px_group (w_px w))\<lparr>g_iter := i\<rparr>)"

lemma px_frame_refl [simp]: "px_frame w w"
  by (auto simp: px_frame_def intro!: exI [of _ "g_iter (px_group (w_px w))"])

lemma px_frame_trans: "px_frame w w' \<Longrightarrow> px_frame w' w'' \<Longrightarrow> px_frame w w''"
  by (auto simp: px_frame_def)

text \<open>The descriptors watched are the backends in the map.\<close>

definition px_tracks :: "pworld \<Rightarrow> bool" where
  "px_tracks w \<longleftrightarrow> watched (w_sys w) = dom (sock_map (w_px w))"

text \<open>The kernel's answers to a client that has no backend yet: a connection under a free descriptor.\<close>

definition connectable :: "penv \<Rightarrow> pworld \<Rightarrow> fd \<Rightarrow> bool" where
  "connectable e w c \<longleftrightarrow> (reversed_map (w_px w) c = None \<longrightarrow> 0 \<le> fst (pe_connect e c) \<and> 0 \<le> snd (pe_connect e c) \<and>
     sock_map (w_px w) (fst (pe_connect e c)) = None)"

lemma good_connectable: "good_client e w c \<Longrightarrow> connectable e w c"
  by (simp add: good_client_def connectable_def)

lemma assure_good:
  assumes "px_ok w" "connectable e w c"
  shows "\<exists>w'. assure_backend ntf e c a w = Inr (True, w') \<and> px_ok w' \<and>
    reversed_map (w_px w') = (reversed_map (w_px w))(c \<mapsto> backend_of e w c) \<and>
    dom (sock_map (w_px w')) = insert (backend_of e w c) (dom (sock_map (w_px w))) \<and>
    w_conns w' = w_conns w @ new_conns e w [(c, a)] \<and> w_out w' = w_out w \<and> w_pipe w' = w_pipe w \<and>
    w_center w' = w_center w \<and> px_frame w w' \<and> (px_tracks w \<longrightarrow> px_tracks w')"
proof (cases "reversed_map (w_px w) c")
  case (Some b)
  have "maps_ok (w_px w)" using assms(1) by (simp add: px_ok_def)
  then have "sock_map (w_px w) b = Some c" using Some by (simp add: maps_ok_def)
  then have "insert b (dom (sock_map (w_px w))) = dom (sock_map (w_px w))" by auto
  then show ?thesis using Some assms(1)
    by (intro exI [of _ w]) (simp add: assure_backend_def backend_of_def new_conns_def fun_upd_idem)
next
  case None
  obtain b ret where b: "pe_connect e c = (b, ret)" by (cases "pe_connect e c")
  have g: "0 \<le> b" "0 \<le> ret" "sock_map (w_px w) b = None"
    using assms(2) None b by (simp_all add: connectable_def)
  have "quiet_group w" using assms(1) by (simp add: px_ok_iff)
  from assure_new [OF this None b g(1,2), of ntf a, unfolded emplace_fresh [of "sock_map (w_px w)", OF g(3)]] obtain g' and d1 d2 :: demux and i where
    w': "group_ok g'" "g_dmps g' = g_dmps (px_group (w_px w))" "g' = (px_group (w_px w))\<lparr>g_iter := i\<rparr>"
      "assure_backend ntf e c a w = Inr (True, w\<lparr>
      w_px := (w_px w)\<lparr>sock_map := (sock_map (w_px w))(b \<mapsto> c),
                       reversed_map := (reversed_map (w_px w))(c \<mapsto> b), px_group := g'\<rparr>,
      w_conns := w_conns w @ [(b, a)], w_sys := w_sys w @ [Fcntl b, Fcntl b, EpollCtl (dmpfd d1) CtlAdd b DefaultEvents,
                          Fcntl b, EpollCtl (dmpfd d2) CtlAdd b DefaultEvents]\<rparr>)"
    by (elim exE conjE)
  have "maps_ok (w_px w)" using assms(1) by (simp add: px_ok_def)
  from px_ok_frame [OF assms(1) w'(1,2) maps_ok_insert [OF this None g(3)]] w'(3,4) None b
  show ?thesis by (simp add: backend_of_def new_conns_def px_frame_def px_tracks_def watched_append) blast
qed

definition accounted :: "string \<Rightarrow> nat \<Rightarrow> center \<Rightarrow> center" where
  "accounted s n c = (if n = 0 then c else account s (word_of_nat n) c)"

lemma forward_client:
  assumes "px_ok w" "good_client e w c" "pe_attach e"
    "length (pk_head pk) = MAX_IP_SIZE + MAX_PORT_SIZE"
  shows "\<exists>w' pk'. forward_pairs ntf e ((c, a) # ps) pk w = forward_pairs ntf e ps pk' w' \<and>
    length (pk_head pk') = MAX_IP_SIZE + MAX_PORT_SIZE \<and> px_ok w' \<and>
    reversed_map (w_px w') = (reversed_map (w_px w))(c \<mapsto> backend_of e w c) \<and>
    dom (sock_map (w_px w')) = insert (backend_of e w c) (dom (sock_map (w_px w))) \<and>
    w_conns w' = w_conns w @ new_conns e w [(c, a)] \<and>
    w_out w' = w_out w @ [(backend_of e w c, request e c)] \<and>
    w_center w' = accounted (peer_text e c) (length (request e c)) (w_center w)"
proof -
  obtain w1 where w1: "assure_backend ntf e c a w = Inr (True, w1)" "px_ok w1"
      "reversed_map (w_px w1) = (reversed_map (w_px w))(c \<mapsto> backend_of e w c)"
      "dom (sock_map (w_px w1)) = insert (backend_of e w c) (dom (sock_map (w_px w)))"
      "w_conns w1 = w_conns w @ new_conns e w [(c, a)]" "w_out w1 = w_out w" "w_center w1 = w_center w"
    using assure_good [OF assms(1) good_connectable [OF assms(2)], of ntf a] by blast
  have g: "pe_read e c = (int (length (request e c)), request e c)"
      "length (request e c) \<le> MAX_PACKET_SIZE" "takes_some (pe_send e (backend_of e w c))"
      "never_fails (pe_send e (backend_of e w c))" "length (ip_string (pe_peer e c)) \<le> 15"
    using assms(2) by (auto simp: good_client_def request_def prod_eq_iff)
  obtain t where t: "traffic_map (w_center w) (peer_text e c) = Some t" "t \<le> MAX_TRAFFIC"
    using assms(2) by (auto simp: good_client_def)
  then have lim: "\<not> isLismited (toString (pe_peer e c)) (w_center w1)"
    using w1(7) by (simp add: isLismited_def traffic_def peer_text_def)
  obtain pk1 where pk1: "head_of (pe_peer e c) pk = Inr pk1" using head_fits [OF g(5) assms(4)] by blast
  obtain pk2 where head: "pk_head pk2 = pk_head blank_packet" and fw: "forward e c (backend_of e w c) pk1 w1 = Some (Inr (int (length (request e c)), pk2,
      w1\<lparr>w_out := w_out w1 @ [(backend_of e w c, request e c)]\<rparr>))"
    using forward_takes [OF g(3,1,2), of pk1 w1] g(4) by auto
  let ?w2 = "w1\<lparr>w_out := w_out w1 @ [(backend_of e w c, request e c)],
    w_center := accounted (peer_text e c) (length (request e c)) (w_center w1)\<rparr>"
  have "length (pk_head pk2) = MAX_IP_SIZE + MAX_PORT_SIZE"
    using head by (simp add: blank_packet_def)
  moreover have "forward_pairs ntf e ((c, a) # ps) pk w = forward_pairs ntf e ps pk2 ?w2"
    using w1(1,3,6) lim pk1 fw assms(3)
    by (simp add: transfer_def Let_def accounted_def peer_text_def)
  moreover have "px_ok ?w2" using w1(2) by (simp add: px_ok_def)
  ultimately show ?thesis using w1(3-7) by (intro exI [of _ ?w2] exI [of _ pk2]) simp
qed

lemma traffic_accounted:
  "traffic_map c s = Some t \<Longrightarrow> traffic_map (accounted s n c) s = Some (t + word_of_nat n)"
  "s' \<noteq> s \<Longrightarrow> traffic_map (accounted s n c) s' = traffic_map c s'"
  by (simp_all add: accounted_def traffic_account)

text \<open>The connection of one client of a batch takes no descriptor from the clients after it.\<close>

lemma connectable_rest:
  assumes "maps_ok (w_px w)" "connectable e w (fst p)" "distinct (map fst (new_conns e w ((c, a) # ps)))"
    "p \<in> set ps" "reversed_map (w_px w) (fst p) = None"
  shows "fst (pe_connect e (fst p)) \<noteq> backend_of e w c"
proof (cases "reversed_map (w_px w) c")
  case None
  have "fst (pe_connect e (fst p)) \<in> set (map fst (new_conns e w ps))"
    using assms(4,5) by (auto simp: new_conns_def)
  moreover have "backend_of e w c \<notin> set (map fst (new_conns e w ps))"
    using assms(3) None by (simp add: new_conns_def backend_of_def)
  ultimately show ?thesis by metis
next
  case (Some b)
  then have "sock_map (w_px w) (backend_of e w c) = Some c"
    using assms(1) by (simp add: maps_ok_def backend_of_def)
  moreover have "sock_map (w_px w) (fst (pe_connect e (fst p))) = None"
    using assms(2,5) by (simp add: connectable_def)
  ultimately show ?thesis by (metis option.distinct(1))
qed

lemma connectable_later:
  assumes "connectable e w c'" "c' \<noteq> c" "reversed_map (w_px w') = (reversed_map (w_px w))(c \<mapsto> b)"
    "dom (sock_map (w_px w')) = insert b (dom (sock_map (w_px w)))"
    "reversed_map (w_px w) c' = None \<longrightarrow> fst (pe_connect e c') \<noteq> b"
  shows "connectable e w' c'" "backend_of e w' c' = backend_of e w c'"
proof -
  show "backend_of e w' c' = backend_of e w c'" using assms(2,3) by (simp add: backend_of_def)
  have "sock_map (w_px w') (fst (pe_connect e c')) = None" if "reversed_map (w_px w) c' = None"
  proof -
    have "fst (pe_connect e c') \<notin> dom (sock_map (w_px w'))"
      using assms(1,4,5) that by (simp add: connectable_def domIff)
    then show ?thesis by (simp add: domIff)
  qed
  then show "connectable e w' c'" using assms(1-3) by (simp add: connectable_def)
qed

lemma client_later:
  assumes "good_client e w c'" "c' \<noteq> c"
    "reversed_map (w_px w') = (reversed_map (w_px w))(c \<mapsto> b)"
    "dom (sock_map (w_px w')) = insert b (dom (sock_map (w_px w)))"
    "w_center w' = accounted (peer_text e c) n (w_center w)" "peer_text e c' \<noteq> peer_text e c"
    "reversed_map (w_px w) c' = None \<longrightarrow> fst (pe_connect e c') \<noteq> b"
  shows "good_client e w' c'" "backend_of e w' c' = backend_of e w c'"
proof -
  note later = connectable_later [OF good_connectable [OF assms(1)] assms(2-4,7)]
  then show "backend_of e w' c' = backend_of e w c'" by blast
  show "good_client e w' c'"
    using assms(1-3,5,6) later by (simp add: good_client_def connectable_def traffic_accounted(2))
qed

lemma forward_batch:
  assumes "px_ok w" "pe_attach e" "\<forall>q \<in> set ps. good_client e w (fst q)"
    "distinct (map fst ps)" "distinct (map (\<lambda>q. peer_text e (fst q)) ps)"
    "distinct (map fst (new_conns e w ps))" "length (pk_head pk) = MAX_IP_SIZE + MAX_PORT_SIZE"
  shows "\<exists>w'. forward_pairs ntf e ps pk w = Some (Inr w') \<and> px_ok w' \<and>
    w_out w' = w_out w @ map (\<lambda>q. (backend_of e w (fst q), request e (fst q))) ps \<and>
    w_conns w' = w_conns w @ new_conns e w ps \<and>
    (\<forall>c. reversed_map (w_px w') c =
       (if c \<in> fst ` set ps then Some (backend_of e w c) else reversed_map (w_px w) c)) \<and>
    (\<forall>q \<in> set ps. traffic_map (w_center w') (peer_text e (fst q)) =
       map_option (\<lambda>t. t + word_of_nat (length (request e (fst q))))
         (traffic_map (w_center w) (peer_text e (fst q)))) \<and>
    (\<forall>s. s \<notin> (\<lambda>q. peer_text e (fst q)) ` set ps \<longrightarrow>
       traffic_map (w_center w') s = traffic_map (w_center w) s)"
  using assms
proof (induction ps arbitrary: w pk)
  case Nil
  then show ?case by (simp add: new_conns_def)
next
  case (Cons q ps)
  obtain c a where q: "q = (c, a)" by (cases q)
  let ?b = "backend_of e w c" and ?n = "length (request e c)"
  have good: "good_client e w c" using Cons.prems(3) q by simp
  from forward_client [OF Cons.prems(1) good Cons.prems(2,7), of ntf a ps] obtain w1 pk1 where
    w1: "forward_pairs ntf e (q # ps) pk w = forward_pairs ntf e ps pk1 w1"
      "length (pk_head pk1) = MAX_IP_SIZE + MAX_PORT_SIZE" "px_ok w1"
      "reversed_map (w_px w1) = (reversed_map (w_px w))(c \<mapsto> ?b)"
      "dom (sock_map (w_px w1)) = insert ?b (dom (sock_map (w_px w)))"
      "w_conns w1 = w_conns w @ new_conns e w [(c, a)]" "w_out w1 = w_out w @ [(?b, request e c)]"
      "w_center w1 = accounted (peer_text e c) ?n (w_center w)"
    unfolding q by blast
  have later: "good_client e w1 (fst p) \<and> backend_of e w1 (fst p) = backend_of e w (fst p) \<and>
      fst p \<noteq> c \<and> peer_text e (fst p) \<noteq> peer_text e c" if p: "p \<in> set ps" for p
  proof -
    have ne: "fst p \<noteq> c" "peer_text e (fst p) \<noteq> peer_text e c"
      using Cons.prems(4,5) p q by (auto simp: image_iff)
    have ok: "maps_ok (w_px w)" using Cons.prems(1) by (simp add: px_ok_def)
    have "connectable e w (fst p)" using Cons.prems(3) p by (simp add: good_connectable)
    from connectable_rest [OF ok this, of c a ps] p Cons.prems(6)
    have "reversed_map (w_px w) (fst p) = None \<longrightarrow> fst (pe_connect e (fst p)) \<noteq> ?b" unfolding q by blast
    with client_later [OF _ ne(1) w1(4,5,8) ne(2)] Cons.prems(3) p ne show ?thesis by simp
  qed
  have conns: "new_conns e w1 ps = new_conns e w ps"
    using later w1(4) by (auto simp: new_conns_def intro!: arg_cong [where f = "map _"] filter_cong)
  have split: "new_conns e w (q # ps) = new_conns e w [(c, a)] @ new_conns e w ps"
    by (simp add: new_conns_def q)
  have "distinct (map fst (new_conns e w1 ps))"
    using Cons.prems(6) unfolding conns split by simp
  moreover have "\<forall>p \<in> set ps. good_client e w1 (fst p)" using later by blast
  moreover have "distinct (map fst ps)" "distinct (map (\<lambda>q. peer_text e (fst q)) ps)"
    using Cons.prems(4,5) by simp_all
  ultimately obtain w' where w': "forward_pairs ntf e ps pk1 w1 = Some (Inr w')" "px_ok w'"
      "w_out w' = w_out w1 @ map (\<lambda>q. (backend_of e w1 (fst q), request e (fst q))) ps"
      "w_conns w' = w_conns w1 @ new_conns e w1 ps"
      "\<forall>c. reversed_map (w_px w') c =
         (if c \<in> fst ` set ps then Some (backend_of e w1 c) else reversed_map (w_px w1) c)"
      "\<forall>q \<in> set ps. traffic_map (w_center w') (peer_text e (fst q)) =
         map_option (\<lambda>t. t + word_of_nat (length (request e (fst q))))
           (traffic_map (w_center w1) (peer_text e (fst q)))"
      "\<forall>s. s \<notin> (\<lambda>q. peer_text e (fst q)) ` set ps \<longrightarrow>
         traffic_map (w_center w') s = traffic_map (w_center w1) s"
    using Cons.IH [OF w1(3) Cons.prems(2) _ _ _ _ w1(2)] by blast
  have texts: "peer_text e c \<notin> (\<lambda>q. peer_text e (fst q)) ` set ps" using later by (metis imageE)
  have t: "traffic_map (w_center w1) (peer_text e c) =
      map_option (\<lambda>t. t + word_of_nat ?n) (traffic_map (w_center w) (peer_text e c))"
    using good w1(8) by (auto simp: good_client_def traffic_accounted(1))
  have out: "w_out w' = w_out w @ map (\<lambda>q. (backend_of e w (fst q), request e (fst q))) (q # ps)"
    using w'(3) w1(7) later q by simp
  have rev: "reversed_map (w_px w') c' =
      (if c' \<in> fst ` set (q # ps) then Some (backend_of e w c') else reversed_map (w_px w) c')" for c'
    using w'(5) w1(4) later q by auto
  have tr: "traffic_map (w_center w') (peer_text e (fst p)) =
      map_option (\<lambda>t. t + word_of_nat (length (request e (fst p))))
        (traffic_map (w_center w) (peer_text e (fst p)))" if "p \<in> set (q # ps)" for p
  proof (cases "p \<in> set ps")
    case True
    with w'(6) w1(8) later show ?thesis by (simp add: traffic_accounted(2))
  next
    case False
    with that q have "fst p = c" by auto
    with w'(7) texts t show ?thesis by simp
  qed
  have tr': "traffic_map (w_center w') s = traffic_map (w_center w) s"
    if "s \<notin> (\<lambda>q. peer_text e (fst q)) ` set (q # ps)" for s
    using that w'(7) w1(8) q by (simp add: traffic_accounted(2))
  have "w_conns w' = w_conns w @ new_conns e w (q # ps)"
    using w'(4) w1(6) conns split by simp
  with out rev tr tr' w'(1,2) w1(1) show ?case by (intro exI [of _ w']) simp
qed


definition demo_accounts :: pworld where
  "demo_accounts = demo_world\<lparr>w_center := new_center\<lparr>traffic_map := (\<lambda>s. Some 0)\<rparr>\<rparr>"

lemma demo_good_client:
  assumes "0 \<le> c"
  shows "good_client demo_penv demo_accounts c"
  using demo_sends assms by (auto simp: good_client_def demo_accounts_def demo_world_def request_def
      MAX_PACKET_SIZE_def ip_string_def make_inet_def MAX_TRAFFIC_def) (simp_all add: demo_penv_def make_inet_def)

lemma demo_accounts_ok: "px_ok demo_accounts"
  using demo_world_ok by (simp add: px_ok_def demo_accounts_def)


section \<open>Handling the backends' events\<close>

definition good_reply :: "penv \<Rightarrow> pworld \<Rightarrow> fd \<Rightarrow> bool" where
  "good_reply e w b \<longleftrightarrow> fst (pe_read e b) = int (length (request e b)) \<and>
     length (request e b) \<le> MAX_PACKET_SIZE \<and>
     takes_some (pe_send e (the (sock_map (w_px w) b))) \<and>
     never_fails (pe_send e (the (sock_map (w_px w) b)))"

definition hung_up :: "resp list \<Rightarrow> fd list" where
  "hung_up qs = map resp_fd (filter (\<lambda>q. has CLOSABLE (resp_events q)) qs)"

lemma hung_up_Cons [simp]:
  "hung_up [] = []"
  "hung_up (q # qs) = (if has CLOSABLE (resp_events q) then resp_fd q # hung_up qs else hung_up qs)"
  by (simp_all add: hung_up_def)

text \<open>What the events of one descriptor leave.\<close>

definition event_out :: "penv \<Rightarrow> pworld \<Rightarrow> resp \<Rightarrow> (fd \<times> string) list" where
  "event_out e w q = (if ready q then [(the (sock_map (w_px w) (resp_fd q)), request e (resp_fd q))] else [])"

definition settled :: "penv \<Rightarrow> resp \<Rightarrow> pworld \<Rightarrow> pworld" where
  "settled e q w = (if has CLOSABLE (resp_events q) then forget (resp_fd q) (close_fd e (resp_fd q) w) else w)"

definition event_after :: "penv \<Rightarrow> resp \<Rightarrow> pworld \<Rightarrow> pworld" where
  "event_after e q w = settled e q (w\<lparr>w_out := w_out w @ event_out e w q\<rparr>)"

lemma wait_event:
  assumes "pe_attach e" "resp_fd q \<in> dom (sock_map (w_px w))" "ready q \<longrightarrow> good_reply e w (resp_fd q)"
  shows "\<exists>pk'. wait_events e (q # qs) pk w = wait_events e qs pk' (event_after e q w)"
proof -
  obtain c where c: "sock_map (w_px w) (resp_fd q) = Some c" using assms(2) by auto
  show ?thesis
  proof (cases "ready q")
    case True
    let ?f = "resp_fd q"
    have r: "pe_read e ?f = (int (length (request e ?f)), request e ?f)"
      "length (request e ?f) \<le> MAX_PACKET_SIZE" "takes_some (pe_send e c)" "never_fails (pe_send e c)"
      using assms(3) True c by (auto simp: good_reply_def request_def prod_eq_iff)
    obtain pk' where "forward e ?f c pk w = Some (Inr (int (length (request e ?f)), pk',
        w\<lparr>w_out := w_out w @ [(c, request e ?f)]\<rparr>))"
      using forward_takes [OF r(3,1,2), of pk w] r(4) by auto
    moreover have "has READABLE (resp_events q) \<and> \<not> has CLOSABLE (resp_events q)"
      using True by (simp add: ready_def)
    ultimately show ?thesis using c assms(1) True
      by (intro exI [of _ pk']) (simp add: transfer_def event_after_def settled_def event_out_def)
  next
    case False
    then have "\<not> (has READABLE (resp_events q) \<and> \<not> has CLOSABLE (resp_events q))"
      by (simp add: ready_def)
    then show ?thesis using c False
      by (intro exI [of _ pk]) (simp add: event_after_def settled_def event_out_def)
  qed
qed

lemma settled_props:
  assumes "px_ok w"
  shows "px_ok (settled e q w) \<and> px_frame w (settled e q w) \<and> (px_tracks w \<longrightarrow> px_tracks (settled e q w)) \<and>
    sock_map (w_px (settled e q w)) =
      (if has CLOSABLE (resp_events q) then (sock_map (w_px w))(resp_fd q := None) else sock_map (w_px w)) \<and>
    w_out (settled e q w) = w_out w \<and> w_center (settled e q w) = w_center w \<and>
    w_sys (settled e q w) = w_sys w @ map SysClose (hung_up [q])"
proof -
  let ?w2 = "close_fd e (resp_fd q) w"
  have px: "w_px ?w2 = w_px w" "w_dmps ?w2 = w_dmps w" "w_out ?w2 = w_out w" "w_center ?w2 = w_center w"
      "w_sys ?w2 = w_sys w @ [SysClose (resp_fd q)]"
    by (simp_all add: close_fd_def w_syscall_def)
  have fg: "w_dmps (forget f v) = w_dmps v" "w_out (forget f v) = w_out v" "w_sys (forget f v) = w_sys v"
      "w_center (forget f v) = w_center v" "px_group (w_px (forget f v)) = px_group (w_px v)"
      "px_addr (w_px (forget f v)) = px_addr (w_px v)" for f v
    by (simp_all add: forget_def upd_px_def split: option.splits)
  have ok: "maps_ok (w_px ?w2)" "quiet_group ?w2"
    using assms px(1,2) by (simp_all add: px_ok_iff quiet_group_def)
  then have "px_ok (forget (resp_fd q) ?w2)"
    using maps_ok_forget [OF ok(1)] fg by (simp add: px_ok_iff quiet_group_def)
  moreover have "px_frame w (forget (resp_fd q) ?w2)"
    using px fg by (simp add: px_frame_def) (metis group.surjective group.update_convs(5) old.unit.exhaust)
  ultimately show ?thesis
    using forget_maps [OF ok(1), of "resp_fd q"] px fg assms
    by (simp add: settled_def px_tracks_def watched_append)
qed

lemma event_after_props:
  assumes "px_ok w"
  shows "px_ok (event_after e q w) \<and>
    sock_map (w_px (event_after e q w)) =
      (if has CLOSABLE (resp_events q) then (sock_map (w_px w))(resp_fd q := None) else sock_map (w_px w)) \<and>
    w_out (event_after e q w) = w_out w @ event_out e w q \<and>
    w_sys (event_after e q w) = w_sys w @ map SysClose (hung_up [q])"
proof -
  have "px_ok (w\<lparr>w_out := w_out w @ event_out e w q\<rparr>)" using assms by (simp add: px_ok_def)
  from settled_props [OF this, of e q] show ?thesis by (simp add: event_after_def)
qed

lemma wait_batch:
  assumes "px_ok w" "pe_attach e" "distinct (map resp_fd qs)"
    "\<forall>q \<in> set qs. resp_fd q \<in> dom (sock_map (w_px w)) \<and> (ready q \<longrightarrow> good_reply e w (resp_fd q))"
  shows "\<exists>w'. wait_events e qs pk w = Some (Inr w') \<and> px_ok w' \<and>
    sock_map (w_px w') = sock_map (w_px w) |` (- set (hung_up qs)) \<and>
    w_out w' = w_out w @ map (\<lambda>q. (the (sock_map (w_px w) (resp_fd q)), request e (resp_fd q))) (filter ready qs) \<and>
    w_sys w' = w_sys w @ map SysClose (hung_up qs)"
  using assms
proof (induction qs arbitrary: w pk)
  case Nil
  then show ?case by simp
next
  case (Cons q qs)
  let ?w = "event_after e q w"
  obtain pk' where step: "wait_events e (q # qs) pk w = wait_events e qs pk' ?w"
    using wait_event [OF Cons.prems(2), of q w qs pk] Cons.prems(4) by auto
  note after = event_after_props [OF Cons.prems(1), of e q]
  have same: "sock_map (w_px ?w) (resp_fd p) = sock_map (w_px w) (resp_fd p)" if "p \<in> set qs" for p
  proof -
    have "resp_fd p \<noteq> resp_fd q" using Cons.prems(3) that by (auto simp: image_iff)
    then show ?thesis using after by simp
  qed
  have "resp_fd p \<in> dom (sock_map (w_px ?w)) \<and> (ready p \<longrightarrow> good_reply e ?w (resp_fd p))"
    if "p \<in> set qs" for p
    using Cons.prems(4) that same [OF that] by (simp add: good_reply_def domIff)
  then obtain w' where w': "wait_events e qs pk' ?w = Some (Inr w')" "px_ok w'"
      "sock_map (w_px w') = sock_map (w_px ?w) |` (- set (hung_up qs))"
      "w_out w' = w_out ?w @ map (\<lambda>q. (the (sock_map (w_px ?w) (resp_fd q)), request e (resp_fd q))) (filter ready qs)"
      "w_sys w' = w_sys ?w @ map SysClose (hung_up qs)"
    using Cons.IH [of ?w pk'] after Cons.prems(2,3) by auto
  have "sock_map (w_px w') = sock_map (w_px w) |` (- set (hung_up (q # qs)))"
    using w'(3) after by (auto simp: restrict_map_def fun_eq_iff)
  moreover have "w_out w' = w_out w @
      map (\<lambda>q. (the (sock_map (w_px w) (resp_fd q)), request e (resp_fd q))) (filter ready (q # qs))"
    using w'(4) after same by (simp add: event_out_def)
  ultimately show ?case using step w'(1,2,5) after by (intro exI [of _ w']) simp
qed


definition demo_linked :: pworld where
  "demo_linked = demo_world\<lparr>w_px := (w_px demo_world)\<lparr>sock_map := [107 \<mapsto> 7], reversed_map := [7 \<mapsto> 107]\<rparr>\<rparr>"

lemma demo_linked_ok: "px_ok demo_linked"
  by (auto simp: px_ok_def demo_linked_def demo_world_def maps_ok_def group_ok_def split: if_splits)


text \<open>C37. Closing and forgetting a backend is not atomic. When a backend's descriptor has been
  closed but its entries not yet removed, and meanwhile another thread connects a new client
  and is given the same descriptor, the old entry stays (\<open>emplace\<close>) and is then removed: the
  new client is left with a backend the other map does not know, and the first event of that
  backend makes the handler throw, in a thread that catches nothing.\<close>

theorem close_race:
  assumes "px_ok w" "sock_map (w_px w) b = Some c1" "reversed_map (w_px w) c2 = None"
    and "pe_connect e c2 = (b, ret)" "0 \<le> b" "0 \<le> ret"
  shows "\<exists>w2. assure_backend ntf e c2 a (close_fd e b w) = Inr (True, w2) \<and>
    reversed_map (w_px (forget b w2)) c2 = Some b \<and> sock_map (w_px (forget b w2)) b = None \<and>
    px_update ntf e (DmpWaitContext (pub_code DMPWAIT) (\<lparr>resp_fd = b, resp_events = ev\<rparr> # qs))
      (forget b w2) = Some (Inl OutOfRange)"
proof -
  let ?w = "close_fd e b w"
  have px: "w_px ?w = w_px w" "w_dmps ?w = w_dmps w" by (simp_all add: close_fd_def w_syscall_def)
  have "quiet_group ?w" using assms(1) px by (simp add: px_ok_iff quiet_group_def)
  from assure_new [OF this _ assms(4-6), of ntf a] assms(3) px obtain w2 where
    w2: "assure_backend ntf e c2 a ?w = Inr (True, w2)"
      "sock_map (w_px w2) = emplace (sock_map (w_px w)) b c2"
      "reversed_map (w_px w2) = (reversed_map (w_px w))(c2 \<mapsto> b)"
    by auto
  have "reversed_map (w_px w) c1 = Some b" using assms(1,2) by (simp add: px_ok_def maps_ok_def)
  then have "c1 \<noteq> c2" using assms(3) by auto
  with w2 assms(2) show ?thesis
    by (intro exI [of _ w2])
      (simp add: forget_def upd_px_def px_update_def px_updateForWait_def)
qed

theorem close_race_witness:
  "\<exists>w2. assure_backend demo_ntf (demo_penv\<lparr>pe_connect := (\<lambda>c. (107, 0))\<rparr>) 8 (make_inet ''a'' 1)
       (close_fd (demo_penv\<lparr>pe_connect := (\<lambda>c. (107, 0))\<rparr>) 107 demo_linked) = Inr (True, w2) \<and>
     sock_map (w_px (forget 107 w2)) 107 = None"
  using close_race [OF demo_linked_ok, of 107 7 8 "demo_penv\<lparr>pe_connect := (\<lambda>c. (107, 0))\<rparr>" 0 demo_ntf "make_inet ''a'' 1"]
  by (simp add: demo_linked_def demo_world_def) blast

end
