(* ===== verification/Queues.thy ===== *)
theory Queues
  imports Prelude
begin

text \<open>
  The queues of \<open>src/src/network/queue.hpp\<close>: \<open>LockedQueue\<close>, whose \<open>pop\<close> leaves the lock
  before it removes the element, as a step relation over the threads using it, and
  \<open>LockFreeQueue\<close>, of which the file has the constructors and the rounding of the capacity.
\<close>

section \<open>LockedQueue\<close>

text \<open>
  The elements of the queue live in cells, named by numbers; a destroyed cell stays known.
  \<open>lq_size\<close> is \<open>size_\<close>. A thread is outside \<open>pop\<close>, or past the unlock with its reference
  \<open>ret\<close>, or past \<open>queue_.pop()\<close>, or has returned; \<open>pop\<close> of an empty \<open>std::queue\<close> aborts.
\<close>

datatype 'a pop_pc = Outside | Holding nat | Removed nat | PopDone "'a result"

record 'a locked_queue =
  lq_cells :: "nat list"
  lq_value :: "nat \<Rightarrow> 'a"
  lq_dead :: "nat set"
  lq_fresh :: nat
  lq_size :: u64
  lq_pc :: "nat \<Rightarrow> 'a pop_pc"

text \<open>The constructor leaves \<open>size_\<close> without a value: it is what the memory held, \<open>junk\<close>.\<close>

definition make_locked_queue :: "u64 \<Rightarrow> (nat \<Rightarrow> 'a) \<Rightarrow> 'a locked_queue" where
  "make_locked_queue junk v =
     \<lparr>lq_cells = [], lq_value = v, lq_dead = {}, lq_fresh = 0, lq_size = junk, lq_pc = (\<lambda>t. Outside)\<rparr>"

definition lq_push :: "'a \<Rightarrow> 'a locked_queue \<Rightarrow> 'a locked_queue" where
  "lq_push v q = q\<lparr>lq_cells := lq_cells q @ [lq_fresh q], lq_value := (lq_value q)(lq_fresh q := v),
     lq_fresh := Suc (lq_fresh q), lq_size := lq_size q + 1\<rparr>"

text \<open>The three parts of \<open>pop\<close>, run by thread \<open>t\<close>.\<close>

definition pop_locked :: "nat \<Rightarrow> 'a locked_queue \<Rightarrow> 'a locked_queue option" where
  "pop_locked t q =
     (case (lq_pc q t, lq_cells q) of
        (Outside, c # cs) \<Rightarrow> Some (q\<lparr>lq_size := lq_size q - 1, lq_pc := (lq_pc q)(t := Holding c)\<rparr>)
      | _ \<Rightarrow> None)"

definition pop_remove :: "nat \<Rightarrow> 'a locked_queue \<Rightarrow> 'a locked_queue option" where
  "pop_remove t q =
     (case lq_pc q t of
        Holding r \<Rightarrow>
          Some (case lq_cells q of
                  [] \<Rightarrow> q\<lparr>lq_pc := (lq_pc q)(t := PopDone (Inl DebugAbort))\<rparr>
                | c # cs \<Rightarrow> q\<lparr>lq_cells := cs, lq_dead := insert c (lq_dead q),
                             lq_pc := (lq_pc q)(t := Removed r)\<rparr>)
      | _ \<Rightarrow> None)"

definition pop_return :: "nat \<Rightarrow> 'a locked_queue \<Rightarrow> 'a locked_queue option" where
  "pop_return t q =
     (case lq_pc q t of
        Removed r \<Rightarrow> Some (q\<lparr>lq_pc := (lq_pc q)(t := PopDone
          (if r \<in> lq_dead q then Inl UseAfterFree else Inr (lq_value q r)))\<rparr>)
      | _ \<Rightarrow> None)"

definition lq_empty :: "'a locked_queue \<Rightarrow> bool" where
  "lq_empty q \<longleftrightarrow> lq_size q \<noteq> 0"

inductive lq_step :: "'a locked_queue \<Rightarrow> 'a locked_queue \<Rightarrow> bool" where
  push: "lq_step q (lq_push v q)"
| locked: "pop_locked t q = Some q' \<Longrightarrow> lq_step q q'"
| remove: "pop_remove t q = Some q' \<Longrightarrow> lq_step q q'"
| return: "pop_return t q = Some q' \<Longrightarrow> lq_step q q'"

inductive lq_reach :: "u64 \<Rightarrow> 'a locked_queue \<Rightarrow> bool" for junk where
  new: "lq_reach junk (make_locked_queue junk v)"
| more: "lq_reach junk q \<Longrightarrow> lq_step q q' \<Longrightarrow> lq_reach junk q'"

inductive_cases lq_stepE: "lq_step q q'"

text \<open>What a thread past the unlock refers to is the front element or destroyed.\<close>

fun pc_ok :: "nat set \<Rightarrow> nat list \<Rightarrow> 'a pop_pc \<Rightarrow> bool" where
  "pc_ok dead cs Outside = True"
| "pc_ok dead cs (Holding r) = (r \<in> dead \<or> (cs \<noteq> [] \<and> hd cs = r))"
| "pc_ok dead cs (Removed r) = (r \<in> dead)"
| "pc_ok dead cs (PopDone v) = (v = Inl UseAfterFree \<or> v = Inl DebugAbort)"

lemma pc_ok_push: "pc_ok dead cs p \<Longrightarrow> pc_ok dead (cs @ [c]) p"
  by (cases p) (auto simp: hd_append)

lemma pc_ok_remove: "pc_ok dead (c # cs) p \<Longrightarrow> pc_ok (insert c dead) cs p"
  by (cases p) auto

definition lq_inv :: "'a locked_queue \<Rightarrow> bool" where
  "lq_inv q \<longleftrightarrow> (\<forall>t. pc_ok (lq_dead q) (lq_cells q) (lq_pc q t))"

lemma lq_inv_push: "lq_inv q \<Longrightarrow> lq_inv (lq_push v q)"
  by (simp add: lq_inv_def lq_push_def pc_ok_push)

lemma lq_inv_locked: "lq_inv q \<Longrightarrow> pop_locked t q = Some q' \<Longrightarrow> lq_inv q'"
  by (cases "lq_pc q t"; cases "lq_cells q") (auto simp: lq_inv_def pop_locked_def)

lemma lq_inv_remove: "lq_inv q \<Longrightarrow> pop_remove t q = Some q' \<Longrightarrow> lq_inv q'"
proof (cases "lq_pc q t")
  case (Holding r)
  assume inv: "lq_inv q" and step: "pop_remove t q = Some q'"
  then have "pc_ok (lq_dead q) (lq_cells q) (Holding r :: 'a pop_pc)"
    using Holding by (simp add: lq_inv_def flip: Holding)
  with inv step Holding show ?thesis
    by (cases "lq_cells q") (auto simp: lq_inv_def pop_remove_def pc_ok_remove)
qed (simp_all add: pop_remove_def)

lemma lq_inv_return: "lq_inv q \<Longrightarrow> pop_return t q = Some q' \<Longrightarrow> lq_inv q'"
proof (cases "lq_pc q t")
  case (Removed r)
  assume inv: "lq_inv q" and step: "pop_return t q = Some q'"
  then have "pc_ok (lq_dead q) (lq_cells q) (Removed r :: 'a pop_pc)"
    using Removed by (simp add: lq_inv_def flip: Removed)
  with inv step Removed show ?thesis by (auto simp: lq_inv_def pop_return_def)
qed (simp_all add: pop_return_def)

lemma lq_inv_step: "lq_step q q' \<Longrightarrow> lq_inv q \<Longrightarrow> lq_inv q'"
  by (erule lq_stepE) (auto intro: lq_inv_push lq_inv_locked lq_inv_remove lq_inv_return)

lemma lq_reach_inv: "lq_reach junk q \<Longrightarrow> lq_inv q"
proof (induction rule: lq_reach.induct)
  case (new v)
  then show ?case by (simp add: lq_inv_def make_locked_queue_def)
next
  case (more q q')
  then show ?case using lq_inv_step by blast
qed

text \<open>C38. \<open>pop\<close> never yields an element. However many threads push and pop, in any
  interleaving, every \<open>pop\<close> that returns has read an element already destroyed (the
  reference is used after \<open>queue_.pop()\<close>), or has aborted on an empty queue.\<close>

theorem pop_dangling:
  assumes "lq_reach junk q" "lq_pc q t = PopDone v"
  shows "v = Inl UseAfterFree \<or> v = Inl DebugAbort"
proof -
  have "pc_ok (lq_dead q) (lq_cells q) (lq_pc q t)"
    using lq_reach_inv [OF assms(1)] by (simp add: lq_inv_def)
  then show ?thesis using assms(2) by simp
qed

text \<open>Two elements pushed, two threads popping at once.\<close>

definition pop_race_start :: "nat locked_queue" where
  "pop_race_start = lq_push 20 (lq_push 10 (make_locked_queue 0 (\<lambda>c. 0)))"

lemma pop_race_reachable:
  "\<exists>q. lq_reach 0 q \<and> lq_pc q 0 = Removed 0 \<and> lq_pc q 1 = Removed 0 \<and> lq_cells q = [] \<and>
     lq_value q 1 = (20 :: nat) \<and> lq_dead q = {0, 1}"
proof -
  let ?q0 = pop_race_start
  have q0: "lq_cells ?q0 = [0, 1]" "lq_pc ?q0 = (\<lambda>t. Outside)" "lq_dead ?q0 = {}" "lq_value ?q0 1 = 20"
    by (simp_all add: pop_race_start_def lq_push_def make_locked_queue_def)
  obtain q1 where q1: "pop_locked 0 ?q0 = Some q1" "lq_cells q1 = [0, 1]"
      "lq_pc q1 = (\<lambda>t. Outside)(0 := Holding 0)" "lq_dead q1 = {}" "lq_value q1 1 = 20"
    using q0 by (auto simp: pop_locked_def)
  obtain q2 where q2: "pop_locked 1 q1 = Some q2" "lq_cells q2 = [0, 1]"
      "lq_pc q2 = (\<lambda>t. Outside)(0 := Holding 0, 1 := Holding 0)" "lq_dead q2 = {}" "lq_value q2 1 = 20"
    using q1 by (auto simp: pop_locked_def)
  obtain q3 where q3: "pop_remove 0 q2 = Some q3" "lq_cells q3 = [1]"
      "lq_pc q3 0 = Removed 0" "lq_pc q3 1 = Holding 0" "lq_dead q3 = {0}" "lq_value q3 1 = 20"
    using q2 by (auto simp: pop_remove_def)
  obtain q4 where q4: "pop_remove 1 q3 = Some q4" "lq_cells q4 = []"
      "lq_pc q4 0 = Removed 0" "lq_pc q4 1 = Removed 0" "lq_dead q4 = {0, 1}" "lq_value q4 1 = 20"
    using q3 by (auto simp: pop_remove_def)
  have "lq_reach 0 (make_locked_queue 0 (\<lambda>c. 0 :: nat))" by (rule lq_reach.new)
  then have "lq_reach 0 ?q0"
    unfolding pop_race_start_def by (rule lq_reach.more [OF lq_reach.more [OF _ lq_step.push] lq_step.push])
  then have "lq_reach 0 q4"
    by (rule lq_reach.more [OF lq_reach.more [OF lq_reach.more [OF lq_reach.more
          [OF _ lq_step.locked [OF q1(1)]] lq_step.locked [OF q2(1)]] lq_step.remove [OF q3(1)]]
          lq_step.remove [OF q4(1)]])
  then show ?thesis using q4(2-) by blast
qed

theorem pop_dangling_witness:
  "\<exists>q :: nat locked_queue. lq_reach 0 q \<and> lq_pc q 0 = PopDone (Inl UseAfterFree) \<and>
     lq_cells q = [] \<and> lq_value q 1 = 20"
proof -
  obtain q :: "nat locked_queue" where q: "lq_reach 0 q" "lq_pc q 0 = Removed 0" "lq_cells q = []"
      "lq_value q 1 = 20" "lq_dead q = {0, 1}"
    using pop_race_reachable by blast
  obtain q' v where q': "pop_return 0 q = Some q'" "lq_pc q' 0 = PopDone v" "v \<noteq> Inl DebugAbort"
      "lq_cells q' = lq_cells q" "lq_value q' = lq_value q"
    using q by (auto simp: pop_return_def)
  have "lq_reach 0 q'" using q(1) lq_step.return [OF q'(1)] by (rule lq_reach.more)
  with pop_dangling [OF this q'(2)] q' q show ?thesis by (intro exI [of _ q']) auto
qed

text \<open>\<open>empty\<close> answers the opposite. On a queue only pushed to and never popped, with
  \<open>size_\<close> zero at the start, it says true exactly when there are elements; and in general it
  depends on what the memory of \<open>size_\<close> held before the constructor, which leaves it as it
  is.\<close>

theorem empty_inverted:
  "lq_empty (fold lq_push vs (make_locked_queue junk v)) \<longleftrightarrow> junk + word_of_nat (length vs) \<noteq> 0"
proof -
  have "lq_size (fold lq_push vs q) = lq_size q + word_of_nat (length vs)" for q :: "'a locked_queue"
    by (induction vs arbitrary: q) (simp_all add: lq_push_def algebra_simps)
  then show ?thesis by (simp add: lq_empty_def make_locked_queue_def)
qed

section \<open>LockFreeQueue\<close>

record 'a lock_free_queue =
  lf_capacity :: u64
  lf_size :: u64
  lf_head :: "64 word"
  lf_tail :: "64 word"
  lf_tail_updated :: bool
  lf_buffer :: "'a list"

definition is_power_of_two :: "u64 \<Rightarrow> bool" where
  "is_power_of_two sz \<longleftrightarrow> sz > 0 \<and> sz AND (sz - 1) = 0"

text \<open>\<open>None\<close> is that the loop never ends.\<close>

partial_function (option) round_up_loop :: "u64 \<Rightarrow> u64 \<Rightarrow> u64 option" where
  "round_up_loop sz pw = (if pw < sz then round_up_loop sz (push_bit 1 pw) else Some pw)"

definition round_up_to_power_of_two :: "u64 \<Rightarrow> u64 option" where
  "round_up_to_power_of_two sz = round_up_loop sz 1"

definition make_lock_free_queue :: "u64 \<Rightarrow> 'a lock_free_queue option" where
  "make_lock_free_queue capacity =
     map_option (\<lambda>c. \<lparr>lf_capacity = c, lf_size = 0, lf_head = -1, lf_tail = -1,
                       lf_tail_updated = False, lf_buffer = []\<rparr>)
       (if is_power_of_two capacity then Some capacity else round_up_to_power_of_two capacity)"

text \<open>The move constructor: the new queue and what it leaves of the other.\<close>

definition move_lock_free_queue :: "bool \<Rightarrow> 'a lock_free_queue \<Rightarrow> 'a lock_free_queue \<times> 'a lock_free_queue" where
  "move_lock_free_queue junk q =
     (\<lparr>lf_capacity = lf_capacity q, lf_size = lf_size q, lf_head = -1, lf_tail = -1,
        lf_tail_updated = junk, lf_buffer = lf_buffer q\<rparr>,
      q\<lparr>lf_size := 0, lf_capacity := 0, lf_buffer := []\<rparr>)"

lemma push_bit_pow: "push_bit 1 ((2 :: u64) ^ k) = 2 ^ Suc k"
  by (simp add: push_bit_eq_mult)

lemma unat_pow: "k < 64 \<Longrightarrow> unat ((2 :: u64) ^ k) = 2 ^ k"
proof -
  assume k: "k < 64"
  have "(2 :: u64) ^ k = word_of_nat (2 ^ k)" by simp
  then have "unat ((2 :: u64) ^ k) = 2 ^ k mod 2 ^ LENGTH(64)" by (simp only: unat_of_nat)
  also have "(2 :: nat) ^ k < 2 ^ LENGTH(64)" using k by (intro power_strict_increasing) auto
  then have "(2 :: nat) ^ k mod 2 ^ LENGTH(64) = 2 ^ k" by (rule mod_less)
  finally show ?thesis .
qed

lemma round_up_least:
  assumes "k \<le> 63" "unat sz \<le> 2 ^ 63" "k \<noteq> 0 \<longrightarrow> 2 ^ (k - 1) < unat sz"
  shows "\<exists>m \<le> 63. round_up_loop sz (2 ^ k) = Some (2 ^ m) \<and> unat sz \<le> 2 ^ m \<and>
    (m \<noteq> 0 \<longrightarrow> 2 ^ (m - 1) < unat sz)"
  using assms
proof (induction "63 - k" arbitrary: k)
  case 0
  then have "\<not> (2 :: u64) ^ 63 < sz" using unat_pow [of 63] by (simp add: word_less_nat_alt)
  with 0 show ?case by (intro exI [of _ 63]) (simp add: round_up_loop.simps)
next
  case (Suc n)
  show ?case
  proof (cases "(2 :: u64) ^ k < sz")
    case True
    then have "2 ^ k < unat sz" using unat_pow [of k] Suc.prems(1) by (simp add: word_less_nat_alt)
    moreover have "n = 63 - Suc k" "Suc k \<le> 63" using Suc.hyps(2) by auto
    ultimately obtain m where
      "m \<le> 63" "round_up_loop sz (2 ^ Suc k) = Some (2 ^ m)" "unat sz \<le> 2 ^ m"
      "m \<noteq> 0 \<longrightarrow> 2 ^ (m - 1) < unat sz"
      using Suc.hyps(1) [of "Suc k"] Suc.prems(2) by auto
    moreover have "round_up_loop sz (2 ^ k) = round_up_loop sz (2 ^ Suc k)"
      using True by (subst round_up_loop.simps) (simp only: push_bit_pow if_True)
    ultimately show ?thesis by auto
  next
    case False
    then have "unat sz \<le> 2 ^ k"
      using unat_pow [of k] Suc.prems(1) by (simp add: word_less_nat_alt not_less)
    moreover have "round_up_loop sz (2 ^ k) = Some (2 ^ k)"
      using False by (subst round_up_loop.simps) (simp only: if_False)
    ultimately show ?thesis using Suc.prems by blast
  qed
qed

lemma round_up_loop_none:
  assumes "2 ^ 63 < unat sz"
  shows "round_up_loop sz 1 = None"
proof -
  have step: "(2 :: u64) ^ k < sz" if "k < 64" for k
  proof -
    have "(2 :: nat) ^ k \<le> 2 ^ 63" using that by (intro power_increasing) auto
    then show ?thesis using unat_pow [OF that] assms by (simp add: word_less_nat_alt)
  qed
  let ?P = "\<lambda>s p r. s = sz \<longrightarrow> (p = 0 \<or> (\<exists>k < 64. p = 2 ^ k)) \<longrightarrow> False"
  have "?P s p r" if "round_up_loop s p = Some r" for s p r
  proof (rule round_up_loop.raw_induct [of ?P, OF _ that], intro impI)
    fix f s p r
    assume IH: "\<And>s p r. f s p = Some r \<Longrightarrow> ?P s p r"
      and body: "(if p < s then f s (push_bit 1 p) else Some p) = Some r"
      and s: "s = sz" and p: "p = 0 \<or> (\<exists>k < 64. p = 2 ^ k)"
    have "0 < sz" using assms by (simp add: word_less_nat_alt)
    then have "p < sz" using p step by auto
    then have f: "f sz (push_bit 1 p) = Some r" using body s by simp
    have "push_bit 1 p = 0 \<or> (\<exists>k < 64. push_bit 1 p = 2 ^ k)"
    proof (cases "p = 0")
      case False
      then obtain k where k: "k < 64" "p = 2 ^ k" using p by auto
      have pk: "push_bit 1 p = 2 ^ Suc k" using k(2) by (simp only: push_bit_pow)
      show ?thesis
      proof (cases "Suc k < 64")
        case False
        then have "k = 63" using k(1) by simp
        then have "push_bit 1 p = 0" using k(2) by simp
        then show ?thesis ..
      qed (use pk in blast)
    qed simp
    with IH [OF f] show False by blast
  qed
  moreover have "(1 :: u64) = 2 ^ 0" by simp
  ultimately have "round_up_loop sz 1 \<noteq> Some r" for r by (metis zero_less_numeral)
  then show ?thesis by (cases "round_up_loop sz 1") auto
qed

text \<open>The capacity of a \<open>LockFreeQueue\<close>. Up to \<open>2^63\<close> the rounding loop ends and yields the
  least power of two that is at least the requested size; above \<open>2^63\<close> the shifted power
  becomes zero and the constructor never returns.\<close>

theorem round_up_total:
  "(if unat sz \<le> 2 ^ 63
    then \<exists>m \<le> 63. round_up_to_power_of_two sz = Some (2 ^ m) \<and> unat sz \<le> 2 ^ m \<and>
           (m = 0 \<or> 2 ^ (m - 1) < unat sz)
    else round_up_to_power_of_two sz = None)"
  using round_up_least [of 0 sz] round_up_loop_none [of sz]
  by (auto simp: round_up_to_power_of_two_def)

end
