(* ===== verification/Ping.thy ===== *)
theory Ping
  imports Prelude
begin

text \<open>
  \<open>Ping\<close> (\<open>src/src/proxy/ping.hpp\<close>): the Internet checksum, the echo request sent, and what
  the reply is taken for.
\<close>

type_synonym u8 = "8 word"

section \<open>The checksum\<close>

text \<open>Two bytes read as an \<open>unsigned short\<close>, on a little-endian host.\<close>

definition short_at :: "u8 \<Rightarrow> u8 \<Rightarrow> nat" where
  "short_at a b = unat a + 256 * unat b"

text \<open>The loop: \<open>buf\<close> holds \<open>bufsz\<close> bytes.\<close>

fun sum_shorts :: "u8 list \<Rightarrow> u64 \<Rightarrow> u64" where
  "sum_shorts (a # b # bs) acc = sum_shorts bs (acc + word_of_nat (short_at a b))"
| "sum_shorts [a] acc = acc + word_of_nat (unat a)"
| "sum_shorts [] acc = acc"

definition fold_carry :: "u64 \<Rightarrow> u64" where
  "fold_carry s = (s AND 0xFFFF) + drop_bit 16 s"

definition checksum :: "u8 list \<Rightarrow> u16" where
  "checksum buf = ucast (NOT (fold_carry (fold_carry (sum_shorts buf 0xFFFF))))"

section \<open>Echo request and reply\<close>

definition ICMP_ECHO :: u8 where "ICMP_ECHO = 8"

text \<open>\<open>struct icmphdr\<close>: type, code, checksum, identifier, sequence number.\<close>

definition icmphdr :: "u16 \<Rightarrow> u8 list" where
  "icmphdr c = [ICMP_ECHO, 0, ucast c, ucast (drop_bit 8 c), 0, 0, 0, 0]"

definition echo_request :: "u8 list" where
  "echo_request = icmphdr (checksum (icmphdr 0))"

text \<open>
  What is read of the answer: \<open>ihl\<close> is the low half of the first byte; the pointer to the
  ICMP header advances by \<open>ihl * 4\<close> objects of eight bytes.
\<close>

definition ihl :: "u8 list \<Rightarrow> nat" where
  "ihl buf = unat (buf ! 0 AND 0xF)"

definition reply_type :: "u8 list \<Rightarrow> u8" where
  "reply_type buf = buf ! (8 * (ihl buf * 4))"

text \<open>The answers of \<open>socket\<close>, \<open>sendto\<close> and \<open>recv\<close>, the last with its bytes.\<close>

definition ping :: "int \<Rightarrow> int \<Rightarrow> int \<Rightarrow> u8 list \<Rightarrow> bool result" where
  "ping sock sent got data =
     (if sock = -1 then Inl (RuntimeError ''can't create new raw socket'')
      else if sent < 1 then Inl (RuntimeError ''sendto() error'')
      else if got < 1 then Inl (RuntimeError ''recv() error'')
      else bindR (write_mem (replicate 1024 0) 0 data) (\<lambda>buf. Inr (reply_type buf = 0)))"

section \<open>Lemmas\<close>

text \<open>The sum over the integers.\<close>

fun short_sum :: "u8 list \<Rightarrow> nat" where
  "short_sum (a # b # bs) = short_at a b + short_sum bs"
| "short_sum [a] = unat a"
| "short_sum [] = 0"

lemma u8_bound: "unat (a :: u8) < 256"
proof -
  have "unat a < 2 ^ LENGTH(8)" by (rule unsigned_less)
  then show ?thesis by simp
qed

lemma short_bound: "short_at a b \<le> 65535"
  using u8_bound [of a] u8_bound [of b] by (simp add: short_at_def)

lemma short_sum_bound: "2 * short_sum bs \<le> 65535 * (length bs + 1)"
proof (induction bs rule: short_sum.induct)
  case (1 a b bs)
  then show ?case using short_bound [of a b] by simp
next
  case (2 a)
  then show ?case using u8_bound [of a] by simp
qed simp

lemma sum_shorts_eq:
  "unat acc + short_sum bs < 2 ^ 64 \<Longrightarrow> unat (sum_shorts bs acc) = unat acc + short_sum bs"
proof (induction bs acc rule: sum_shorts.induct)
  case (1 a b bs acc)
  have "unat (acc + word_of_nat (short_at a b)) = unat acc + short_at a b"
    using 1(2) short_bound [of a b] by (subst unat_add_lem [THEN iffD1]) (auto simp: unat_of_nat)
  with 1 show ?case by simp
next
  case (2 a acc)
  have a: "unat (word_of_nat (unat a) :: u64) = unat a"
    using u8_bound [of a] by (simp only: unat_of_nat) simp
  have "unat (acc + word_of_nat (unat a)) = unat acc + unat a"
    using 2 by (subst unat_add_lem [THEN iffD1]) (simp_all only: a, simp)
  then show ?case by (simp only: sum_shorts.simps short_sum.simps)
qed simp

lemma fold_carry_eq: "unat (fold_carry s) = unat s mod 65536 + unat s div 65536"
proof -
  have "s AND 0xFFFF = take_bit 16 s" by (simp add: take_bit_eq_mask mask_eq_exp_minus_1)
  then have a: "unat (s AND 0xFFFF) = unat s mod 65536" 
    by (simp only: unsigned_take_bit_eq) (simp add: take_bit_eq_mod)
  have d: "unat (drop_bit 16 s) = unat s div 65536" 
    by (simp only: unat_drop_bit_eq) (simp add: drop_bit_eq_div)
  have "unat s < 2 ^ LENGTH(64)" by (rule unsigned_less)
  then have "unat s div 65536 < 2 ^ 48" by (simp add: div_less_iff_less_mult)
  moreover have "unat s mod 65536 < 65536" by simp
  ultimately have "unat s mod 65536 + unat s div 65536 < 2 ^ LENGTH(64)" by simp
  then show ?thesis
    unfolding fold_carry_def using a d by (subst unat_add_lem [THEN iffD1]) auto
qed

lemma fold_carry_mod: "(x mod 65536 + x div 65536) mod 65535 = (x :: nat) mod 65535"
proof -
  have "x = x mod 65536 + x div 65536 + 65535 * (x div 65536)"
    using div_mult_mod_eq [of x 65536] by simp
  then show ?thesis by (metis mod_mult_self2)
qed

lemma checksum_fold:
  assumes "length buf \<le> 131070"
  shows "unat (checksum buf) + unat (fold_carry (fold_carry (sum_shorts buf 0xFFFF))) = 65535 \<and>
    unat (fold_carry (fold_carry (sum_shorts buf 0xFFFF))) mod 65535 = short_sum buf mod 65535"
proof -
  let ?s = "sum_shorts buf 0xFFFF"
  let ?f = "fold_carry (fold_carry ?s)"
  have bound: "2 * short_sum buf \<le> 65535 * 131071" using short_sum_bound [of buf] assms by simp
  have s: "unat ?s = 65535 + short_sum buf" using bound by (subst sum_shorts_eq) auto
  have f1: "unat (fold_carry ?s) = unat ?s mod 65536 + unat ?s div 65536" by (rule fold_carry_eq)
  have "unat ?s div 65536 \<le> 65535" "unat ?s mod 65536 \<le> 65535"
    using s bound by (auto simp: div_le_mono less_Suc_eq_le [symmetric] div_less_iff_less_mult)
  then have f1b: "unat (fold_carry ?s) \<le> 131070" using f1 by simp
  have f2: "unat ?f = unat (fold_carry ?s) mod 65536 + unat (fold_carry ?s) div 65536" by (rule fold_carry_eq)
  have f2b: "unat ?f \<le> 65535"
  proof (cases "unat (fold_carry ?s) < 65536")
    case False
    then obtain y where y: "unat (fold_carry ?s) = 65536 + y" using le_Suc_ex not_less by blast
    then have "y \<le> 65534" using f1b by simp
    then show ?thesis unfolding f2 y by (simp add: div_add_self1)
  qed (use f2 in simp)
  have "unat ?f mod 65535 = unat ?s mod 65535" unfolding f2 f1 by (simp only: fold_carry_mod)
  also have "\<dots> = short_sum buf mod 65535" unfolding s by simp
  finally have m: "unat ?f mod 65535 = short_sum buf mod 65535" .
  have "ucast (NOT ?f) = (NOT (ucast ?f) :: u16)"
    by (rule bit_word_eqI) (auto simp: bit_simps)
  moreover have "unat (ucast ?f :: u16) = unat ?f"
    using f2b by (simp add: unsigned_ucast_eq take_bit_nat_eq_self)
  moreover have "unat (NOT w) = 65535 - unat w" for w :: u16
  proof -
    have "NOT w = -1 - w" by (simp only: not_eq_complement) simp
    moreover have "unat (-1 :: u16) = 65535" by (simp add: unsigned_minus_1_eq_mask mask_eq_exp_minus_1)
    ultimately show ?thesis by (simp add: unat_sub)
  qed
  ultimately have "unat (checksum buf) + unat ?f = 65535" using f2b by (simp add: checksum_def)
  with m show ?thesis by blast
qed

lemma short_at_split: "short_at (ucast c) (ucast (drop_bit 8 c)) = unat (c :: u16)"
proof -
  have b: "unat c < 2 ^ LENGTH(16)" by (rule unsigned_less)
  have "unat (ucast c :: u8) = unat c mod 256"
    by (simp only: unsigned_ucast_eq) (simp add: take_bit_eq_mod)
  moreover have "unat (drop_bit 8 c) = unat c div 256"
    by (simp only: unat_drop_bit_eq) (simp add: drop_bit_eq_div)
  then have "unat (ucast (drop_bit 8 c) :: u8) = unat c div 256 mod 256"
    by (simp only: unsigned_ucast_eq) (simp add: take_bit_eq_mod)
  moreover have "unat c div 256 < 256" using b by (simp add: div_less_iff_less_mult)
  ultimately show ?thesis by (simp add: short_at_def)
qed

lemma short_sum_header: "short_sum (icmphdr c) = short_sum (icmphdr 0) + unat c"
  using short_at_split [of c] short_at_split [of 0] by (simp add: icmphdr_def)

text \<open>C28. The checksum is the Internet checksum. For up to 65,535 shorts (an odd last byte
  counting as a short), it is the complement of their one's-complement sum: the two agree
  modulo \<open>2^16 - 1\<close> with the carries folded in, two foldings being enough, so that adding the
  checksum to the sum gives zero modulo \<open>2^16 - 1\<close>. The echo request carries a checksum that
  verifies in this way.\<close>

theorem checksum_verifies:
  assumes "length buf \<le> 131070"
  shows "(short_sum buf + unat (checksum buf)) mod 65535 = 0 \<and> short_sum echo_request mod 65535 = 0"
proof -
  have all: "(short_sum buf + unat (checksum buf)) mod 65535 = 0" if len: "length buf \<le> 131070" for buf
  proof -
    obtain f where f: "unat (checksum buf) + f = 65535" "f mod 65535 = short_sum buf mod 65535"
      using checksum_fold [OF len] by blast
    have "(short_sum buf + unat (checksum buf)) mod 65535 = (f + unat (checksum buf)) mod 65535"
      using f(2) by (metis mod_add_left_eq)
    also have "f + unat (checksum buf) = 65535" using f(1) by simp
    finally show ?thesis by simp
  qed
  have "length (icmphdr 0) \<le> 131070" by (simp add: icmphdr_def)
  from all [OF this] have "short_sum echo_request mod 65535 = 0"
    unfolding echo_request_def by (subst short_sum_header)
  with all [OF assms] show ?thesis ..
qed

theorem checksum_verifies_witness:
  "(short_sum (icmphdr 0) + unat (checksum (icmphdr 0))) mod 65535 = 0"
  using checksum_verifies [of "icmphdr 0"] by (simp add: icmphdr_def)

text \<open>Every short answer counts as an echo reply. The pointer to the ICMP header is advanced
  in units of the header's size, so with the usual IP header (\<open>ihl\<close> five) it points 160 bytes
  into the buffer; any answer of at most 160 bytes, a \<open>destination unreachable\<close> as well,
  leaves a zero there, which is the type of an echo reply.\<close>

theorem ping_always_alive:
  assumes "sock \<noteq> -1" "1 \<le> sent" "got = int (length data)" "1 \<le> length data" "length data \<le> 160"
    and "hd data AND 0xF = 5"
  shows "ping sock sent got data = Inr True"
proof -
  let ?buf = "overwrite (replicate 1024 0) 0 data"
  have "write_mem (replicate 1024 (0 :: u8)) 0 data = Inr ?buf"
    using assms(5) by (simp add: write_mem_def)
  moreover have "reply_type ?buf = 0"
  proof -
    have "?buf ! 0 = hd data" using assms(4) by (cases data) (auto simp: overwrite_0)
    then have "ihl ?buf = 5" using assms(6) by (simp add: ihl_def)
    then have "reply_type ?buf = ?buf ! 160" by (simp add: reply_type_def)
    also have "\<dots> = 0" using assms(5) by (simp add: overwrite_0 nth_append)
    finally show ?thesis .
  qed
  moreover have "data \<noteq> []" using assms(4) by auto
  ultimately show ?thesis using assms(1-4) by (simp add: ping_def)
qed

theorem ping_always_alive_witness:
  "ping 3 8 28 (0x45 # replicate 19 0 @ [3, 1, 0, 0, 0, 0, 0, 0]) = Inr True"
  by (rule ping_always_alive) simp_all

end
