(* ===== verification/Workers.thy ===== *)
theory Workers
  imports Queues
begin

text \<open>
  The thread pool of \<open>src/src/pubsub/worker_group.hpp\<close>: workers that take tasks from a
  \<open>LockedQueue\<close>, as a step relation over its workers and callers. The second, templated
  \<open>submit\<close> is not modelled: \<open>std::forward\<close> without its type argument does not compile, so
  nothing can call it.
\<close>

section \<open>The workers\<close>

text \<open>
  A worker is at the head of its loop, in \<open>pop\<close> (where in it is the queue's \<open>lq_pc\<close>), or has
  returned; \<open>wg_ran\<close> are the tasks called, in order.
\<close>

datatype worker_pc = AtHead | InPop | Ended

record 'a worker_group =
  wg_stop :: bool
  wg_workers :: "worker_pc list"
  wg_queue :: "'a locked_queue"
  wg_ran :: "'a list"

definition make_worker_group :: "nat \<Rightarrow> u64 \<Rightarrow> (nat \<Rightarrow> 'a) \<Rightarrow> 'a worker_group" where
  "make_worker_group n_threads junk v =
     \<lparr>wg_stop = False, wg_workers = replicate n_threads AtHead,
      wg_queue = make_locked_queue junk v, wg_ran = []\<rparr>"

definition wg_submit :: "'a \<Rightarrow> 'a worker_group \<Rightarrow> 'a worker_group" where
  "wg_submit f g = g\<lparr>wg_queue := lq_push f (wg_queue g)\<rparr>"

definition wg_set_stop :: "'a worker_group \<Rightarrow> 'a worker_group" where
  "wg_set_stop g = g\<lparr>wg_stop := True\<rparr>"

text \<open>
  A worker's step: the test of the flag, a part of \<open>pop\<close>, or the call of the task popped.
  \<open>None\<close> is that it cannot move: waiting in \<open>pop\<close>, ended, or gone wrong in \<open>pop\<close>.
\<close>

definition wg_call :: "nat \<Rightarrow> 'a worker_group \<Rightarrow> 'a worker_group option" where
  "wg_call k g =
     (case lq_pc (wg_queue g) k of
        PopDone (Inr f) \<Rightarrow>
          Some (g\<lparr>wg_ran := wg_ran g @ [f], wg_workers := (wg_workers g)[k := AtHead],
                  wg_queue := (wg_queue g)\<lparr>lq_pc := (lq_pc (wg_queue g))(k := Outside)\<rparr>\<rparr>)
      | _ \<Rightarrow> None)"

definition in_pop :: "nat \<Rightarrow> 'a locked_queue \<Rightarrow> 'a locked_queue option" where
  "in_pop k q = (case pop_locked k q of Some q' \<Rightarrow> Some q'
     | None \<Rightarrow> (case pop_remove k q of Some q' \<Rightarrow> Some q' | None \<Rightarrow> pop_return k q))"

definition worker_step :: "nat \<Rightarrow> 'a worker_group \<Rightarrow> 'a worker_group option" where
  "worker_step k g =
     (if length (wg_workers g) \<le> k then None
      else case wg_workers g ! k of
        Ended \<Rightarrow> None
      | AtHead \<Rightarrow> Some (g\<lparr>wg_workers := (wg_workers g)[k := (if wg_stop g then Ended else InPop)]\<rparr>)
      | InPop \<Rightarrow>
          (case in_pop k (wg_queue g) of
             Some q' \<Rightarrow> Some (g\<lparr>wg_queue := q'\<rparr>)
           | None \<Rightarrow> wg_call k g))"

text \<open>The destructor joins every worker; it does not set the flag.\<close>

definition destroy_returns :: "'a worker_group \<Rightarrow> bool" where
  "destroy_returns g \<longleftrightarrow> list_all (\<lambda>p. p = Ended) (wg_workers g)"

inductive wg_step :: "'a worker_group \<Rightarrow> 'a worker_group \<Rightarrow> bool" where
  wg_submits: "wg_step g (wg_submit f g)"
| wg_stops: "wg_step g (wg_set_stop g)"
| wg_works: "worker_step k g = Some g' \<Longrightarrow> wg_step g g'"

inductive wg_reach :: "nat \<Rightarrow> 'a worker_group \<Rightarrow> bool" for n where
  wg_new: "wg_reach n (make_worker_group n junk v)"
| wg_more: "wg_reach n g \<Longrightarrow> wg_step g g' \<Longrightarrow> wg_reach n g'"

inductive_cases wg_stepE: "wg_step g g'"

text \<open>The steps other than submissions: what can happen once nobody submits any more.\<close>

inductive quiet_step :: "'a worker_group \<Rightarrow> 'a worker_group \<Rightarrow> bool" where
  quiet_stop: "quiet_step g (wg_set_stop g)"
| quiet_work: "worker_step k g = Some g' \<Longrightarrow> quiet_step g g'"

section \<open>What the pool keeps\<close>

lemma in_pop_cases:
  "in_pop k q = Some q' \<Longrightarrow> pop_locked k q = Some q' \<or> pop_remove k q = Some q' \<or> pop_return k q = Some q'"
  by (auto simp: in_pop_def split: option.splits)

lemma in_pop_inv: "lq_inv q \<Longrightarrow> in_pop k q = Some q' \<Longrightarrow> lq_inv q'"
  by (drule in_pop_cases) (auto intro: lq_inv_locked lq_inv_remove lq_inv_return)

definition pool_ok :: "nat \<Rightarrow> 'a worker_group \<Rightarrow> bool" where
  "pool_ok n g \<longleftrightarrow> lq_inv (wg_queue g) \<and> wg_ran g = [] \<and> length (wg_workers g) = n"

lemma no_call: "lq_inv (wg_queue g) \<Longrightarrow> wg_call k g = None"
proof -
  assume "lq_inv (wg_queue g)"
  then have "pc_ok (lq_dead (wg_queue g)) (lq_cells (wg_queue g)) (lq_pc (wg_queue g) k)"
    by (simp add: lq_inv_def)
  then show ?thesis
    by (auto simp: wg_call_def split: pop_pc.splits sum.splits)
qed

lemma pool_ok_work: "pool_ok n g \<Longrightarrow> worker_step k g = Some g' \<Longrightarrow> pool_ok n g'"
  by (auto simp: pool_ok_def worker_step_def no_call split: if_splits worker_pc.splits option.splits
      intro: in_pop_inv)

lemma pool_ok_step: "wg_step g g' \<Longrightarrow> pool_ok n g \<Longrightarrow> pool_ok n g'"
proof (erule wg_stepE)
  fix f assume "pool_ok n g" "g' = wg_submit f g"
  then show "pool_ok n g'" by (simp add: pool_ok_def wg_submit_def lq_inv_push)
next
  assume "pool_ok n g" "g' = wg_set_stop g"
  then show "pool_ok n g'" by (simp add: pool_ok_def wg_set_stop_def)
qed (rule pool_ok_work)

lemma wg_reach_ok: "wg_reach n g \<Longrightarrow> pool_ok n g"
proof (induction rule: wg_reach.induct)
  case (wg_new junk v)
  then show ?case by (simp add: pool_ok_def make_worker_group_def lq_inv_def make_locked_queue_def)
next
  case (wg_more g g')
  then show ?case using pool_ok_step by blast
qed

text \<open>A worker that waits, waits on: no quiet step fills the queue.\<close>

definition waits :: "nat \<Rightarrow> 'a worker_group \<Rightarrow> bool" where
  "waits k g \<longleftrightarrow> k < length (wg_workers g) \<and> wg_workers g ! k = InPop \<and>
     lq_pc (wg_queue g) k = Outside \<and> lq_cells (wg_queue g) = []"

lemma waits_work:
  assumes "waits k g" "worker_step j g = Some g'"
  shows "waits k g'"
proof (cases "j = k")
  case True
  with assms show ?thesis
    by (simp add: waits_def worker_step_def in_pop_def pop_locked_def pop_remove_def pop_return_def
        wg_call_def)
next
  case False
  have "waits k (g\<lparr>wg_queue := q'\<rparr>)" if "in_pop j (wg_queue g) = Some q'" for q'
    using in_pop_cases [OF that] assms(1) False
    by (auto simp: waits_def pop_locked_def pop_remove_def pop_return_def
        split: pop_pc.splits list.splits)
  with assms False show ?thesis
    by (auto simp: worker_step_def wg_call_def split: if_splits worker_pc.splits option.splits
        pop_pc.splits sum.splits) (auto simp: waits_def)
qed

lemma waits_step: "quiet_step g g' \<Longrightarrow> waits k g \<Longrightarrow> waits k g'"
proof (induction rule: quiet_step.induct)
  case (quiet_stop g)
  then show ?case by (simp add: waits_def wg_set_stop_def)
next
  case (quiet_work j g g')
  then show ?case using waits_work by blast
qed

text \<open>C31. A pool with an idle worker can neither be stopped nor destroyed. Once a worker waits for
  a task and nobody submits one, no sequence of calls of \<open>stop\<close> and of steps of the workers
  ends it: the flag is read at the loop's head only, and nothing wakes a worker waiting in
  \<open>pop\<close>; the destructor, which joins the workers without setting the flag, never returns.\<close>

theorem idle_pool_never_ends:
  assumes "waits k g" "quiet_step\<^sup>*\<^sup>* g g'"
  shows "waits k g' \<and> \<not> destroy_returns g'"
proof -
  from assms(2,1) have "waits k g'"
    by (induction rule: rtranclp_induct) (auto intro: waits_step)
  then show ?thesis by (auto simp: waits_def destroy_returns_def list_all_length)
qed

theorem idle_pool_never_ends_witness:
  "\<exists>g g' :: nat worker_group. wg_reach 1 g \<and> waits 0 g \<and> quiet_step\<^sup>*\<^sup>* g g' \<and> wg_stop g' \<and>
     \<not> destroy_returns g'"
proof -
  let ?g = "make_worker_group 1 0 (\<lambda>c. 0 :: nat)\<lparr>wg_workers := [InPop]\<rparr>"
  have "worker_step 0 (make_worker_group 1 0 (\<lambda>c. 0)) = Some ?g"
    by (simp add: worker_step_def make_worker_group_def)
  from wg_more [OF wg_new wg_works [OF this]] have r: "wg_reach 1 ?g" .
  have w: "waits 0 ?g" by (simp add: waits_def make_worker_group_def make_locked_queue_def)
  have q: "quiet_step\<^sup>*\<^sup>* ?g (wg_set_stop ?g)" by (rule r_into_rtranclp, rule quiet_step.quiet_stop)
  show ?thesis using r w q idle_pool_never_ends [OF w q]
    by (intro exI [of _ ?g] exI [of _ "wg_set_stop ?g"]) (simp add: wg_set_stop_def)
qed

text \<open>The pool never runs a task. In every state it reaches, whatever was submitted, no task
  has been called: a worker's \<open>pop\<close> has handed it a destroyed function object, or aborted.\<close>

theorem no_task_runs:
  assumes "wg_reach n g"
  shows "wg_ran g = [] \<and> wg_call k g = None"
  using wg_reach_ok [OF assms] by (simp add: pool_ok_def no_call)

theorem no_task_runs_witness: "wg_ran (wg_submit (5 :: nat) (make_worker_group 2 0 (\<lambda>c. 0))) = []"
proof -
  have "wg_reach 2 (wg_submit (5 :: nat) (make_worker_group 2 0 (\<lambda>c. 0)))"
    by (rule wg_more [OF wg_new wg_submits])
  from no_task_runs [OF this] show ?thesis by simp
qed

end
