(* ===== verification/Bench.thy ===== *)
theory Bench
  imports Demux
begin

text \<open>
  The load generator of \<open>src/benchmark/benchmark.cpp\<close> with its codec \<open>module/module.cpp\<close>:
  its configuration and clients, the operations on one client, and the loop over the events
  of its epoll instance. The kernel is a parameter; what the program prints is left out,
  apart from the numbers of the final report.
\<close>

section \<open>State\<close>

definition MAX_RECV_BUF_LEN :: nat where "MAX_RECV_BUF_LEN = 4 * 1024"
definition MAX_SEND_BUF_LEN :: nat where "MAX_SEND_BUF_LEN = 4 * 1024"
definition MAX_FAIL_COUNT :: int where "MAX_FAIL_COUNT = 1000"
definition ENONE :: u32 where "ENONE = 0"
definition B_READABLE :: u32 where "B_READABLE = 1"
definition B_WRITEABLE :: u32 where "B_WRITEABLE = 2"
definition CONNECT_TIMEOUT :: u64 where "CONNECT_TIMEOUT = 3"

definition EINTR :: int where "EINTR = 4"
definition EINPROGRESS :: int where "EINPROGRESS = 115"

datatype protocol = PROTOCOL_TCP | PROTOCOL_UDP

text \<open>The two functions an event may call; a function pointer not yet set is \<open>None\<close>.\<close>

datatype func = SendToServer | RecvFromServer

record client =
  cl_fd :: int
  cl_mask :: u32
  cl_latency :: u64
  cl_startTime :: u64
  cl_touchTime :: u64
  cl_recvBufLen :: u32
  cl_sendedLen :: u32
  cl_sendBufLen :: u32
  cl_sendBuf :: string
  cl_rFunc :: "func option"
  cl_wFunc :: "func option"

text \<open>The system calls; a write shows the bytes offered.\<close>

datatype bcall =
    BSocket protocol
  | BFcntl fd u32 u32
  | BConnect fd string u16
  | BNoDelay fd
  | BCtl epoll_op fd u32
  | BClose fd
  | BRead fd nat
  | BWrite fd string
  | BClock

text \<open>A history: the calls issued so far, each with its answer, oldest first.\<close>

type_synonym history = "(bcall \<times> int) list"

text \<open>
  \<open>benchConfig\<close>, the cached time \<open>_tv\<close> (seconds and microseconds), and the history. The contents of the receive buffers are left out: \<open>decodeResponse\<close>, their
  only reader, ignores them.
\<close>

record bench =
  resetClientNum :: u32
  timeoutClientNum :: u32
  totalRequests :: u32
  needRequestNum :: u32
  doneRequests :: u32
  bench_start :: u64
  bench_end :: u64
  keepalive :: int
  liveClientNum :: u32
  createClientNum :: u32
  needClientNum :: u32
  randomFlag :: int
  bench_port :: u16
  bench_protocol :: protocol
  bench_host :: string
  latencies :: "u64 list"
  loop_stop :: int
  bench_clients :: "client list"
  bench_tv :: "u64 \<times> u64"
  bench_log :: history

text \<open>
  The kernel: what it answers to a call after a history, what \<open>errno\<close> is then, and the clock.
\<close>

record kern =
  k_ret :: "history \<Rightarrow> bcall \<Rightarrow> int"
  k_errno :: "history \<Rightarrow> int"
  k_clock :: "history \<Rightarrow> u64 \<times> u64"

definition bsys :: "kern \<Rightarrow> bcall \<Rightarrow> bench \<Rightarrow> int \<times> bench" where
  "bsys k c s = (let r = k_ret k (bench_log s) c in (r, s\<lparr>bench_log := bench_log s @ [(c, r)]\<rparr>))"

definition errno_after :: "kern \<Rightarrow> bench \<Rightarrow> int" where
  "errno_after k s = k_errno k (bench_log s)"

abbreviation client_at :: "bench \<Rightarrow> nat \<Rightarrow> client" where
  "client_at s i \<equiv> bench_clients s ! i"

definition upd_client :: "nat \<Rightarrow> (client \<Rightarrow> client) \<Rightarrow> bench \<Rightarrow> bench" where
  "upd_client i f s = s\<lparr>bench_clients := (bench_clients s)[i := f (client_at s i)]\<rparr>"

section \<open>Time\<close>

definition touchTime :: "kern \<Rightarrow> bench \<Rightarrow> bench" where
  "touchTime k s =
     s\<lparr>bench_tv := k_clock k (bench_log s), bench_log := bench_log s @ [(BClock, 0)]\<rparr>"

definition cached :: "kern \<Rightarrow> bench \<Rightarrow> bench" where
  "cached k s = (if fst (bench_tv s) = 0 then touchTime k s else s)"

definition msTime :: "kern \<Rightarrow> bench \<Rightarrow> u64 \<times> bench" where
  "msTime k s = (let s' = cached k s in
     (fst (bench_tv s') * 1000 + snd (bench_tv s') div 1000, s'))"

definition usTime :: "kern \<Rightarrow> bench \<Rightarrow> u64 \<times> bench" where
  "usTime k s = (let s' = cached k s in
     (fst (bench_tv s') * 1000000 + snd (bench_tv s'), s'))"

section \<open>Configuration\<close>

definition initConfig :: bench where
  "initConfig = \<lparr>resetClientNum = 0, timeoutClientNum = 0, totalRequests = 0, needRequestNum = 50,
     doneRequests = 0, bench_start = 0, bench_end = 0, keepalive = 0, liveClientNum = 0,
     createClientNum = 0, needClientNum = 5, randomFlag = 0, bench_port = 5113,
     bench_protocol = PROTOCOL_TCP, bench_host = ''127.0.0.1'', latencies = [], loop_stop = 0,
     bench_clients = [], bench_tv = (0, 0), bench_log = []\<rparr>"

text \<open>The options as \<open>getopt_long\<close> yields them, each with its argument.\<close>

fun parseOptions :: "(char \<times> string) list \<Rightarrow> bench \<Rightarrow> bench result" where
  "parseOptions [] s = Inr s"
| "parseOptions ((opt, arg) # opts) s =
     (if opt = CHR ''c'' then parseOptions opts (s\<lparr>needClientNum := word_of_int (atoi arg)\<rparr>)
      else if opt = CHR ''n'' then parseOptions opts (s\<lparr>needRequestNum := word_of_int (atoi arg)\<rparr>)
      else if opt = CHR ''h'' then parseOptions opts (s\<lparr>bench_host := arg\<rparr>)
      else if opt = CHR ''p'' then parseOptions opts (s\<lparr>bench_port := word_of_int (atoi arg)\<rparr>)
      else if opt = CHR ''k'' then parseOptions opts (s\<lparr>keepalive := 1\<rparr>)
      else if opt = CHR ''u'' then parseOptions opts (s\<lparr>bench_protocol := PROTOCOL_UDP\<rparr>)
      else if opt = CHR ''r'' then parseOptions opts (s\<lparr>randomFlag := 1\<rparr>)
      else Inl (Exited 1))"

section \<open>The codec\<close>

definition CRLF :: string where "CRLF = [CHR 0x0D, CHR 0x0A]"

definition request_text :: string where
  "request_text =
     ''GET /lp?id=641023139&type=12&callback=callbackarea&rot=1 HTTP/1.1'' @ CRLF @
     ''Host: xx.com'' @ CRLF @
     ''Connection: keep-alive'' @ CRLF @
     ''User-Agent: Mozilla/5.0 (Windows NT 5.1) AppleWebKit/535.11 (KHTML, like Gecko) Chrome/17.0.963.56 Safari/535.11'' @ CRLF @
     ''Referer: http://xx.com/'' @ CRLF @
     ''Accept: */*'' @ CRLF @
     ''Accept-Encoding: gzip,deflate,sdch'' @ CRLF @
     ''Accept-Language: zh-CN,zh;q=0.8,en;q=0.6'' @ CRLF @
     ''Accept-Charset: gb18030,utf-8;q=0.7,*;q=0.3'' @ CRLF @
     CRLF"

definition encodeRequest :: "string \<Rightarrow> nat \<Rightarrow> int \<times> string" where
  "encodeRequest data maxLen =
     (if maxLen < length request_text then (-1, data)
      else (int (length request_text), overwrite data 0 request_text))"

definition decodeResponse :: "u32 \<Rightarrow> int" where
  "decodeResponse len = 0"

text \<open>\<open>c->sendBufLen = encodeRequest(c->sendBuf, sizeof(c->sendBuf))\<close>\<close>

definition encode_into :: "client \<Rightarrow> client" where
  "encode_into c = (let (len, data) = encodeRequest (cl_sendBuf c) (MAX_SEND_BUF_LEN + 1) in
     c\<lparr>cl_sendBuf := data, cl_sendBufLen := word_of_int len\<rparr>)"

section \<open>Events of a client\<close>

definition epoll_bits :: "u32 \<Rightarrow> u32" where
  "epoll_bits m = (if m AND B_READABLE \<noteq> 0 then EPOLLIN else 0) OR
     (if m AND B_WRITEABLE \<noteq> 0 then EPOLLOUT else 0)"

definition addEvent :: "kern \<Rightarrow> nat \<Rightarrow> u32 \<Rightarrow> func \<Rightarrow> bench \<Rightarrow> int \<times> bench" where
  "addEvent k i m f s =
     (let c = client_at s i;
          op = (if cl_mask c = ENONE then CtlAdd else CtlMod);
          c1 = c\<lparr>cl_mask := cl_mask c OR m\<rparr>;
          c2 = (if m AND B_WRITEABLE \<noteq> 0 then c1\<lparr>cl_wFunc := Some f\<rparr> else c1\<lparr>cl_rFunc := Some f\<rparr>)
      in bsys k (BCtl op (cl_fd c) (epoll_bits (cl_mask c OR m))) (upd_client i (\<lambda>_. c2) s))"

definition delEvent :: "kern \<Rightarrow> nat \<Rightarrow> u32 \<Rightarrow> bench \<Rightarrow> int \<times> bench" where
  "delEvent k i m s =
     (let c = client_at s i; m' = cl_mask c AND NOT m;
          op = (if m' = ENONE then CtlDel else CtlMod)
      in bsys k (BCtl op (cl_fd c) (epoll_bits m')) (upd_client i (\<lambda>c. c\<lparr>cl_mask := m'\<rparr>) s))"

definition closeConnection :: "kern \<Rightarrow> nat \<Rightarrow> bench \<Rightarrow> bench" where
  "closeConnection k i s =
     (let f = cl_fd (client_at s i);
          s1 = snd (bsys k (BCtl CtlDel f 0) s);
          s2 = snd (bsys k (BClose f) s1);
          s3 = upd_client i (\<lambda>c. c\<lparr>cl_fd := -1\<rparr>) s2
      in s3\<lparr>liveClientNum := liveClientNum s3 - 1\<rparr>)"

definition resetClient :: "kern \<Rightarrow> nat \<Rightarrow> bench \<Rightarrow> bench" where
  "resetClient k i s =
     (let s1 = snd (delEvent k i B_READABLE s);
          s2 = snd (addEvent k i B_WRITEABLE SendToServer s1);
          s3 = upd_client i (\<lambda>c. c\<lparr>cl_recvBufLen := 0, cl_sendedLen := 0\<rparr>) s2;
          s4 = (if randomFlag s3 = 1 then upd_client i encode_into s3 else s3)
      in if randomFlag s3 = 1 \<and> cl_sendBufLen (client_at s4 i) < 0
         then snd (bsys k (BClose (cl_fd (client_at s4 i))) (s4\<lparr>liveClientNum := liveClientNum s4 - 1\<rparr>))
         else s4\<lparr>resetClientNum := resetClientNum s4 + 1\<rparr>)"

section \<open>Creating clients\<close>

definition b_fcntl :: "kern \<Rightarrow> fd \<Rightarrow> u32 \<Rightarrow> u32 option \<Rightarrow> bench \<Rightarrow> u32 \<times> bench" where
  "b_fcntl k f cmd arg s =
     (let (r, s') = bsys k (BFcntl f cmd (case arg of None \<Rightarrow> 0 | Some a \<Rightarrow> a)) s in (word_of_int r, s'))"

text \<open>\<open>setNonBlock\<close>, over the same interface of \<open>fcntl\<close> as \<open>setNonBlocking\<close>.\<close>

definition setNonBlock ::
  "(fd \<Rightarrow> u32 \<Rightarrow> u32 option \<Rightarrow> 'k \<Rightarrow> u32 \<times> 'k) \<Rightarrow> fd \<Rightarrow> 'k \<Rightarrow> int \<times> 'k" where
  "setNonBlock sys_fcntl f k =
     (let (flag, k1) = sys_fcntl f F_GETFL (Some 0) k in
      if flag = -1 then (-1, k1)
      else let (r, k2) = sys_fcntl f F_SETFL (Some (flag OR O_NONBLOCK)) k1 in
        if r = -1 then (-1, k2) else (0, k2))"

definition setTcpNoDelay :: "kern \<Rightarrow> fd \<Rightarrow> bench \<Rightarrow> int \<times> bench" where
  "setTcpNoDelay k f s = (let (r, s') = bsys k (BNoDelay f) s in (if r = -1 then -1 else 0, s'))"

text \<open>The label \<open>CREATE_FAIL\<close>.\<close>

definition create_fail :: "kern \<Rightarrow> fd \<Rightarrow> bench \<Rightarrow> int \<times> bench" where
  "create_fail k f s = (-1, snd (bsys k (BClose f) s))"

definition slot_of :: "bench \<Rightarrow> fd \<Rightarrow> nat" where
  "slot_of s f = nat f mod unat (needClientNum s)"

text \<open>The part from the client's slot on, for a descriptor that is connected or connecting.\<close>

definition install_client :: "kern \<Rightarrow> fd \<Rightarrow> bench \<Rightarrow> (int \<times> bench) result" where
  "install_client k f s =
     (if needClientNum s = 0 then Inl DivByZero
      else let i = slot_of s f;
        s1 = upd_client i (\<lambda>c. encode_into (c\<lparr>cl_fd := f, cl_mask := ENONE\<rparr>)) s in
        if cl_sendBufLen (client_at s1 i) < 0 then Inr (create_fail k f s1)
        else let s2 = upd_client i (\<lambda>c. c\<lparr>cl_sendedLen := 0, cl_recvBufLen := 0\<rparr>) s1;
          (r, s3) = addEvent k i B_WRITEABLE SendToServer s2 in
          if r < 0 then Inr (create_fail k f s3)
          else Inr (0, s3\<lparr>liveClientNum := liveClientNum s3 + 1,
                          createClientNum := createClientNum s3 + 1\<rparr>))"

definition createClient :: "kern \<Rightarrow> bench \<Rightarrow> (int \<times> bench) result" where
  "createClient k s =
     (let (f, s1) = bsys k (BSocket (bench_protocol s)) s in
      if f = -1 then Inr (-1, s1)
      else let (nb, s2) = setNonBlock (b_fcntl k) f s1 in
      if nb < 0 then Inr (create_fail k f s2)
      else let (r, s3) = bsys k (BConnect f (bench_host s2) (bench_port s2)) s2 in
      if r = -1 \<and> errno_after k s3 \<noteq> EINPROGRESS then Inr (create_fail k f s3)
      else let (nd, s4) = (if bench_protocol s3 = PROTOCOL_TCP then setTcpNoDelay k f s3 else (0, s3)) in
      if nd < 0 then Inr (create_fail k f s4) else install_client k f s4)"

partial_function (option) createNeedClients :: "kern \<Rightarrow> bench \<Rightarrow> bench result option" where
  "createNeedClients k s =
     (if liveClientNum s < needClientNum s
      then case createClient k s of
             Inl err \<Rightarrow> Some (Inl err)
           | Inr (r, s') \<Rightarrow> if r < 0 then Some (Inl (Exited 1)) else createNeedClients k s'
      else Some (Inr s))"

definition reconnect :: "kern \<Rightarrow> nat \<Rightarrow> bench \<Rightarrow> bench result" where
  "reconnect k i s = bindR (createClient k (closeConnection k i s)) (\<lambda>(_, s'). Inr s')"

definition clientDone :: "kern \<Rightarrow> nat \<Rightarrow> bench \<Rightarrow> bench result" where
  "clientDone k i s =
     (if doneRequests s = needRequestNum s then Inr (s\<lparr>loop_stop := 0\<rparr>)
      else if keepalive s \<noteq> 0 \<or> bench_protocol s = PROTOCOL_UDP then Inr (resetClient k i s)
      else reconnect k i s)"

section \<open>Receiving and sending\<close>

text \<open>The loops repeat a call that was interrupted; each yields the answer it stops with.\<close>

partial_function (option) read_loop :: "kern \<Rightarrow> nat \<Rightarrow> bench \<Rightarrow> (int \<times> bench) option" where
  "read_loop k i s =
     (let c = client_at s i;
          (received, s') = bsys k (BRead (cl_fd c) (MAX_RECV_BUF_LEN + 1 - unat (cl_recvBufLen c))) s
      in if received < 0 \<and> errno_after k s' = EINTR then read_loop k i s' else Some (received, s'))"

definition record_latency :: "nat \<Rightarrow> bench \<Rightarrow> bench result" where
  "record_latency i s =
     (if doneRequests s < needRequestNum s
      then if unat (doneRequests s) < length (latencies s)
           then Inr (s\<lparr>latencies := (latencies s)[unat (doneRequests s) := cl_latency (client_at s i)],
                       doneRequests := doneRequests s + 1\<rparr>)
           else Inl OutOfBounds
      else Inr s)"

definition recv_touch :: "kern \<Rightarrow> nat \<Rightarrow> bench \<Rightarrow> bench" where
  "recv_touch k i s =
     (let (t, s1) = usTime k s; s2 = upd_client i (\<lambda>c. c\<lparr>cl_touchTime := t\<rparr>) s1 in
      if sint (cl_latency (client_at s2 i)) < 0
      then let (t', s3) = usTime k s2 in upd_client i (\<lambda>c. c\<lparr>cl_latency := t' - cl_startTime c\<rparr>) s3
      else s2)"

definition recv_done :: "kern \<Rightarrow> nat \<Rightarrow> int \<Rightarrow> bench \<Rightarrow> (int \<times> bench) result" where
  "recv_done k i received s =
     (let s1 = upd_client i (\<lambda>c. c\<lparr>cl_recvBufLen := cl_recvBufLen c + word_of_int received\<rparr>) s in
      if MAX_RECV_BUF_LEN < unat (cl_recvBufLen (client_at s1 i)) then Inl (Exited (-1))
      else let ret = decodeResponse (cl_recvBufLen (client_at s1 i)) in
        if ret < 0 then bindR (reconnect k i s1) (\<lambda>s2. Inr (-1, s2))
        else if ret = 1 then Inr (0, s1)
        else bindR (record_latency i s1) (\<lambda>s2. bindR (clientDone k i s2) (\<lambda>s3. Inr (0, s3))))"

definition recvFromServer :: "kern \<Rightarrow> nat \<Rightarrow> bench \<Rightarrow> (int \<times> bench) result option" where
  "recvFromServer k i s =
     map_option (\<lambda>(received, s1).
       if received < 0 \<and> (errno_after k s1 = EWOULDBLOCK \<or> errno_after k s1 = EAGAIN) then Inr (1, s1)
       else if received \<le> 0 then bindR (reconnect k i s1) (\<lambda>s2. Inr (-1, s2))
       else recv_done k i received s1) (read_loop k i (recv_touch k i s))"

text \<open>What is still to be sent of a client's request.\<close>

definition unsent :: "client \<Rightarrow> string" where
  "unsent c = take (unat (cl_sendBufLen c - cl_sendedLen c)) (drop (unat (cl_sendedLen c)) (cl_sendBuf c))"

partial_function (option) write_loop :: "kern \<Rightarrow> nat \<Rightarrow> bench \<Rightarrow> (int \<times> bench) option" where
  "write_loop k i s =
     (let (sended, s') = bsys k (BWrite (cl_fd (client_at s i)) (unsent (client_at s i))) s
      in if sended \<le> 0 \<and> errno_after k s' = EINTR then write_loop k i s' else Some (sended, s'))"

definition send_touch :: "kern \<Rightarrow> nat \<Rightarrow> bench \<Rightarrow> bench" where
  "send_touch k i s =
     (let s1 = (if cl_sendedLen (client_at s i) = 0
                then let (t, s') = usTime k s in
                  upd_client i (\<lambda>c. c\<lparr>cl_startTime := t, cl_latency := -1\<rparr>) s'
                else s);
          (t, s2) = usTime k s1
      in upd_client i (\<lambda>c. c\<lparr>cl_touchTime := t\<rparr>) s2)"

definition send_done :: "kern \<Rightarrow> nat \<Rightarrow> int \<Rightarrow> bench \<Rightarrow> bench" where
  "send_done k i sended s =
     (let s1 = upd_client i (\<lambda>c. c\<lparr>cl_sendedLen := cl_sendedLen c + word_of_int sended\<rparr>)
                 (s\<lparr>totalRequests := totalRequests s + 1\<rparr>) in
      if cl_sendedLen (client_at s1 i) = cl_sendBufLen (client_at s1 i)
      then snd (addEvent k i B_READABLE RecvFromServer (snd (delEvent k i B_WRITEABLE s1)))
      else s1)"

definition sendToServer :: "kern \<Rightarrow> nat \<Rightarrow> bench \<Rightarrow> (int \<times> bench) result option" where
  "sendToServer k i s =
     map_option (\<lambda>(sended, s1).
       if sended \<le> 0
       then if errno_after k s1 = EWOULDBLOCK \<or> errno_after k s1 = EAGAIN then Inr (1, s1)
            else bindR (reconnect k i s1) (\<lambda>s2. Inr (-1, s2))
       else Inr (0, send_done k i sended s1)) (write_loop k i (send_touch k i s))"

section \<open>The loop\<close>

fun call_func :: "kern \<Rightarrow> func option \<Rightarrow> nat \<Rightarrow> bench \<Rightarrow> bench result option" where
  "call_func k None i s = Some (Inl NullDeref)"
| "call_func k (Some SendToServer) i s = map_option (\<lambda>x. bindR x (\<lambda>(_, s'). Inr s')) (sendToServer k i s)"
| "call_func k (Some RecvFromServer) i s = map_option (\<lambda>x. bindR x (\<lambda>(_, s'). Inr s')) (recvFromServer k i s)"

text \<open>
  One event of descriptor \<open>f\<close>; \<open>fails\<close> is \<open>epoll_fail\<close>. The function pointers are read when
  they are called.
\<close>

definition bench_event :: "kern \<Rightarrow> fd \<times> u32 \<Rightarrow> int \<times> bench \<Rightarrow> (int \<times> bench) result option" where
  "bench_event k q x =
     (let (f, ev) = q; (fails, s) = x in
      if needClientNum s = 0 then Some (Inl DivByZero)
      else let i = slot_of s f in
      if has (EPOLLERR OR EPOLLHUP) ev
      then if MAX_FAIL_COUNT < fails + 1 then Some (Inl (Exited 0))
           else Some (bindR (reconnect k i s) (\<lambda>s'. Inr (fails + 1, s')))
      else bindO (if has EPOLLIN ev then call_func k (cl_rFunc (client_at s i)) i s else Some (Inr s)) (\<lambda>s1.
           bindO (if has EPOLLOUT ev then call_func k (cl_wFunc (client_at s1 i)) i s1 else Some (Inr s1)) (\<lambda>s2.
             Some (Inr (fails, s2)))))"

fun bench_events :: "kern \<Rightarrow> (fd \<times> u32) list \<Rightarrow> int \<times> bench \<Rightarrow> (int \<times> bench) result option" where
  "bench_events k [] x = Some (Inr x)"
| "bench_events k (q # qs) x = bindO (bench_event k q x) (bench_events k qs)"

fun clear_from :: "kern \<Rightarrow> u64 \<Rightarrow> nat list \<Rightarrow> bench \<Rightarrow> bench" where
  "clear_from k cur [] s = s"
| "clear_from k cur (i # is) s =
     clear_from k cur is
       (if 0 < cl_fd (client_at s i) \<and> cl_touchTime (client_at s i) + CONNECT_TIMEOUT * 1000000 \<le> cur
        then resetClient k i (s\<lparr>timeoutClientNum := timeoutClientNum s + 1\<rparr>) else s)"

definition clearTimeoutConnection :: "kern \<Rightarrow> u64 \<Rightarrow> bench \<Rightarrow> bench" where
  "clearTimeoutConnection k cur s = clear_from k cur [0..<unat (needClientNum s)] s"

text \<open>A round: what \<open>epoll_wait\<close> delivered, the failures so far and \<open>last_check_ustime\<close>.\<close>

definition bench_round ::
  "kern \<Rightarrow> (fd \<times> u32) list \<Rightarrow> int \<times> u64 \<times> bench \<Rightarrow> (int \<times> u64 \<times> bench) result option" where
  "bench_round k qs x =
     (let (fails, last_check, s) = x in
      bindO (bench_events k qs (fails, touchTime k s)) (\<lambda>(fails', s1).
        let (t, s2) = usTime k s1 in
        if 200000 < t - last_check
        then let (t', s3) = usTime k s2 in
          bindO (createNeedClients k (clearTimeoutConnection k t' s3)) (\<lambda>s4.
            let (_, s5) = msTime k s4; (t'', s6) = usTime k s5 in Some (Inr (fails', t'', s6)))
        else Some (Inr (fails', last_check, s2))))"

fun bench_rounds ::
  "kern \<Rightarrow> (fd \<times> u32) list list \<Rightarrow> int \<times> u64 \<times> bench \<Rightarrow> (int \<times> u64 \<times> bench) result option" where
  "bench_rounds k [] x = Some (Inr x)"
| "bench_rounds k (qs # qss) x =
     (if loop_stop (snd (snd x)) = 0 then Some (Inr x)
      else bindO (bench_round k qs x) (bench_rounds k qss))"

section \<open>The report\<close>

text \<open>\<open>qsort\<close>'s comparison: the difference of two \<open>uint64_t\<close>, returned as an \<open>int\<close>.\<close>

definition compareLatency :: "u64 \<Rightarrow> u64 \<Rightarrow> int" where
  "compareLatency a b = sint (ucast (a - b) :: u32)"

text \<open>
  The lines of the report, for the latencies from the \<open>i\<close>-th on: how many requests, and
  within how many milliseconds. \<open>curlat\<close> is a 32-bit variable.
\<close>

fun report_lines :: "nat \<Rightarrow> u32 \<Rightarrow> nat \<Rightarrow> u64 list \<Rightarrow> (nat \<times> u64) list" where
  "report_lines n curlat i [] = []"
| "report_lines n curlat i (l # ls) =
     (if l div 10000 \<noteq> ucast curlat \<or> i = n - 1
      then (Suc i, l div 1000) # report_lines n (ucast (l div 10000)) (Suc i) ls
      else report_lines n curlat (Suc i) ls)"

record report =
  rep_lines :: "(nat \<times> u64) list"
  rep_average :: u64
  rep_sent :: u32
  rep_time :: u64

text \<open>\<open>qs\<close> is the library's \<open>qsort\<close>.\<close>

definition showReport :: "((u64 \<Rightarrow> u64 \<Rightarrow> int) \<Rightarrow> u64 list \<Rightarrow> u64 list) \<Rightarrow> bench \<Rightarrow> report result" where
  "showReport qs s =
     (let n = unat (doneRequests s); ls = qs compareLatency (take n (latencies s)) in
      if doneRequests s = 0 then Inl DivByZero
      else Inr \<lparr>rep_lines = report_lines n 0 0 ls,
                rep_average = sum_list (map (\<lambda>l. l div 1000) ls) div ucast (doneRequests s),
                rep_sent = totalRequests s, rep_time = bench_end s - bench_start s\<rparr>)"

section \<open>The program\<close>

text \<open>\<open>qss\<close> is what the calls of \<open>epoll_wait\<close> deliver; \<open>None\<close> is also a run not yet at its end.\<close>

definition benchmark ::
  "((u64 \<Rightarrow> u64 \<Rightarrow> int) \<Rightarrow> u64 list \<Rightarrow> u64 list) \<Rightarrow> kern \<Rightarrow> (fd \<times> u32) list list \<Rightarrow> bench \<Rightarrow> report result option"
  where
  "benchmark qs k qss s =
     bindO (createNeedClients k s) (\<lambda>s1.
       let (t, s2) = msTime k s1; (u, s3) = usTime k (s2\<lparr>bench_start := t\<rparr>) in
       bindO (bench_rounds k qss (0, u, s3)) (\<lambda>(_, _, s4).
         if loop_stop s4 \<noteq> 0 then None
         else let (t', s5) = msTime k s4 in Some (showReport qs (s5\<lparr>bench_end := t'\<rparr>))))"

text \<open>
  \<open>main\<close>: the arrays hold what the memory held, \<open>cs\<close> and \<open>ls\<close>; the loop's flag \<open>stop\<close> is
  one while the loop is to go on.
\<close>

definition bench_setup :: "client list \<Rightarrow> u64 list \<Rightarrow> bench \<Rightarrow> bench" where
  "bench_setup cs ls s =
     s\<lparr>bench_clients := take (unat (needClientNum s)) cs,
       latencies := take (unat (needRequestNum s)) ls, loop_stop := 1\<rparr>"

definition bench_main ::
  "((u64 \<Rightarrow> u64 \<Rightarrow> int) \<Rightarrow> u64 list \<Rightarrow> u64 list) \<Rightarrow> kern \<Rightarrow> (char \<times> string) list \<Rightarrow> client list \<Rightarrow>
     u64 list \<Rightarrow> (fd \<times> u32) list list \<Rightarrow> report result option" where
  "bench_main qs k opts cs ls qss =
     bindO (Some (parseOptions opts initConfig)) (\<lambda>s. benchmark qs k qss (bench_setup cs ls s))"

end
