(* ===== verification/Bench_Run.thy ===== *)
theory Bench_Run
  imports Bench
begin

text \<open>
  The load generator at work: the kernel's documented behaviour, the invariant that ties the
  clients to their descriptors and to the epoll instance, and what it gives: descriptors
  never meet in a slot, the loop is safe, and the report counts what it says.
\<close>

section \<open>What the kernel knows\<close>

text \<open>The events a history leaves registered, by descriptor, and the descriptors open.\<close>

fun b_watch :: "bcall \<times> int \<Rightarrow> (fd \<rightharpoonup> u32) \<Rightarrow> (fd \<rightharpoonup> u32)" where
  "b_watch (BCtl CtlAdd f ev, r) m = (if r < 0 then m else m(f \<mapsto> ev))"
| "b_watch (BCtl CtlMod f ev, r) m = (if r < 0 then m else m(f \<mapsto> ev))"
| "b_watch (BCtl CtlDel f ev, r) m = (if r < 0 then m else m(f := None))"
| "b_watch (BClose f, r) m = m(f := None)"
| "b_watch _ m = m"

definition interest :: "history \<Rightarrow> (fd \<rightharpoonup> u32)" where
  "interest h = fold b_watch h Map.empty"

fun b_open :: "bcall \<times> int \<Rightarrow> fd set \<Rightarrow> fd set" where
  "b_open (BSocket p, r) os = (if r < 0 then os else insert r os)"
| "b_open (BClose f, r) os = os - {f}"
| "b_open _ os = os"

text \<open>The descriptors below \<open>b\<close> are open from the start: the standard ones and the epoll instance.\<close>

definition open_fds :: "nat \<Rightarrow> history \<Rightarrow> fd set" where
  "open_fds b h = fold b_open h {0..<int b}"

lemma interest_simps [simp]:
  "interest [] = Map.empty" "interest (h @ xs) = fold b_watch xs (interest h)"
  by (simp_all add: interest_def)

lemma open_fds_simps [simp]:
  "open_fds b [] = {0..<int b}" "open_fds b (h @ xs) = fold b_open xs (open_fds b h)"
  by (simp_all add: open_fds_def)

text \<open>
  The kernel's contract: \<open>socket\<close> fails or hands out the lowest descriptor not open;
  \<open>epoll_ctl\<close> adds what is not registered, and modifies and deletes what is; a read or write
  moves no more than it is asked to; and no call is interrupted, the program having no
  signal handler.
\<close>

fun valid_ctl :: "history \<Rightarrow> epoll_op \<Rightarrow> fd \<Rightarrow> bool" where
  "valid_ctl h CtlAdd f \<longleftrightarrow> interest h f = None"
| "valid_ctl h op f \<longleftrightarrow> interest h f \<noteq> None"

definition lowest_free :: "nat \<Rightarrow> history \<Rightarrow> fd \<Rightarrow> bool" where
  "lowest_free b h f \<longleftrightarrow> 0 \<le> f \<and> f \<notin> open_fds b h \<and> {0..<f} \<subseteq> open_fds b h"

definition kern_ok :: "nat \<Rightarrow> kern \<Rightarrow> bool" where
  "kern_ok b k \<longleftrightarrow>
     (\<forall>h p. k_ret k h (BSocket p) = -1 \<or> lowest_free b h (k_ret k h (BSocket p))) \<and>
     (\<forall>h op f ev. valid_ctl h op f \<longrightarrow> 0 \<le> k_ret k h (BCtl op f ev)) \<and>
     (\<forall>h f n. k_ret k h (BRead f n) \<le> int n) \<and>
     (\<forall>h f bs. k_ret k h (BWrite f bs) \<le> int (length bs)) \<and>
     (\<forall>h. k_errno k h \<noteq> EINTR)"

section \<open>The invariant\<close>

definition reg :: "bench \<Rightarrow> fd \<rightharpoonup> u32" where
  "reg s f = (let c = client_at s (slot_of s f) in
     if 0 < f \<and> cl_fd c = f then Some (epoll_bits (cl_mask c)) else None)"

definition request_ready :: "client \<Rightarrow> bool" where
  "request_ready c \<longleftrightarrow> take (length request_text) (cl_sendBuf c) = request_text \<and>
     cl_sendBufLen c = word_of_nat (length request_text)"

definition writing :: "client \<Rightarrow> bool" where
  "writing c \<longleftrightarrow> cl_mask c = B_WRITEABLE \<and> cl_sendedLen c < cl_sendBufLen c"

definition reading :: "client \<Rightarrow> bool" where
  "reading c \<longleftrightarrow> cl_mask c = B_READABLE \<and> cl_rFunc c = Some RecvFromServer \<and>
     cl_sendedLen c = cl_sendBufLen c"

definition client_ok :: "nat \<Rightarrow> nat \<Rightarrow> nat \<Rightarrow> client \<Rightarrow> bool" where
  "client_ok b n i c \<longleftrightarrow> int b \<le> cl_fd c \<and> cl_fd c < int (b + n) \<and> nat (cl_fd c) mod n = i \<and>
     cl_wFunc c = Some SendToServer \<and> request_ready c \<and> (writing c \<or> reading c) \<and>
     unat (cl_recvBufLen c) \<le> MAX_RECV_BUF_LEN"

definition counts_ok :: "bench \<Rightarrow> bool" where
  "counts_ok s \<longleftrightarrow> doneRequests s \<le> needRequestNum s \<and>
     length (latencies s) = unat (needRequestNum s) \<and>
     (loop_stop s = 0 \<longrightarrow> doneRequests s = needRequestNum s)"

abbreviation need :: "bench \<Rightarrow> nat" where
  "need s \<equiv> unat (needClientNum s)"

text \<open>\<open>X\<close> are the descriptors of a client being created.\<close>

definition bench_inv :: "nat \<Rightarrow> fd set \<Rightarrow> bench \<Rightarrow> bool" where
  "bench_inv b X s \<longleftrightarrow> 1 \<le> b \<and> 0 < need s \<and> length (bench_clients s) = need s \<and>
     (\<forall>i < need s. length (cl_sendBuf (client_at s i)) = MAX_SEND_BUF_LEN + 1) \<and>
     (\<forall>i < need s. 0 < cl_fd (client_at s i) \<longrightarrow> client_ok b (need s) i (client_at s i)) \<and>
     interest (bench_log s) = reg s \<and>
     open_fds b (bench_log s) = {0..<int b} \<union> dom (reg s) \<union> X \<and>
     unat (liveClientNum s) = card (dom (reg s)) \<and> counts_ok s"

lemma request_length: "length request_text = 382"
  by (simp add: request_text_def CRLF_def)

section \<open>Slots\<close>

lemma reg_slot: "reg s f = Some m \<Longrightarrow> 0 < f \<and> cl_fd (client_at s (slot_of s f)) = f \<and>
    m = epoll_bits (cl_mask (client_at s (slot_of s f)))"
  by (auto simp: reg_def Let_def split: if_splits)

lemma slot_bound: "0 < need s \<Longrightarrow> slot_of s f < need s"
  by (simp add: slot_of_def)

lemma bench_inv_client:
  "bench_inv b X s \<Longrightarrow> i < need s \<Longrightarrow> 0 < cl_fd (client_at s i) \<Longrightarrow> client_ok b (need s) i (client_at s i)"
  by (simp add: bench_inv_def)

lemma bench_inv_slot:
  assumes "bench_inv b X s" "reg s f \<noteq> None"
  shows "client_ok b (need s) (slot_of s f) (client_at s (slot_of s f))"
    "cl_fd (client_at s (slot_of s f)) = f" "0 < f" "slot_of s f < need s"
proof -
  have n: "0 < need s" using assms(1) by (simp add: bench_inv_def)
  show f: "cl_fd (client_at s (slot_of s f)) = f" "0 < f" using assms(2) reg_slot by blast+
  show "slot_of s f < need s" using slot_bound [OF n] .
  then show "client_ok b (need s) (slot_of s f) (client_at s (slot_of s f))"
    using bench_inv_client [OF assms(1)] f by simp
qed

lemma reg_window: "bench_inv b X s \<Longrightarrow> dom (reg s) \<subseteq> {int b..<int (b + need s)}"
  using bench_inv_slot by (fastforce simp: client_ok_def)

text \<open>Two descriptors of a window of \<open>n\<close> with the same residue are the same.\<close>

lemma residue_unique:
  assumes "x \<le> y" "y < x + n" "y mod n = x mod n"
  shows "x = (y :: nat)"
proof -
  have "n dvd y - x" using assms(1,3) by (simp add: mod_eq_dvd_iff_nat)
  moreover have "y - x < n" using assms(1,2) by simp
  ultimately have "y - x = 0" by (metis dvd_imp_le not_le neq0_conv)
  then show ?thesis using assms(1) by simp
qed

lemma window_residue:
  assumes "int b \<le> f" "f < int (b + n)" "int b \<le> g" "g < int (b + n)" "nat f mod n = nat g mod n"
  shows "f = g"
proof -
  define x y where "x = nat f" and "y = nat g"
  have b: "b \<le> x" "x < b + n" "b \<le> y" "y < b + n" using assms(1-4) by (simp_all add: x_def y_def nat_less_iff le_nat_iff)
  have m: "x mod n = y mod n" using assms(5) by (simp add: x_def y_def)
  have "x = y"
  proof (cases "x \<le> y")
    case True
    from residue_unique [OF this, of n] show ?thesis using b m by simp
  next
    case False
    then have "y \<le> x" by simp
    from residue_unique [OF this, of n] show ?thesis using b m by simp
  qed
  moreover have "int x = f" "int y = g" using assms(1,3) by (simp_all add: x_def y_def)
  ultimately show ?thesis by simp
qed

text \<open>The lowest free descriptor falls into a free slot, as long as a client is missing.\<close>

lemma lowest_in_window:
  assumes inv: "bench_inv b {} s" and few: "liveClientNum s < needClientNum s"
    and f: "lowest_free b (bench_log s) f"
  shows "int b \<le> f" "f < int (b + need s)" "reg s f = None" "cl_fd (client_at s (slot_of s f)) \<le> 0"
proof -
  have opened: "open_fds b (bench_log s) = {0..<int b} \<union> dom (reg s)"
    using inv by (simp add: bench_inv_def)
  have free: "f \<notin> {0..<int b} \<union> dom (reg s)" "{0..<f} \<subseteq> {0..<int b} \<union> dom (reg s)" "0 \<le> f"
    using f unfolding lowest_free_def opened by blast+
  show ge: "int b \<le> f" using free(1,3) by (simp add: not_le)
  show none: "reg s f = None" using free(1) by auto
  have win: "dom (reg s) \<subseteq> {int b..<int (b + need s)}" using reg_window [OF inv] .
  show lt: "f < int (b + need s)"
  proof (rule ccontr)
    assume "\<not> f < int (b + need s)"
    then have "{int b..<int (b + need s)} \<subseteq> {0..<f} - {0..<int b}" by auto
    then have "{int b..<int (b + need s)} \<subseteq> dom (reg s)" using free(2) by blast
    then have "dom (reg s) = {int b..<int (b + need s)}" using win by blast
    then have "unat (liveClientNum s) = need s" using inv by (simp add: bench_inv_def)
    then show False using few by (simp add: word_less_nat_alt)
  qed
  show "cl_fd (client_at s (slot_of s f)) \<le> 0"
  proof (rule ccontr)
    let ?c = "client_at s (slot_of s f)"
    assume "\<not> cl_fd ?c \<le> 0"
    moreover have "slot_of s f < need s" using inv by (simp add: bench_inv_def slot_bound)
    ultimately have "client_ok b (need s) (slot_of s f) ?c" using bench_inv_client [OF inv] by simp
    then have "f = cl_fd ?c" using ge lt
      by (intro window_residue [of b f "need s"]) (auto simp: client_ok_def slot_of_def)
    with none ge \<open>\<not> cl_fd ?c \<le> 0\<close> show False by (auto simp: reg_def)
  qed
qed

section \<open>Updating a slot\<close>

lemma slot_of_upd [simp]: "slot_of (upd_client i g s) f = slot_of s f"
  by (simp add: slot_of_def upd_client_def)

lemma slot_of_cong: "needClientNum s' = needClientNum s \<Longrightarrow> slot_of s' f = slot_of s f"
  by (simp add: slot_of_def)

lemma reg_cong:
  "bench_clients s' = bench_clients s \<Longrightarrow> needClientNum s' = needClientNum s \<Longrightarrow> reg s' = reg s"
  by (simp add: reg_def slot_of_def fun_eq_iff)

lemma client_at_upd [simp]:
  "i < length (bench_clients s) \<Longrightarrow> client_at (upd_client i g s) i = g (client_at s i)"
  "j \<noteq> i \<Longrightarrow> client_at (upd_client i g s) j = client_at s j"
  by (simp_all add: upd_client_def)

lemma upd_client_fields [simp]:
  "bench_log (upd_client i g s) = bench_log s" "needClientNum (upd_client i g s) = needClientNum s"
  "liveClientNum (upd_client i g s) = liveClientNum s" "latencies (upd_client i g s) = latencies s"
  "doneRequests (upd_client i g s) = doneRequests s" "needRequestNum (upd_client i g s) = needRequestNum s"
  "loop_stop (upd_client i g s) = loop_stop s" "length (bench_clients (upd_client i g s)) = length (bench_clients s)"
  "randomFlag (upd_client i g s) = randomFlag s" "bench_tv (upd_client i g s) = bench_tv s"
  "keepalive (upd_client i g s) = keepalive s" "bench_protocol (upd_client i g s) = bench_protocol s"
  by (simp_all add: upd_client_def)

lemma reg_upd:
  assumes "i < length (bench_clients s)"
  shows "reg (upd_client i g s) f = (if slot_of s f = i
    then (if 0 < f \<and> cl_fd (g (client_at s i)) = f then Some (epoll_bits (cl_mask (g (client_at s i)))) else None)
    else reg s f)"
  using assms by (simp add: reg_def Let_def)

section \<open>Steps that change no client\<close>

definition calm :: "bench \<Rightarrow> bench \<Rightarrow> bool" where
  "calm s s' \<longleftrightarrow> bench_clients s' = bench_clients s \<and> needClientNum s' = needClientNum s \<and>
     liveClientNum s' = liveClientNum s \<and> latencies s' = latencies s \<and>
     doneRequests s' = doneRequests s \<and> needRequestNum s' = needRequestNum s \<and>
     loop_stop s' = loop_stop s \<and> interest (bench_log s') = interest (bench_log s) \<and>
     (\<forall>b. open_fds b (bench_log s') = open_fds b (bench_log s))"

lemma calm_refl [simp]: "calm s s" by (simp add: calm_def)

lemma calm_trans: "calm s t \<Longrightarrow> calm t u \<Longrightarrow> calm s u" by (simp add: calm_def)

lemma calm_inv: "calm s s' \<Longrightarrow> bench_inv b X s' = bench_inv b X s"
  using reg_cong [of s' s] by (simp add: calm_def bench_inv_def counts_ok_def)

lemma calm_reg: "calm s s' \<Longrightarrow> reg s' = reg s"
  by (rule reg_cong) (simp_all add: calm_def)

lemma calm_slot: "calm s s' \<Longrightarrow> slot_of s' f = slot_of s f"
  by (rule slot_of_cong) (simp add: calm_def)

fun b_neutral :: "bcall \<Rightarrow> bool" where
  "b_neutral (BSocket p) = False"
| "b_neutral (BCtl op f ev) = False"
| "b_neutral (BClose f) = False"
| "b_neutral c = True"

lemma calm_bsys: "b_neutral c \<Longrightarrow> calm s (snd (bsys k c s))"
  by (cases c) (simp_all add: calm_def bsys_def Let_def)

lemma calm_fcntl: "calm s (snd (b_fcntl k f cmd arg s))"
  by (simp add: b_fcntl_def case_prod_beta calm_bsys)

lemma calm_nonblock: "calm s (snd (setNonBlock (b_fcntl k) f s))"
  using calm_trans [OF calm_fcntl calm_fcntl]
  by (auto simp: setNonBlock_def case_prod_beta Let_def calm_fcntl)

lemma calm_nodelay: "calm s (snd (setTcpNoDelay k f s))"
  by (simp add: setTcpNoDelay_def case_prod_beta calm_bsys)

lemma calm_touch: "calm s (touchTime k s)"
  by (simp add: calm_def touchTime_def)

lemma calm_time: "calm s (snd (usTime k s))" "calm s (snd (msTime k s))"
  by (simp_all add: usTime_def msTime_def cached_def Let_def calm_touch)

text \<open>What every step keeps.\<close>

definition same_size :: "bench \<Rightarrow> bench \<Rightarrow> bool" where
  "same_size s s' \<longleftrightarrow> needClientNum s' = needClientNum s \<and> needRequestNum s' = needRequestNum s"

lemma calm_size: "calm s s' \<Longrightarrow> same_size s s'" by (simp add: calm_def same_size_def)

section \<open>Creating a client\<close>

lemma encode_into_keeps [simp]:
  "cl_fd (encode_into c) = cl_fd c" "cl_mask (encode_into c) = cl_mask c"
  "cl_recvBufLen (encode_into c) = cl_recvBufLen c" "cl_wFunc (encode_into c) = cl_wFunc c"
  "cl_rFunc (encode_into c) = cl_rFunc c" "cl_sendedLen (encode_into c) = cl_sendedLen c"
  by (simp_all add: encode_into_def case_prod_beta)

lemma encode_into_eq:
  assumes "length (cl_sendBuf c) = MAX_SEND_BUF_LEN + 1"
  shows "encode_into c = c\<lparr>cl_sendBuf := request_text @ drop (length request_text) (cl_sendBuf c),
     cl_sendBufLen := word_of_nat (length request_text)\<rparr>"
  using request_length
  by (simp add: encode_into_def encodeRequest_def overwrite_def MAX_SEND_BUF_LEN_def)

lemma encoded_ready:
  assumes "length (cl_sendBuf c) = MAX_SEND_BUF_LEN + 1"
  shows "request_ready (encode_into c)" "length (cl_sendBuf (encode_into c)) = MAX_SEND_BUF_LEN + 1"
    "0 < cl_sendBufLen (encode_into c)"
  using assms request_length by (simp_all add: encode_into_eq request_ready_def MAX_SEND_BUF_LEN_def)

lemma epoll_bits_simps [simp]:
  "epoll_bits B_WRITEABLE = EPOLLOUT" "epoll_bits B_READABLE = EPOLLIN"
  by (simp_all add: epoll_bits_def B_READABLE_def B_WRITEABLE_def)

lemma mask_simps [simp]:
  "ENONE OR m = m" "B_WRITEABLE \<noteq> 0" "B_READABLE \<noteq> 0" "B_READABLE AND B_WRITEABLE = 0"
  "B_READABLE AND NOT B_READABLE = ENONE" "B_WRITEABLE AND NOT B_READABLE = B_WRITEABLE"
  "B_WRITEABLE AND NOT B_WRITEABLE = ENONE" "B_WRITEABLE OR B_WRITEABLE = B_WRITEABLE"
  "B_READABLE \<noteq> ENONE" "B_WRITEABLE \<noteq> ENONE" "B_READABLE \<noteq> B_WRITEABLE" "B_WRITEABLE \<noteq> B_READABLE"
  by (simp_all add: ENONE_def B_READABLE_def B_WRITEABLE_def)

definition fresh_client :: "fd \<Rightarrow> client \<Rightarrow> client" where
  "fresh_client f c = (encode_into (c\<lparr>cl_fd := f, cl_mask := ENONE\<rparr>))\<lparr>cl_sendedLen := 0,
     cl_recvBufLen := 0, cl_mask := B_WRITEABLE, cl_wFunc := Some SendToServer\<rparr>"

lemma upd_client_twice [simp]:
  "i < length (bench_clients s) \<Longrightarrow> upd_client i g (upd_client i h s) = upd_client i (\<lambda>c. g (h c)) s"
  by (simp add: upd_client_def)

lemma install_eq:
  assumes "kern_ok b k" "slot_of s f < length (bench_clients s)" "needClientNum s \<noteq> 0"
    "interest (bench_log s) f = None"
  shows "\<exists>r s'. 0 \<le> r \<and> s' = upd_client (slot_of s f) (fresh_client f) s \<and>
    install_client k f s = Inr (0, s'\<lparr>bench_log := bench_log s @ [(BCtl CtlAdd f EPOLLOUT, r)],
      liveClientNum := liveClientNum s + 1, createClientNum := createClientNum s + 1\<rparr>)"
proof -
  let ?r = "k_ret k (bench_log s) (BCtl CtlAdd f EPOLLOUT)"
  have "0 \<le> ?r" using assms(1,4) by (simp add: kern_ok_def)
  then show ?thesis using assms(2,3)
    by (intro exI [of _ ?r]) (simp add: install_client_def Let_def addEvent_def fresh_client_def
      encode_into_def case_prod_beta bsys_def upd_client_def)
qed

lemma fresh_client_fields [simp]:
  "cl_fd (fresh_client f c) = f" "cl_mask (fresh_client f c) = B_WRITEABLE"
  "cl_wFunc (fresh_client f c) = Some SendToServer" "cl_recvBufLen (fresh_client f c) = 0"
  by (simp_all add: fresh_client_def encode_into_def case_prod_beta)

lemma fresh_client_ok:
  assumes "length (cl_sendBuf c) = MAX_SEND_BUF_LEN + 1" "int b \<le> f" "f < int (b + n)" "nat f mod n = i"
  shows "client_ok b n i (fresh_client f c)" "length (cl_sendBuf (fresh_client f c)) = MAX_SEND_BUF_LEN + 1"
  using assms encoded_ready [of "c\<lparr>cl_fd := f, cl_mask := ENONE\<rparr>"]
  by (simp_all add: client_ok_def writing_def request_ready_def fresh_client_def)

lemma unat_add_one: "x < (y :: u32) \<Longrightarrow> unat (x + 1) = Suc (unat x)"
proof -
  assume "x < y"
  moreover have "unat y < 2 ^ LENGTH(32)" by (rule unsigned_less)
  ultimately have "Suc (unat x) < 2 ^ 32" by (simp add: word_less_nat_alt)
  then show ?thesis by (simp add: unat_word_ariths)
qed

lemma reg_finite: "bench_inv b X s \<Longrightarrow> finite (dom (reg s))"
  by (rule finite_subset [OF reg_window]) simp_all

text \<open>A client put into a free slot, its descriptor open already.\<close>

lemma add_client:
  assumes inv: "bench_inv b {f} s" and f: "int b \<le> f" "f < int (b + need s)" "reg s f = None"
      "cl_fd (client_at s (slot_of s f)) \<le> 0" and few: "liveClientNum s < needClientNum s" and r: "0 \<le> r"
  defines "s' \<equiv> (upd_client (slot_of s f) (fresh_client f) s)\<lparr>bench_log := bench_log s @ [(BCtl CtlAdd f EPOLLOUT, r)],
      liveClientNum := liveClientNum s + 1, createClientNum := createClientNum s + 1\<rparr>"
  shows "bench_inv b {} s'" "reg s' = (reg s)(f \<mapsto> EPOLLOUT)"
proof -
  let ?i = "slot_of s f"
  have b: "1 \<le> b" "0 < need s" and len: "length (bench_clients s) = need s"
    and sb: "\<forall>i < need s. length (cl_sendBuf (client_at s i)) = MAX_SEND_BUF_LEN + 1"
    and cs: "\<forall>i < need s. 0 < cl_fd (client_at s i) \<longrightarrow> client_ok b (need s) i (client_at s i)"
    and cnt: "unat (liveClientNum s) = card (dom (reg s))"
    using inv by (simp_all add: bench_inv_def)
  have i: "?i < need s" using slot_bound [OF b(2)] .
  have reg': "reg s' = reg (upd_client ?i (fresh_client f) s)" by (rule reg_cong) (simp_all add: s'_def)
  show new: "reg s' = (reg s)(f \<mapsto> EPOLLOUT)"
  proof
    fix g
    have "reg s g = None" if "slot_of s g = ?i" using f(4) that by (auto simp: reg_def Let_def)
    then show "reg s' g = ((reg s)(f \<mapsto> EPOLLOUT)) g"
      using f(1) b(1) i by (auto simp: reg' reg_upd len)
  qed
  have "unat (liveClientNum s + 1) = Suc (unat (liveClientNum s))" using few by (rule unat_add_one)
  moreover have "card (dom ((reg s)(f \<mapsto> EPOLLOUT))) = Suc (card (dom (reg s)))"
    using f(3) reg_finite [OF inv] by (simp add: domIff)
  ultimately have cnt': "unat (liveClientNum s') = card (dom (reg s'))"
    using cnt new by (simp add: s'_def)
  have ok: "client_ok b (need s) ?i (fresh_client f (client_at s ?i))"
      "length (cl_sendBuf (fresh_client f (client_at s ?i))) = MAX_SEND_BUF_LEN + 1"
    using fresh_client_ok [OF _ f(1,2) slot_of_def [symmetric]] sb i by blast+
  have fields: "need s' = need s" "length (bench_clients s') = need s" "counts_ok s' = counts_ok s"
    using len by (simp_all add: s'_def counts_ok_def)
  have at: "client_at s' j = (if j = ?i then fresh_client f (client_at s ?i) else client_at s j)" for j
    using i len by (auto simp: s'_def)
  have h: "interest (bench_log s) = reg s" "open_fds b (bench_log s) = {0..<int b} \<union> dom (reg s) \<union> {f}"
    using inv by (simp_all add: bench_inv_def)
  have log': "bench_log s' = bench_log s @ [(BCtl CtlAdd f EPOLLOUT, r)]" by (simp add: s'_def)
  have hist: "interest (bench_log s') = reg s'" "open_fds b (bench_log s') = {0..<int b} \<union> dom (reg s')"
    using h r by (simp_all add: log' new)
  show "bench_inv b {} s'"
    unfolding bench_inv_def fields hist using b sb cs ok cnt' inv by (simp add: at bench_inv_def)
qed

text \<open>What a step on the clients keeps: sizes, counts, and the other descriptors' registrations.\<close>

definition keeps :: "fd set \<Rightarrow> bench \<Rightarrow> bench \<Rightarrow> bool" where
  "keeps F s s' \<longleftrightarrow> same_size s s' \<and> doneRequests s' = doneRequests s \<and> latencies s' = latencies s \<and>
     loop_stop s' = loop_stop s \<and> (\<forall>f. f \<notin> F \<and> reg s f \<noteq> None \<longrightarrow> reg s' f = reg s f)"

lemma keeps_trans: "keeps F s t \<Longrightarrow> keeps F t u \<Longrightarrow> keeps F s u"
  by (simp add: keeps_def same_size_def)

lemma keeps_mono: "keeps F s t \<Longrightarrow> F \<subseteq> G \<Longrightarrow> keeps G s t"
  by (auto simp: keeps_def)

lemma calm_keeps: "calm s s' \<Longrightarrow> keeps F s s'"
  using calm_reg [of s s'] by (simp add: keeps_def calm_def same_size_def)

lemma create_fail_inv:
  assumes "bench_inv b {f} s" "reg s f = None" "int b \<le> f"
  shows "fst (create_fail k f s) = -1" "bench_inv b {} (snd (create_fail k f s))"
    "keeps F s (snd (create_fail k f s))" "liveClientNum (snd (create_fail k f s)) = liveClientNum s"
proof -
  let ?s = "snd (create_fail k f s)"
  have reg: "reg ?s = reg s" by (rule reg_cong) (simp_all add: create_fail_def bsys_def Let_def)
  have "interest (bench_log ?s) = (reg s)(f := None)"
      "open_fds b (bench_log ?s) = ({0..<int b} \<union> dom (reg s) \<union> {f}) - {f}"
    using assms(1) by (simp_all add: create_fail_def bsys_def Let_def bench_inv_def)
  moreover have "(reg s)(f := None) = reg s" "({0..<int b} \<union> dom (reg s) \<union> {f}) - {f} = {0..<int b} \<union> dom (reg s)"
    using assms(2,3) by (auto simp: fun_eq_iff)
  ultimately have "interest (bench_log ?s) = reg s" "open_fds b (bench_log ?s) = {0..<int b} \<union> dom (reg s)"
    by simp_all
  with assms(1) show "bench_inv b {} ?s"
    unfolding bench_inv_def reg by (simp add: create_fail_def bsys_def Let_def counts_ok_def)
  show "keeps F s ?s" unfolding keeps_def reg by (simp add: create_fail_def bsys_def Let_def same_size_def)
qed (simp_all add: create_fail_def bsys_def Let_def)

text \<open>The descriptor has been handed out; from here on creating a client fails cleanly or succeeds.\<close>

definition created :: "nat \<Rightarrow> bench \<Rightarrow> int \<times> bench \<Rightarrow> bool" where
  "created b s x \<longleftrightarrow> bench_inv b {} (snd x) \<and> keeps {} s (snd x) \<and>
     (fst x = 0 \<and> liveClientNum (snd x) = liveClientNum s + 1 \<or>
      fst x = -1 \<and> liveClientNum (snd x) = liveClientNum s)"

lemma created_fail:
  assumes "bench_inv b {f} t" "reg t f = None" "int b \<le> f" "keeps {} s t" "liveClientNum t = liveClientNum s"
  shows "created b s (create_fail k f t)"
  using create_fail_inv [OF assms(1-3)] assms(4,5) by (simp add: created_def keeps_trans [OF assms(4)])

lemma created_install:
  assumes "kern_ok b k" "bench_inv b {f} t" "int b \<le> f" "f < int (b + need t)" "reg t f = None"
    "cl_fd (client_at t (slot_of t f)) \<le> 0" "liveClientNum t < needClientNum t"
    and s: "keeps {} s t" "liveClientNum t = liveClientNum s"
  shows "\<exists>x. install_client k f t = Inr x \<and> created b s x"
proof -
  have "slot_of t f < length (bench_clients t)" "needClientNum t \<noteq> 0" "interest (bench_log t) f = None"
    using assms(2,5) slot_bound [of t f] by (auto simp: bench_inv_def)
  from install_eq [OF assms(1) this] obtain r where r: "0 \<le> r" and
    eq: "install_client k f t = Inr (0, (upd_client (slot_of t f) (fresh_client f) t)\<lparr>
      bench_log := bench_log t @ [(BCtl CtlAdd f EPOLLOUT, r)], liveClientNum := liveClientNum t + 1,
      createClientNum := createClientNum t + 1\<rparr>)" (is "_ = Inr (0, ?t)") by blast
  note add = add_client [OF assms(2-7) r]
  have "keeps {} t ?t" unfolding keeps_def add(2) using assms(5) by (auto simp: same_size_def)
  then show ?thesis using eq add(1) s by (auto simp: created_def intro: keeps_trans)
qed

lemma createClient_ok:
  assumes k: "kern_ok b k" and inv: "bench_inv b {} s" and few: "liveClientNum s < needClientNum s"
  shows "\<exists>x. createClient k s = Inr x \<and> created b s x"
proof -
  let ?c = "BSocket (bench_protocol s)"
  define f s1 where "f = k_ret k (bench_log s) ?c" and "s1 = s\<lparr>bench_log := bench_log s @ [(?c, f)]\<rparr>"
  have sock: "bsys k ?c s = (f, s1)" by (simp add: bsys_def f_def s1_def Let_def)
  have s1: "reg s1 = reg s" "liveClientNum s1 = liveClientNum s" "needClientNum s1 = needClientNum s"
      "bench_clients s1 = bench_clients s" "\<And>g. slot_of s1 g = slot_of s g" "same_size s s1"
      "doneRequests s1 = doneRequests s" "latencies s1 = latencies s" "loop_stop s1 = loop_stop s"
    by (simp_all add: s1_def reg_def slot_of_def fun_eq_iff same_size_def)
  then have keep1: "keeps {} s s1" by (simp add: keeps_def)
  show ?thesis
  proof (cases "f = -1")
    case True
    have "bench_inv b {} s1" using inv True by (simp add: bench_inv_def s1(1) counts_ok_def) (simp add: s1_def)
    then show ?thesis using sock True keep1 s1(2) by (simp add: createClient_def created_def)
  next
    case False
    then have low: "lowest_free b (bench_log s) f"
      using k by (auto simp: kern_ok_def f_def)
    note win = lowest_in_window [OF inv few low]
    have b: "1 \<le> b" using inv by (simp add: bench_inv_def)
    have inv1: "bench_inv b {f} s1"
      using inv win(1) b by (simp add: bench_inv_def s1(1) counts_ok_def) (auto simp: s1_def)
    have good: "bench_inv b {f} t \<and> reg t f = None \<and> keeps {} s t \<and> liveClientNum t = liveClientNum s \<and>
        needClientNum t = needClientNum s \<and> cl_fd (client_at t (slot_of t f)) \<le> 0" if "calm s1 t" for t
      using that inv1 keep1 calm_keeps [OF that, of "{}"] calm_reg [OF that] calm_slot [OF that] win(3,4) s1
      by (auto simp: calm_inv intro: keeps_trans) (simp add: calm_def)+
    have fail: "\<exists>x. Inr (create_fail k f t) = Inr x \<and> created b s x" if "calm s1 t" for t
      using good [OF that] win(1) created_fail by blast
    have install: "\<exists>x. install_client k f t = Inr x \<and> created b s x" if "calm s1 t" for t
      using good [OF that] win(1,2) few by (intro created_install [OF k]) auto
    obtain nb s2 where s2: "setNonBlock (b_fcntl k) f s1 = (nb, s2)" by fastforce
    have c2: "calm s1 s2" using calm_nonblock [of s1 k f] s2 by simp
    obtain r s3 where s3: "bsys k (BConnect f (bench_host s2) (bench_port s2)) s2 = (r, s3)" by fastforce
    have c3: "calm s1 s3" using calm_trans [OF c2 calm_bsys [of "BConnect f (bench_host s2) (bench_port s2)" s2 k]] s3 by simp
    obtain nd s4 where s4: "(if bench_protocol s3 = PROTOCOL_TCP then setTcpNoDelay k f s3 else (0, s3)) = (nd, s4)"
      by fastforce
    have c4: "calm s1 s4"
      using calm_trans [OF c3 calm_nodelay [of s3 k f]] c3 s4 by (auto split: if_splits)
    have "createClient k s = (if nb < 0 then Inr (create_fail k f s2)
        else if r = -1 \<and> errno_after k s3 \<noteq> EINPROGRESS then Inr (create_fail k f s3)
        else if nd < 0 then Inr (create_fail k f s4) else install_client k f s4)"
      using False by (simp add: createClient_def sock s2 s3 s4)
    then show ?thesis using fail [OF c2] fail [OF c3] fail [OF c4] install [OF c4] by metis
  qed
qed

section \<open>Closing and replacing a client\<close>

lemma close_eq:
  assumes "i < length (bench_clients s)" "f = cl_fd (client_at s i)"
  shows "\<exists>r1 r2. closeConnection k i s = (upd_client i (\<lambda>c. c\<lparr>cl_fd := -1\<rparr>) s)\<lparr>
    bench_log := bench_log s @ [(BCtl CtlDel f 0, r1), (BClose f, r2)], liveClientNum := liveClientNum s - 1\<rparr>"
proof -
  let ?r1 = "k_ret k (bench_log s) (BCtl CtlDel f 0)"
  show ?thesis
    by (intro exI [of _ ?r1] exI [of _ "k_ret k (bench_log s @ [(BCtl CtlDel f 0, ?r1)]) (BClose f)"])
      (simp add: closeConnection_def bsys_def Let_def upd_client_def assms(2))
qed

lemma unat_sub_one: "x \<noteq> 0 \<Longrightarrow> unat (x - 1 :: u32) = unat x - 1"
  by (simp add: unat_gt_0 unat_minus_one)

lemma close_client:
  assumes inv: "bench_inv b {} s" and f: "reg s f \<noteq> None" and i: "i = slot_of s f"
  shows "bench_inv b {} (closeConnection k i s)" "keeps {f} s (closeConnection k i s)"
    "liveClientNum (closeConnection k i s) < needClientNum (closeConnection k i s)"
proof -
  let ?s = "closeConnection k i s"
  note slot = bench_inv_slot [OF inv f]
  have b: "1 \<le> b" "0 < need s" and len: "length (bench_clients s) = need s" using inv by (simp_all add: bench_inv_def)
  have ib: "i < length (bench_clients s)" using slot(4) i len by simp
  have fd: "cl_fd (client_at s i) = f" using slot(2) i by simp
  obtain r1 r2 where eq: "?s = (upd_client i (\<lambda>c. c\<lparr>cl_fd := -1\<rparr>) s)\<lparr>
      bench_log := bench_log s @ [(BCtl CtlDel f 0, r1), (BClose f, r2)], liveClientNum := liveClientNum s - 1\<rparr>"
    using close_eq [OF ib fd [symmetric], of k] by blast
  have "reg ?s = reg (upd_client i (\<lambda>c. c\<lparr>cl_fd := -1\<rparr>) s)" by (rule reg_cong) (simp_all add: eq)
  moreover have "reg s g = None" if "slot_of s g = i" "g \<noteq> f" for g
    using that fd by (auto simp: reg_def Let_def)
  ultimately have reg': "reg ?s = (reg s)(f := None)"
    using ib i by (auto simp: reg_upd fun_eq_iff)
  have cnt: "unat (liveClientNum s) = card (dom (reg s))" using inv by (simp add: bench_inv_def)
  have card: "card (dom (reg ?s)) = card (dom (reg s)) - 1" "0 < card (dom (reg s))"
    using f reg_finite [OF inv] by (auto simp: reg' card_gt_0_iff domIff)
  have live: "unat (liveClientNum ?s) = card (dom (reg ?s))"
  proof -
    have "liveClientNum s \<noteq> 0" using card(2) cnt by auto
    from unat_sub_one [OF this] show ?thesis using card(1) cnt by (simp add: eq)
  qed
  have "card (dom (reg s)) \<le> card {int b..<int (b + need s)}"
    using reg_window [OF inv] by (intro card_mono) simp_all
  then show "liveClientNum ?s < needClientNum ?s"
    using live card by (simp add: word_less_nat_alt) (simp add: eq)
  have at: "client_at ?s j = (if j = i then (client_at s i)\<lparr>cl_fd := -1\<rparr> else client_at s j)" for j
    using ib by (auto simp: eq)
  have "interest (bench_log s) = reg s" "open_fds b (bench_log s) = {0..<int b} \<union> dom (reg s)"
    using inv by (simp_all add: bench_inv_def)
  moreover have "bench_log ?s = bench_log s @ [(BCtl CtlDel f 0, r1), (BClose f, r2)]" by (simp add: eq)
  moreover have "f \<notin> {0..<int b}" using slot(1,2) by (auto simp: client_ok_def)
  ultimately have hist: "interest (bench_log ?s) = reg ?s"
      "open_fds b (bench_log ?s) = {0..<int b} \<union> dom (reg ?s)"
    by (auto simp: reg' fun_eq_iff)
  have fields: "need ?s = need s" "length (bench_clients ?s) = need s" "counts_ok ?s = counts_ok s"
    using len by (simp_all add: eq counts_ok_def)
  show "bench_inv b {} ?s"
    unfolding bench_inv_def fields hist using inv live by (simp add: at bench_inv_def)
  show "keeps {f} s ?s" unfolding keeps_def reg' by (simp add: eq same_size_def)
qed

lemma reconnect_ok:
  assumes "kern_ok b k" "bench_inv b {} s" "reg s f \<noteq> None" "i = slot_of s f"
  shows "\<exists>s'. reconnect k i s = Inr s' \<and> bench_inv b {} s' \<and> keeps {f} s s'"
proof -
  note close = close_client [OF assms(2-4), of k]
  from createClient_ok [OF assms(1) close(1,3)] obtain r s' where
    "createClient k (closeConnection k i s) = Inr (r, s')" "created b (closeConnection k i s) (r, s')" by auto
  then show ?thesis using close(2)
    by (auto simp: reconnect_def created_def intro: keeps_trans keeps_mono)
qed

text \<open>The loop that creates the missing clients ends.\<close>

lemma createNeedClients_ok:
  assumes "kern_ok b k" "bench_inv b {} s"
  shows "createNeedClients k s = Some (Inl (Exited 1)) \<or>
    (\<exists>s'. createNeedClients k s = Some (Inr s') \<and> bench_inv b {} s' \<and> keeps {} s s' \<and>
       \<not> liveClientNum s' < needClientNum s')"
  using assms(2)
proof (induction "need s - unat (liveClientNum s)" arbitrary: s rule: less_induct)
  case less
  show ?case
  proof (cases "liveClientNum s < needClientNum s")
    case True
    obtain r s1 where c: "createClient k s = Inr (r, s1)" and cr: "created b s (r, s1)"
      using createClient_ok [OF assms(1) less.prems True] by auto
    show ?thesis
    proof (cases "r < 0")
      case True
      then show ?thesis using c \<open>liveClientNum s < needClientNum s\<close> by (subst (1 2) createNeedClients.simps) simp
    next
      case False
      then have s1: "liveClientNum s1 = liveClientNum s + 1" "bench_inv b {} s1" "keeps {} s s1"
        using cr by (auto simp: created_def)
      have "need s1 = need s" using s1(3) by (simp add: keeps_def same_size_def)
      then have "need s1 - unat (liveClientNum s1) < need s - unat (liveClientNum s)"
        using True s1(1) unat_add_one [OF True] by (simp add: word_less_nat_alt)
      from less.hyps [OF this s1(2)] show ?thesis
        using c True False s1(3) by (subst (1 2) createNeedClients.simps) (auto intro: keeps_trans)
    qed
  next
    case False
    then show ?thesis using less.prems
      by (subst (1 2) createNeedClients.simps) (simp add: keeps_def same_size_def)
  qed
qed

section \<open>Changing a client in place\<close>

lemma modify_client:
  assumes inv: "bench_inv b {} s" and f: "reg s f \<noteq> None" and i: "i = slot_of s f"
    and s': "bench_clients s' = (bench_clients s)[i := c']" "same_size s s'"
      "liveClientNum s' = liveClientNum s" "counts_ok s'"
    and c': "cl_fd c' = f" "client_ok b (need s) i c'" "length (cl_sendBuf c') = MAX_SEND_BUF_LEN + 1"
    and hist: "interest (bench_log s') = (interest (bench_log s))(f \<mapsto> epoll_bits (cl_mask c'))"
      "open_fds b (bench_log s') = open_fds b (bench_log s)"
  shows "bench_inv b {} s'" "reg s' = (reg s)(f \<mapsto> epoll_bits (cl_mask c'))"
proof -
  note slot = bench_inv_slot [OF inv f]
  have len: "length (bench_clients s) = need s" using inv by (simp add: bench_inv_def)
  have ib: "i < length (bench_clients s)" using slot(4) i len by simp
  have "reg s' = reg (upd_client i (\<lambda>_. c') s)"
    using s'(1,2) by (intro reg_cong) (simp_all add: upd_client_def same_size_def)
  moreover have "reg s g = None" if "slot_of s g = i" "g \<noteq> f" for g
    using that slot(2) i by (auto simp: reg_def Let_def)
  ultimately show reg': "reg s' = (reg s)(f \<mapsto> epoll_bits (cl_mask c'))"
    using ib i c'(1) slot(3) by (auto simp: reg_upd fun_eq_iff)
  have at: "client_at s' j = (if j = i then c' else client_at s j)" for j
    using ib by (auto simp: s'(1))
  have dom': "dom (reg s') = dom (reg s)" using f by (auto simp: reg')
  have fields: "need s' = need s" "length (bench_clients s') = need s" "liveClientNum s' = liveClientNum s"
    using s'(1-3) len by (simp_all add: same_size_def)
  have "interest (bench_log s') = reg s'" using hist(1) inv by (simp add: reg' bench_inv_def)
  then show "bench_inv b {} s'"
    unfolding bench_inv_def fields dom' hist(2) using inv s'(4) c' by (simp add: at bench_inv_def)
qed

text \<open>A step of one client: the invariant, and nothing else touched.\<close>

definition client_step :: "nat \<Rightarrow> fd \<Rightarrow> bench \<Rightarrow> bench \<Rightarrow> bool" where
  "client_step b f s s' \<longleftrightarrow> bench_inv b {} s' \<and> same_size s s' \<and>
     (\<forall>g. g \<noteq> f \<and> reg s g \<noteq> None \<longrightarrow> reg s' g = reg s g)"

lemma keeps_step: "keeps F s s' \<Longrightarrow> F \<subseteq> {f} \<Longrightarrow> bench_inv b {} s' \<Longrightarrow> client_step b f s s'"
  by (auto simp: keeps_def client_step_def)

lemma client_step_trans: "client_step b f s t \<Longrightarrow> client_step b f t u \<Longrightarrow> client_step b f s u"
  by (auto simp: client_step_def same_size_def)

lemma calm_step: "calm s s' \<Longrightarrow> bench_inv b {} s \<Longrightarrow> client_step b f s s'"
  by (rule keeps_step [OF calm_keeps [where F = "{}"]]) (simp_all add: calm_inv)

lemma modify_step:
  assumes "bench_inv b {} s" "reg s f \<noteq> None" "i = slot_of s f"
    "bench_clients s' = (bench_clients s)[i := c']" "same_size s s'"
      "liveClientNum s' = liveClientNum s" "counts_ok s'"
    "cl_fd c' = f" "client_ok b (need s) i c'" "length (cl_sendBuf c') = MAX_SEND_BUF_LEN + 1"
    "interest (bench_log s') = (interest (bench_log s))(f \<mapsto> epoll_bits (cl_mask c'))"
      "open_fds b (bench_log s') = open_fds b (bench_log s)"
  shows "client_step b f s s'"
  using modify_client [OF assms] assms(5) by (simp add: client_step_def)

text \<open>The state a client's slot holds when its descriptor is registered.\<close>

lemma slot_facts:
  assumes "bench_inv b X s" "reg s f \<noteq> None" "i = slot_of s f"
  shows "i < length (bench_clients s)" "cl_fd (client_at s i) = f" "client_ok b (need s) i (client_at s i)"
    "length (cl_sendBuf (client_at s i)) = MAX_SEND_BUF_LEN + 1"
    "interest (bench_log s) f = Some (epoll_bits (cl_mask (client_at s i)))"
    "interest (bench_log s) = (interest (bench_log s))(f \<mapsto> epoll_bits (cl_mask (client_at s i)))"
    "counts_ok s"
proof -
  note slot = bench_inv_slot [OF assms(1,2)]
  show "i < length (bench_clients s)" "cl_fd (client_at s i) = f" "client_ok b (need s) i (client_at s i)"
    "length (cl_sendBuf (client_at s i)) = MAX_SEND_BUF_LEN + 1" "counts_ok s"
    using slot assms(1,3) by (simp_all add: bench_inv_def)
  have "reg s f = Some (epoll_bits (cl_mask (client_at s i)))" using assms(2,3) reg_slot by fastforce
  then show int: "interest (bench_log s) f = Some (epoll_bits (cl_mask (client_at s i)))"
    using assms(1) by (simp add: bench_inv_def)
  then show "interest (bench_log s) = (interest (bench_log s))(f \<mapsto> epoll_bits (cl_mask (client_at s i)))"
    by (simp add: fun_eq_iff)
qed

text \<open>Changes that keep the descriptor and the mask.\<close>

lemma touch_step:
  assumes "bench_inv b {} s" "reg s f \<noteq> None" "i = slot_of s f" "cl_fd (g (client_at s i)) = f"
    "cl_mask (g (client_at s i)) = cl_mask (client_at s i)"
    "client_ok b (need s) i (g (client_at s i))" "cl_sendBuf (g (client_at s i)) = cl_sendBuf (client_at s i)"
  shows "client_step b f s (upd_client i g s)"
proof -
  note sf = slot_facts [OF assms(1-3)]
  show ?thesis
    by (rule modify_step [OF assms(1-3), where c' = "g (client_at s i)"])
      (use assms(4-7) sf in \<open>simp_all add: upd_client_def same_size_def counts_ok_def flip: sf(6)\<close>)
qed

lemma client_ok_cong:
  "client_ok b n i c \<Longrightarrow> cl_fd c' = cl_fd c \<Longrightarrow> cl_wFunc c' = cl_wFunc c \<Longrightarrow> cl_rFunc c' = cl_rFunc c \<Longrightarrow>
   cl_sendBuf c' = cl_sendBuf c \<Longrightarrow> cl_sendBufLen c' = cl_sendBufLen c \<Longrightarrow> cl_sendedLen c' = cl_sendedLen c \<Longrightarrow>
   cl_mask c' = cl_mask c \<Longrightarrow> cl_recvBufLen c' = cl_recvBufLen c \<Longrightarrow> client_ok b n i c'"
  by (auto simp: client_ok_def request_ready_def writing_def reading_def)

section \<open>Time stamps\<close>

definition stamp :: "u64 \<Rightarrow> u64 \<Rightarrow> u64 \<Rightarrow> client \<Rightarrow> client" where
  "stamp l st t c = c\<lparr>cl_latency := l, cl_startTime := st, cl_touchTime := t\<rparr>"

definition stamped :: "nat \<Rightarrow> bench \<Rightarrow> bench \<Rightarrow> bool" where
  "stamped i s s' \<longleftrightarrow> (\<exists>l st t. calm (upd_client i (stamp l st t) s) s')"

lemma calm_upd: "calm s s' \<Longrightarrow> calm (upd_client i g s) (upd_client i g s')"
  by (simp add: calm_def upd_client_def)

lemma upd_client_eq: "g (client_at s i) = h (client_at s i) \<Longrightarrow> upd_client i g s = upd_client i h s"
  by (simp add: upd_client_def)

lemma stampedI: "calm (upd_client i g s) s' \<Longrightarrow> g (client_at s i) = stamp l st t (client_at s i) \<Longrightarrow> stamped i s s'"
  using upd_client_eq [of g s i "stamp l st t"] by (auto simp: stamped_def)

lemma send_touch_stamped:
  assumes "i < length (bench_clients s)"
  shows "stamped i s (send_touch k i s)"
proof (cases "cl_sendedLen (client_at s i) = 0")
  case True
  obtain t s1 where t: "usTime k s = (t, s1)" by fastforce
  let ?s2 = "upd_client i (\<lambda>c. c\<lparr>cl_startTime := t, cl_latency := -1\<rparr>) s1"
  obtain t' s3 where t': "usTime k ?s2 = (t', s3)" by fastforce
  have "calm s s1" "calm ?s2 s3" using calm_time(1) [of s k] calm_time(1) [of ?s2 k] t t' by simp_all
  then have "calm (upd_client i (\<lambda>c. c\<lparr>cl_touchTime := t'\<rparr>) (upd_client i (\<lambda>c. c\<lparr>cl_startTime := t, cl_latency := -1\<rparr>) s))
      (send_touch k i s)"
    using True t t' by (auto simp: send_touch_def intro: calm_trans calm_upd)
  from stampedI [OF this [unfolded upd_client_twice [OF assms]], of "-1" t t']
  show ?thesis by (simp add: stamp_def)
next
  case False
  obtain t s1 where t: "usTime k s = (t, s1)" by fastforce
  have "calm s s1" using calm_time(1) [of s k] t by simp
  then have "calm (upd_client i (\<lambda>c. c\<lparr>cl_touchTime := t\<rparr>) s) (send_touch k i s)"
    using False t by (simp add: send_touch_def calm_upd)
  then show ?thesis
    by (rule stampedI [where l = "cl_latency (client_at s i)" and st = "cl_startTime (client_at s i)" and t = t])
      (simp add: stamp_def)
qed

lemma recv_touch_stamped:
  assumes "i < length (bench_clients s)"
  shows "stamped i s (recv_touch k i s)"
proof -
  obtain t s1 where t: "usTime k s = (t, s1)" by fastforce
  let ?g = "\<lambda>c. c\<lparr>cl_touchTime := t\<rparr>"
  have c1: "calm (upd_client i ?g s) (upd_client i ?g s1)"
    using calm_time(1) [of s k] t by (simp add: calm_upd)
  obtain t' s3 where t': "usTime k (upd_client i ?g s1) = (t', s3)" by fastforce
  let ?h = "\<lambda>c. c\<lparr>cl_latency := t' - cl_startTime c\<rparr>"
  have c2: "calm (upd_client i ?h (upd_client i ?g s)) (upd_client i ?h s3)"
    using calm_time(1) [of "upd_client i ?g s1" k] t' by (auto intro: calm_upd calm_trans [OF c1])
  show ?thesis
  proof (cases "sint (cl_latency (client_at (upd_client i ?g s1) i)) < 0")
    case True
    then have "recv_touch k i s = upd_client i ?h s3" by (simp add: recv_touch_def t t' Let_def)
    with stampedI [OF c2 [unfolded upd_client_twice [OF assms]],
        of "t' - cl_startTime (client_at s i)" "cl_startTime (client_at s i)" t]
    show ?thesis by (simp add: stamp_def)
  next
    case False
    then have "recv_touch k i s = upd_client i ?g s1" by (simp add: recv_touch_def t Let_def)
    then show ?thesis using c1
      by (intro stampedI [where l = "cl_latency (client_at s i)" and st = "cl_startTime (client_at s i)" and t = t])
        (simp_all add: stamp_def)
  qed
qed

lemma stamp_fields [simp]:
  "cl_fd (stamp l st t c) = cl_fd c" "cl_mask (stamp l st t c) = cl_mask c"
  "cl_sendBuf (stamp l st t c) = cl_sendBuf c" "cl_sendBufLen (stamp l st t c) = cl_sendBufLen c"
  "cl_sendedLen (stamp l st t c) = cl_sendedLen c" "cl_recvBufLen (stamp l st t c) = cl_recvBufLen c"
  "cl_rFunc (stamp l st t c) = cl_rFunc c" "cl_wFunc (stamp l st t c) = cl_wFunc c"
  by (simp_all add: stamp_def)

lemma stamped_step:
  assumes "bench_inv b {} s" "reg s f \<noteq> None" "i = slot_of s f" "stamped i s s'"
  shows "client_step b f s s'" "reg s' = reg s" "slot_of s' f = i"
    "\<exists>l st t. client_at s' i = stamp l st t (client_at s i)"
    "doneRequests s' = doneRequests s" "needRequestNum s' = needRequestNum s"
proof -
  obtain l st t where c: "calm (upd_client i (stamp l st t) s) s'" using assms(4) by (auto simp: stamped_def)
  note sf = slot_facts [OF assms(1-3)]
  have ok: "client_ok b (need s) i (stamp l st t (client_at s i))"
    using sf(3) by (rule client_ok_cong) simp_all
  have step: "client_step b f s (upd_client i (stamp l st t) s)"
    by (rule touch_step [OF assms(1-3), where g = "stamp l st t"]) (use sf(2) ok in simp_all)
  moreover from step have "bench_inv b {} (upd_client i (stamp l st t) s)" by (simp add: client_step_def)
  ultimately show "client_step b f s s'" using calm_step [OF c] by (blast intro: client_step_trans)
  have "reg (upd_client i (stamp l st t) s) = reg s"
  proof
    fix g show "reg (upd_client i (stamp l st t) s) g = reg s g"
      by (simp add: reg_upd [OF sf(1)]) (auto simp: reg_def Let_def)
  qed
  then show "reg s' = reg s" using calm_reg [OF c] by simp
  show "slot_of s' f = i" using calm_slot [OF c] assms(3) by simp
  show "\<exists>l st t. client_at s' i = stamp l st t (client_at s i)"
  proof (intro exI)
    have "client_at s' i = client_at (upd_client i (stamp l st t) s) i" using c by (simp add: calm_def)
    then show "client_at s' i = stamp l st t (client_at s i)" using sf(1) by simp
  qed
  show "doneRequests s' = doneRequests s" "needRequestNum s' = needRequestNum s"
    using c by (simp_all add: calm_def)
qed

section \<open>Switching events\<close>

definition set_func :: "u32 \<Rightarrow> func \<Rightarrow> client \<Rightarrow> client" where
  "set_func m F c = (if m AND B_WRITEABLE \<noteq> 0 then c\<lparr>cl_wFunc := Some F\<rparr> else c\<lparr>cl_rFunc := Some F\<rparr>)"

lemma switch_eq:
  assumes "i < length (bench_clients s)" "c = client_at s i" "m' = cl_mask c AND NOT d"
  shows "\<exists>r1 r2. r1 = k_ret k (bench_log s) (BCtl (if m' = ENONE then CtlDel else CtlMod) (cl_fd c) (epoll_bits m')) \<and>
    r2 = k_ret k (bench_log s @ [(BCtl (if m' = ENONE then CtlDel else CtlMod) (cl_fd c) (epoll_bits m'), r1)])
      (BCtl (if m' = ENONE then CtlAdd else CtlMod) (cl_fd c) (epoll_bits (m' OR m))) \<and>
    snd (addEvent k i m F (snd (delEvent k i d s))) =
      (upd_client i (\<lambda>c. set_func m F (c\<lparr>cl_mask := m' OR m\<rparr>)) s)\<lparr>bench_log := bench_log s @
        [(BCtl (if m' = ENONE then CtlDel else CtlMod) (cl_fd c) (epoll_bits m'), r1),
         (BCtl (if m' = ENONE then CtlAdd else CtlMod) (cl_fd c) (epoll_bits (m' OR m)), r2)]\<rparr>"
  using assms(1)
  by (simp add: addEvent_def delEvent_def bsys_def Let_def upd_client_def set_func_def assms(2,3))

lemma switch_events:
  assumes k: "kern_ok b k" and i: "i < length (bench_clients s)"
    and reg: "interest (bench_log s) f \<noteq> None" and f: "cl_fd (client_at s i) = f"
  shows "\<exists>h. snd (addEvent k i m F (snd (delEvent k i d s))) =
      (upd_client i (\<lambda>c. set_func m F (c\<lparr>cl_mask := (cl_mask c AND NOT d) OR m\<rparr>)) s)\<lparr>bench_log := h\<rparr> \<and>
    interest h = (interest (bench_log s))(f \<mapsto> epoll_bits ((cl_mask (client_at s i) AND NOT d) OR m)) \<and>
    open_fds b h = open_fds b (bench_log s)"
proof -
  let ?m = "cl_mask (client_at s i) AND NOT d"
  have upd: "upd_client i (\<lambda>c. set_func m F (c\<lparr>cl_mask := ?m OR m\<rparr>)) s =
      upd_client i (\<lambda>c. set_func m F (c\<lparr>cl_mask := (cl_mask c AND NOT d) OR m\<rparr>)) s"
    by (rule upd_client_eq) simp
  have ok: "valid_ctl h op g \<Longrightarrow> 0 \<le> k_ret k h (BCtl op g ev)" for h op g ev
    using k by (simp add: kern_ok_def)
  obtain r1 r2 where r1: "r1 = k_ret k (bench_log s) (BCtl (if ?m = ENONE then CtlDel else CtlMod) f (epoll_bits ?m))"
    and r2: "r2 = k_ret k (bench_log s @ [(BCtl (if ?m = ENONE then CtlDel else CtlMod) f (epoll_bits ?m), r1)])
      (BCtl (if ?m = ENONE then CtlAdd else CtlMod) f (epoll_bits (?m OR m)))"
    and eq: "snd (addEvent k i m F (snd (delEvent k i d s))) =
      (upd_client i (\<lambda>c. set_func m F (c\<lparr>cl_mask := ?m OR m\<rparr>)) s)\<lparr>bench_log := bench_log s @
        [(BCtl (if ?m = ENONE then CtlDel else CtlMod) f (epoll_bits ?m), r1),
         (BCtl (if ?m = ENONE then CtlAdd else CtlMod) f (epoll_bits (?m OR m)), r2)]\<rparr>"
    using switch_eq [OF i refl refl, where k = k and d = d and m = m and F = F] f by auto
  have p1: "0 \<le> r1" unfolding r1 by (rule ok) (use reg in auto)
  have p2: "0 \<le> r2" unfolding r2 by (rule ok) (use reg p1 in auto)
  show ?thesis
    unfolding eq upd using p1 p2 by (intro exI conjI) (rule refl, auto)
qed

section \<open>Resetting a client\<close>

lemma encode_ready:
  assumes "request_ready c" "length (cl_sendBuf c) = MAX_SEND_BUF_LEN + 1"
  shows "cl_sendBufLen (encode_into c) = cl_sendBufLen c" "0 < cl_sendBufLen c"
  using assms request_length by (simp_all add: encode_into_eq request_ready_def)

lemma resetClient_ok:
  assumes k: "kern_ok b k" and inv: "bench_inv b {} s" and f: "reg s f \<noteq> None" and i: "i = slot_of s f"
  shows "client_step b f s (resetClient k i s)"
proof -
  note sf = slot_facts [OF inv f i]
  let ?c = "client_at s i"
  have m: "cl_mask ?c = B_WRITEABLE \<or> cl_mask ?c = B_READABLE"
    using sf(3) by (auto simp: client_ok_def writing_def reading_def)
  then have mask: "(cl_mask ?c AND NOT B_READABLE) OR B_WRITEABLE = B_WRITEABLE" by auto
  from switch_events [OF k sf(1) _ sf(2), of B_WRITEABLE SendToServer B_READABLE] sf(5)
  obtain h where h: "snd (addEvent k i B_WRITEABLE SendToServer (snd (delEvent k i B_READABLE s))) =
      (upd_client i (\<lambda>c. set_func B_WRITEABLE SendToServer
        (c\<lparr>cl_mask := (cl_mask c AND NOT B_READABLE) OR B_WRITEABLE\<rparr>)) s)\<lparr>bench_log := h\<rparr>"
    "interest h = (interest (bench_log s))(f \<mapsto> EPOLLOUT)" "open_fds b h = open_fds b (bench_log s)"
    by (auto simp: mask)
  define c1 where "c1 = ?c\<lparr>cl_mask := B_WRITEABLE, cl_wFunc := Some SendToServer, cl_recvBufLen := 0, cl_sendedLen := 0\<rparr>"
  define c2 where "c2 = (if randomFlag s = 1 then encode_into c1 else c1)"
  have len1: "length (cl_sendBuf c1) = MAX_SEND_BUF_LEN + 1" using sf(4) by (simp add: c1_def)
  have ready1: "request_ready c1" using sf(3) by (simp add: c1_def client_ok_def request_ready_def)
  have ready2: "request_ready c2" "length (cl_sendBuf c2) = MAX_SEND_BUF_LEN + 1" "0 < cl_sendBufLen c2"
    using ready1 len1 encoded_ready [OF len1] encode_ready [OF ready1 len1] by (simp_all add: c2_def)
  have c2: "cl_fd c2 = f" "cl_mask c2 = B_WRITEABLE" "cl_wFunc c2 = Some SendToServer"
      "cl_sendedLen c2 = 0" "cl_recvBufLen c2 = 0"
    using sf(2) by (simp_all add: c2_def c1_def)
  have ok: "client_ok b (need s) i c2"
    using sf(3) sf(2) ready2 by (simp add: client_ok_def writing_def c2)
  have eq: "resetClient k i s = s\<lparr>bench_clients := (bench_clients s)[i := c2], bench_log := h,
      resetClientNum := resetClientNum s + 1\<rparr>"
    using sf(1) by (simp add: resetClient_def h(1) Let_def upd_client_def c2_def c1_def set_func_def mask)
  show ?thesis
    by (rule modify_step [OF inv f i, where c' = c2])
      (use sf(7) ok ready2(2) h(2,3) in \<open>simp_all add: eq same_size_def counts_ok_def c2\<close>)
qed

section \<open>Sending\<close>

lemma unat_of_length: "unat (word_of_nat (length request_text) :: u32) = length request_text"
  using request_length by (simp add: unat_of_nat take_bit_eq_mod)

lemma unat_add_int:
  assumes "0 \<le> n" "unat x + nat n < 2 ^ 32"
  shows "unat (x + word_of_int n :: u32) = unat x + nat n"
proof -
  have "word_of_int n = (word_of_nat (nat n) :: u32)" using assms(1) by simp
  moreover have "unat (word_of_nat (nat n) :: u32) = nat n"
    using assms(2) by (simp add: unat_of_nat take_bit_eq_mod)
  ultimately show ?thesis using assms(2) by (simp add: unat_word_ariths)
qed

text \<open>What is left of a request is the rest of the text.\<close>

lemma unsent_request:
  assumes "request_ready c" "length (cl_sendBuf c) = MAX_SEND_BUF_LEN + 1" "cl_sendedLen c \<le> cl_sendBufLen c"
  shows "unsent c = drop (unat (cl_sendedLen c)) request_text"
proof -
  let ?n = "unat (cl_sendedLen c)" and ?L = "length request_text"
  have L: "unat (cl_sendBufLen c) = ?L" using assms(1) by (simp add: request_ready_def unat_of_length)
  then have n: "?n \<le> ?L" using assms(3) by (simp add: word_le_nat_alt)
  have "unat (cl_sendBufLen c - cl_sendedLen c) = ?L - ?n" using assms(3) L by (simp add: unat_sub)
  then have "unsent c = drop ?n (take ?L (cl_sendBuf c))" using n by (simp add: unsent_def drop_take)
  then show ?thesis using assms(1) by (simp add: request_ready_def)
qed

lemma client_ready:
  "client_ok b n i c \<Longrightarrow> request_ready c \<and> cl_sendedLen c \<le> cl_sendBufLen c"
  by (auto simp: client_ok_def writing_def reading_def)

text \<open>A write that takes some of the rest, the last write ending the request.\<close>

definition sent_more :: "int \<Rightarrow> client \<Rightarrow> client" where
  "sent_more n c = c\<lparr>cl_sendedLen := cl_sendedLen c + word_of_int n\<rparr>"

lemma sent_more_len:
  assumes "request_ready c" "length (cl_sendBuf c) = MAX_SEND_BUF_LEN + 1" "cl_sendedLen c \<le> cl_sendBufLen c"
    "0 < n" "n \<le> int (length (unsent c))"
  shows "unat (cl_sendedLen (sent_more n c)) = unat (cl_sendedLen c) + nat n"
    "cl_sendedLen (sent_more n c) \<le> cl_sendBufLen (sent_more n c)"
proof -
  have L: "unat (cl_sendBufLen c) = length request_text" using assms(1) by (simp add: request_ready_def unat_of_length)
  then have le: "unat (cl_sendedLen c) \<le> length request_text" using assms(3) by (simp add: word_le_nat_alt)
  have n: "nat n \<le> length request_text - unat (cl_sendedLen c)"
    using assms(5) unsent_request [OF assms(1-3)] by simp
  then have "unat (cl_sendedLen c) + nat n \<le> length request_text" using le by simp
  then show 1: "unat (cl_sendedLen (sent_more n c)) = unat (cl_sendedLen c) + nat n"
    using assms(4) request_length by (simp add: sent_more_def unat_add_int)
  show "cl_sendedLen (sent_more n c) \<le> cl_sendBufLen (sent_more n c)"
    using 1 n le L by (simp add: word_le_nat_alt) (simp add: sent_more_def)
qed

lemma send_done_cases:
  assumes k: "kern_ok b k" and inv: "bench_inv b {} s" and f: "reg s f \<noteq> None" and i: "i = slot_of s f"
    and w: "writing (client_at s i)" and n: "0 < n" "n \<le> int (length (unsent (client_at s i)))"
  shows "client_step b f s (send_done k i n s) \<and>
    client_at (send_done k i n s) i =
      (let c = sent_more n (client_at s i) in
       if cl_sendedLen c = cl_sendBufLen c
       then c\<lparr>cl_mask := B_READABLE, cl_rFunc := Some RecvFromServer\<rparr> else c)"
proof -
  note sf = slot_facts [OF inv f i]
  let ?c = "client_at s i" and ?t = "s\<lparr>totalRequests := totalRequests s + 1\<rparr>"
  have ready: "request_ready ?c" "cl_sendedLen ?c \<le> cl_sendBufLen ?c" using client_ready [OF sf(3)] by simp_all
  note more = sent_more_len [OF ready(1) sf(4) ready(2) n]
  have wm: "cl_mask ?c = B_WRITEABLE" using w by (simp add: writing_def)
  have up: "upd_client i (sent_more n) ?t = ?t\<lparr>bench_clients := (bench_clients s)[i := sent_more n ?c]\<rparr>"
    by (simp add: upd_client_def)
  have keep: "cl_fd (sent_more n ?c) = f" "cl_mask (sent_more n ?c) = B_WRITEABLE"
      "cl_sendBuf (sent_more n ?c) = cl_sendBuf ?c" "cl_sendBufLen (sent_more n ?c) = cl_sendBufLen ?c"
    using sf(2) wm by (simp_all add: sent_more_def)
  show ?thesis
  proof (cases "cl_sendedLen (sent_more n ?c) = cl_sendBufLen (sent_more n ?c)")
    case True
    let ?u = "upd_client i (sent_more n) ?t"
    let ?d = "(sent_more n ?c)\<lparr>cl_mask := B_READABLE, cl_rFunc := Some RecvFromServer\<rparr>"
    have u: "i < length (bench_clients ?u)" "interest (bench_log ?u) f \<noteq> None" "cl_fd (client_at ?u i) = f"
      "client_at ?u i = sent_more n ?c"
      using sf(1,5) keep(1) by (simp_all add: up)
    from switch_events [OF k u(1-3), of B_READABLE RecvFromServer B_WRITEABLE] obtain h where
      h: "snd (addEvent k i B_READABLE RecvFromServer (snd (delEvent k i B_WRITEABLE ?u))) =
        (upd_client i (\<lambda>c. set_func B_READABLE RecvFromServer (c\<lparr>cl_mask := (cl_mask c AND NOT B_WRITEABLE) OR B_READABLE\<rparr>)) ?u)\<lparr>bench_log := h\<rparr>"
      "interest h = (interest (bench_log s))(f \<mapsto> EPOLLIN)" "open_fds b h = open_fds b (bench_log s)"
      using u(4) keep(2) by auto
    have eq: "send_done k i n s = ?t\<lparr>bench_clients := (bench_clients s)[i := ?d], bench_log := h\<rparr>"
      using True sf(1) h(1) by (simp add: send_done_def Let_def flip: sent_more_def)
        (simp add: upd_client_def set_func_def keep(2))
    have ok: "client_ok b (need s) i ?d"
      using sf(3) True keep by (simp add: client_ok_def reading_def request_ready_def) (simp add: sent_more_def)
    have "client_step b f s (send_done k i n s)"
      by (rule modify_step [OF inv f i, where c' = ?d])
        (use sf(4,7) ok h(2,3) keep in \<open>simp_all add: eq same_size_def counts_ok_def\<close>)
    then show ?thesis using True sf(1) by (simp add: eq)
  next
    case False
    then have eq: "send_done k i n s = ?t\<lparr>bench_clients := (bench_clients s)[i := sent_more n ?c]\<rparr>"
      using sf(1) by (simp add: send_done_def Let_def up flip: sent_more_def)
    have "cl_sendedLen (sent_more n ?c) < cl_sendBufLen (sent_more n ?c)" using False more(2) by simp
    then have ok: "client_ok b (need s) i (sent_more n ?c)"
      using sf(3) keep by (simp add: client_ok_def writing_def request_ready_def) (simp add: sent_more_def)
    have "client_step b f s (send_done k i n s)"
      by (rule modify_step [OF inv f i, where c' = "sent_more n ?c"])
        (use sf(4,5,6,7) ok keep wm in \<open>simp_all add: eq same_size_def counts_ok_def\<close>)
    then show ?thesis using False sf(1) by (simp add: eq)
  qed
qed

lemma reconnect_step:
  assumes "kern_ok b k" "bench_inv b {} s" "reg s f \<noteq> None" "i = slot_of s f"
  shows "\<exists>s'. reconnect k i s = Inr s' \<and> client_step b f s s'"
  using reconnect_ok [OF assms] keeps_step by blast

lemma no_interrupt: "kern_ok b k \<Longrightarrow> errno_after k s \<noteq> EINTR"
  by (simp add: kern_ok_def errno_after_def)

lemma write_loop_eq:
  assumes "kern_ok b k"
  shows "write_loop k i s = Some (bsys k (BWrite (cl_fd (client_at s i)) (unsent (client_at s i))) s)"
  using no_interrupt [OF assms]
  by (subst write_loop.simps) (simp add: Let_def case_prod_beta)

lemma read_loop_eq:
  assumes "kern_ok b k"
  shows "read_loop k i s = Some (bsys k (BRead (cl_fd (client_at s i))
    (MAX_RECV_BUF_LEN + 1 - unat (cl_recvBufLen (client_at s i)))) s)"
  using no_interrupt [OF assms]
  by (subst read_loop.simps) (simp add: Let_def case_prod_beta)

lemma sendToServer_ok:
  assumes k: "kern_ok b k" and inv: "bench_inv b {} s" and f: "reg s f \<noteq> None" and i: "i = slot_of s f"
    and w: "cl_mask (client_at s i) = B_WRITEABLE"
  shows "\<exists>r s'. sendToServer k i s = Some (Inr (r, s')) \<and> client_step b f s s'"
proof -
  define s1 where "s1 = send_touch k i s"
  note sf = slot_facts [OF inv f i]
  have "stamped i s s1" unfolding s1_def using sf(1) by (rule send_touch_stamped)
  note st = stamped_step [OF inv f i this]
  obtain l t u where c1: "client_at s1 i = stamp l t u (client_at s i)" using st(4) by blast
  have inv1: "bench_inv b {} s1" using st(1) by (simp add: client_step_def)
  have f1: "reg s1 f \<noteq> None" "i = slot_of s1 f" using f st(2,3) by simp_all
  let ?c = "BWrite (cl_fd (client_at s1 i)) (unsent (client_at s1 i))"
  obtain sended s2 where w2: "bsys k ?c s1 = (sended, s2)" by fastforce
  have cl: "calm s1 s2" using calm_bsys [of ?c s1 k] w2 by simp
  have ret: "sended \<le> int (length (unsent (client_at s1 i)))"
    using k w2 by (auto simp: bsys_def Let_def kern_ok_def)
  have inv2: "bench_inv b {} s2" and f2: "reg s2 f \<noteq> None" "i = slot_of s2 f"
    using calm_inv [OF cl] inv1 calm_reg [OF cl] calm_slot [OF cl] f1 by simp_all
  have step2: "client_step b f s s2" using st(1) calm_step [OF cl inv1] by (rule client_step_trans)
  have same: "client_at s2 i = client_at s1 i" using cl by (simp add: calm_def)
  have eq: "sendToServer k i s = Some (if sended \<le> 0
      then if errno_after k s2 = EWOULDBLOCK \<or> errno_after k s2 = EAGAIN then Inr (1, s2)
           else bindR (reconnect k i s2) (\<lambda>s'. Inr (-1, s'))
      else Inr (0, send_done k i sended s2))"
    by (simp add: sendToServer_def write_loop_eq [OF k] w2 flip: s1_def)
  have wr: "writing (client_at s2 i)" if "0 < sended"
    using slot_facts(3) [OF inv2 f2] w c1 same by (auto simp: client_ok_def reading_def)
  obtain s3 where s3: "reconnect k i s2 = Inr s3" "client_step b f s2 s3"
    using reconnect_step [OF k inv2 f2] by blast
  have sd: "client_step b f s2 (send_done k i sended s2)" if "0 < sended"
    using send_done_cases [OF k inv2 f2 wr [OF that] that, of] ret same by simp
  show ?thesis
  proof (cases "sended \<le> 0")
    case True
    then show ?thesis using eq s3 step2 client_step_trans [OF step2 s3(2)] by simp
  next
    case False
    then show ?thesis using eq client_step_trans [OF step2 sd] by simp
  qed
qed

section \<open>Receiving\<close>

lemma record_latency_ok:
  assumes inv: "bench_inv b {} s"
  shows "\<exists>s'. record_latency i s = Inr s' \<and> bench_inv b {} s' \<and> reg s' = reg s \<and>
    needClientNum s' = needClientNum s \<and> needRequestNum s' = needRequestNum s"
proof (cases "doneRequests s < needRequestNum s")
  case True
  let ?s = "s\<lparr>latencies := (latencies s)[unat (doneRequests s) := cl_latency (client_at s i)],
      doneRequests := doneRequests s + 1\<rparr>"
  have c: "counts_ok s" using inv by (simp add: bench_inv_def)
  then have "unat (doneRequests s) < length (latencies s)" using True by (simp add: counts_ok_def word_less_nat_alt)
  then have eq: "record_latency i s = Inr ?s" using True by (simp add: record_latency_def)
  have "unat (doneRequests s + 1) = Suc (unat (doneRequests s))" using True by (rule unat_add_one)
  then have "doneRequests s + 1 \<le> needRequestNum s" using True by (simp add: word_le_nat_alt word_less_nat_alt)
  moreover have "loop_stop s \<noteq> 0" using c True by (auto simp: counts_ok_def)
  ultimately have "counts_ok ?s" using c by (simp add: counts_ok_def)
  moreover have "reg ?s = reg s" by (rule reg_cong) simp_all
  ultimately show ?thesis using inv eq by (simp add: bench_inv_def)
next
  case False
  then show ?thesis using inv by (simp add: record_latency_def)
qed

lemma clientDone_ok:
  assumes k: "kern_ok b k" and inv: "bench_inv b {} s" and f: "reg s f \<noteq> None" and i: "i = slot_of s f"
  shows "\<exists>s'. clientDone k i s = Inr s' \<and> client_step b f s s'"
proof (cases "doneRequests s = needRequestNum s")
  case True
  have reg: "reg (s\<lparr>loop_stop := 0\<rparr>) = reg s" by (rule reg_cong) simp_all
  then have "bench_inv b {} (s\<lparr>loop_stop := 0\<rparr>)" using inv True by (simp add: bench_inv_def counts_ok_def)
  then show ?thesis using True reg by (simp add: clientDone_def client_step_def same_size_def)
next
  case False
  then show ?thesis using reconnect_step [OF assms] resetClient_ok [OF assms] by (auto simp: clientDone_def)
qed

lemma recv_done_ok:
  assumes k: "kern_ok b k" and inv: "bench_inv b {} s" and f: "reg s f \<noteq> None" and i: "i = slot_of s f"
    and n: "0 < n" "n \<le> int (MAX_RECV_BUF_LEN + 1 - unat (cl_recvBufLen (client_at s i)))"
  shows "recv_done k i n s = Inl (Exited (-1)) \<or>
    (\<exists>r s'. recv_done k i n s = Inr (r, s') \<and> client_step b f s s')"
proof -
  note sf = slot_facts [OF inv f i]
  let ?g = "\<lambda>c. c\<lparr>cl_recvBufLen := cl_recvBufLen c + word_of_int n\<rparr>"
  let ?s1 = "upd_client i ?g s"
  show ?thesis
  proof (cases "MAX_RECV_BUF_LEN < unat (cl_recvBufLen (client_at ?s1 i))")
    case True
    then show ?thesis by (simp add: recv_done_def Let_def)
  next
    case False
    then have ok: "client_ok b (need s) i (?g (client_at s i))"
      using sf(1,3) by (auto simp: client_ok_def request_ready_def writing_def reading_def)
    have step1: "client_step b f s ?s1"
      by (rule touch_step [OF inv f i, where g = ?g]) (use sf(2) ok in simp_all)
    have reg1: "reg ?s1 f \<noteq> None"
      using sf(1,2) i f by (auto simp: reg_upd) (auto simp: reg_def Let_def split: if_splits)
    obtain s2 where s2: "record_latency i ?s1 = Inr s2" "bench_inv b {} s2" "reg s2 = reg ?s1"
        "needClientNum s2 = needClientNum ?s1" "needRequestNum s2 = needRequestNum ?s1"
      using record_latency_ok [of b ?s1 i] step1 by (auto simp: client_step_def)
    have f2: "reg s2 f \<noteq> None" "i = slot_of s2 f" using s2(3) reg1 i slot_of_cong [OF s2(4)] by simp_all
    obtain s3 where s3: "clientDone k i s2 = Inr s3" "client_step b f s2 s3"
      using clientDone_ok [OF k s2(2) f2] by blast
    have "client_step b f ?s1 s2" using s2 by (simp add: client_step_def same_size_def)
    with step1 s3(2) have "client_step b f s s3" by (blast intro: client_step_trans)
    moreover have "recv_done k i n s = Inr (0, s3)"
      using False s2(1) s3(1) by (simp add: recv_done_def Let_def decodeResponse_def)
    ultimately show ?thesis by blast
  qed
qed

lemma recvFromServer_ok:
  assumes k: "kern_ok b k" and inv: "bench_inv b {} s" and f: "reg s f \<noteq> None" and i: "i = slot_of s f"
  shows "recvFromServer k i s = Some (Inl (Exited (-1))) \<or>
    (\<exists>r s'. recvFromServer k i s = Some (Inr (r, s')) \<and> client_step b f s s')"
proof -
  define s1 where "s1 = recv_touch k i s"
  note sf = slot_facts [OF inv f i]
  have "stamped i s s1" unfolding s1_def using sf(1) by (rule recv_touch_stamped)
  note st = stamped_step [OF inv f i this]
  have inv1: "bench_inv b {} s1" using st(1) by (simp add: client_step_def)
  have f1: "reg s1 f \<noteq> None" "i = slot_of s1 f" using f st(2,3) by simp_all
  let ?c = "BRead (cl_fd (client_at s1 i)) (MAX_RECV_BUF_LEN + 1 - unat (cl_recvBufLen (client_at s1 i)))"
  obtain n s2 where r2: "bsys k ?c s1 = (n, s2)" by fastforce
  have cl: "calm s1 s2" using calm_bsys [of ?c s1 k] r2 by simp
  have inv2: "bench_inv b {} s2" and f2: "reg s2 f \<noteq> None" "i = slot_of s2 f"
    using calm_inv [OF cl] inv1 calm_reg [OF cl] calm_slot [OF cl] f1 by simp_all
  have step2: "client_step b f s s2" using st(1) calm_step [OF cl inv1] by (rule client_step_trans)
  have same: "client_at s2 i = client_at s1 i" using cl by (simp add: calm_def)
  have ret: "n \<le> int (MAX_RECV_BUF_LEN + 1 - unat (cl_recvBufLen (client_at s2 i)))"
    using k r2 same by (auto simp: bsys_def Let_def kern_ok_def)
  have eq: "recvFromServer k i s = Some (
      if n < 0 \<and> (errno_after k s2 = EWOULDBLOCK \<or> errno_after k s2 = EAGAIN) then Inr (1, s2)
      else if n \<le> 0 then bindR (reconnect k i s2) (\<lambda>s'. Inr (-1, s')) else recv_done k i n s2)"
    by (simp add: recvFromServer_def read_loop_eq [OF k] r2 [simplified] flip: s1_def)
  obtain s3 where s3: "reconnect k i s2 = Inr s3" "client_step b f s2 s3"
    using reconnect_step [OF k inv2 f2] by blast
  show ?thesis
  proof (cases "n \<le> 0")
    case True
    then show ?thesis using eq s3 step2 client_step_trans [OF step2 s3(2)] by simp
  next
    case False
    then have "0 < n" by simp
    from recv_done_ok [OF k inv2 f2 this ret] False show ?thesis
      using client_step_trans [OF step2] by (auto simp: eq)
  qed
qed

section \<open>Events and rounds\<close>

text \<open>What \<open>epoll_wait\<close> may deliver: errors at any time, the rest only as registered.\<close>

definition delivered :: "bench \<Rightarrow> fd \<times> u32 \<Rightarrow> bool" where
  "delivered s q \<longleftrightarrow> (\<exists>bits. interest (bench_log s) (fst q) = Some bits \<and>
     (has EPOLLIN (snd q) \<longrightarrow> has EPOLLIN bits) \<and> (has EPOLLOUT (snd q) \<longrightarrow> has EPOLLOUT bits))"

definition delivery :: "bench \<Rightarrow> (fd \<times> u32) list \<Rightarrow> bool" where
  "delivery s qs \<longleftrightarrow> distinct (map fst qs) \<and> (\<forall>q \<in> set qs. delivered s q)"

text \<open>A computation that returns with a property, or has called \<open>exit\<close>.\<close>

definition fine :: "('a \<Rightarrow> bool) \<Rightarrow> 'a result option \<Rightarrow> bool" where
  "fine P x \<longleftrightarrow> (\<exists>n. x = Some (Inl (Exited n))) \<or> (\<exists>a. x = Some (Inr a) \<and> P a)"

lemma fine_simps [simp]:
  "fine P (Some (Inr a)) = P a" "fine P (Some (Inl (Exited n)))"
  by (auto simp: fine_def)

lemma fine_bind:
  assumes "fine P x" "\<And>a. P a \<Longrightarrow> fine Q (g a)"
  shows "fine Q (bindO x g)"
proof -
  consider (exits) n where "x = Some (Inl (Exited n))" | (returns) a where "x = Some (Inr a)" "P a"
    using assms(1) by (auto simp: fine_def)
  then show ?thesis by cases (use assms(2) in simp_all)
qed

lemma epoll_in_out [simp]:
  "has EPOLLIN EPOLLOUT = False" "has EPOLLOUT EPOLLIN = False"
  by (simp_all add: has_def EPOLLIN_def EPOLLOUT_def)

lemma bench_event_ok:
  assumes k: "kern_ok b k" and inv: "bench_inv b {} s" and d: "delivered s (f, ev)"
  shows "fine (\<lambda>(n, s'). client_step b f s s') (bench_event k (f, ev) (fails, s))"
proof -
  let ?i = "slot_of s f" and ?c = "client_at s (slot_of s f)"
  have reg: "reg s f \<noteq> None" using d inv by (auto simp: delivered_def bench_inv_def)
  note sf = slot_facts [OF inv reg refl]
  have n: "needClientNum s \<noteq> 0" using inv by (auto simp: bench_inv_def)
  have bits: "has EPOLLIN ev \<Longrightarrow> has EPOLLIN (epoll_bits (cl_mask ?c))"
      "has EPOLLOUT ev \<Longrightarrow> has EPOLLOUT (epoll_bits (cl_mask ?c))"
    using d sf(5) by (auto simp: delivered_def)
  obtain s1 where re: "reconnect k ?i s = Inr s1" "client_step b f s s1"
    using reconnect_step [OF k inv reg refl] by blast
  have id: "client_step b f s s" using calm_step [OF calm_refl inv] .
  have wf: "cl_wFunc ?c = Some SendToServer" using sf(3) by (simp add: client_ok_def)
  consider (error) "has (EPOLLERR OR EPOLLHUP) ev"
    | (sends) "\<not> has (EPOLLERR OR EPOLLHUP) ev" "cl_mask ?c = B_WRITEABLE"
    | (receives) "\<not> has (EPOLLERR OR EPOLLHUP) ev" "cl_mask ?c = B_READABLE" "cl_rFunc ?c = Some RecvFromServer"
    using sf(3) by (auto simp: client_ok_def writing_def reading_def)
  then show ?thesis
  proof cases
    case error
    then show ?thesis using n re by (simp add: bench_event_def Let_def)
  next
    case sends
    then have "\<not> has EPOLLIN ev" using bits(1) by auto
    moreover obtain r s2 where "sendToServer k ?i s = Some (Inr (r, s2))" "client_step b f s s2"
      using sendToServer_ok [OF k inv reg refl sends(2)] by blast
    ultimately show ?thesis using sends(1) n wf id by (simp add: bench_event_def Let_def)
  next
    case receives
    then have "\<not> has EPOLLOUT ev" using bits(2) by auto
    with receives n id recvFromServer_ok [OF k inv reg refl] show ?thesis
      by (auto simp: bench_event_def Let_def)
  qed
qed

lemma bench_events_ok:
  assumes "kern_ok b k" "bench_inv b {} s" "delivery s qs"
  shows "fine (\<lambda>(n, s'). bench_inv b {} s' \<and> same_size s s') (bench_events k qs (fails, s))"
  using assms(2,3)
proof (induction qs arbitrary: s fails)
  case Nil
  then show ?case by (simp add: same_size_def)
next
  case (Cons q qs)
  obtain f ev where q: "q = (f, ev)" by (cases q)
  have d: "delivered s (f, ev)" "distinct (map fst qs)" "\<forall>p \<in> set qs. delivered s p \<and> fst p \<noteq> f"
    using Cons.prems(2) q by (force simp: delivery_def)+
  have "fine (\<lambda>(n, s'). bench_inv b {} s' \<and> same_size s s') (bench_events k qs (n, s1))"
    if step: "client_step b f s s1" for n s1
  proof -
    have inv1: "bench_inv b {} s1" using step by (simp add: client_step_def)
    have "interest (bench_log s1) g = interest (bench_log s) g" if "g \<noteq> f" "interest (bench_log s) g \<noteq> None" for g
      using that step inv1 Cons.prems(1) by (simp add: client_step_def bench_inv_def)
    then have "delivery s1 qs" using d(2,3) by (force simp: delivery_def delivered_def)
    from Cons.IH [OF inv1 this, of n] show ?thesis
      using step by (auto simp: fine_def client_step_def same_size_def)
  qed
  then show ?case
    unfolding q bench_events.simps
    by (intro fine_bind [OF bench_event_ok [OF assms(1) Cons.prems(1) d(1), of fails]]) auto
qed

lemma clear_from_ok:
  assumes "kern_ok b k" "bench_inv b {} s" "\<forall>i \<in> set is. i < need s"
  shows "bench_inv b {} (clear_from k cur is s) \<and> same_size s (clear_from k cur is s)"
  using assms(2,3)
proof (induction "is" arbitrary: s)
  case Nil
  then show ?case by (simp add: same_size_def)
next
  case (Cons i "is")
  define s1 where "s1 = (if 0 < cl_fd (client_at s i) \<and> cl_touchTime (client_at s i) + CONNECT_TIMEOUT * 1000000 \<le> cur
        then resetClient k i (s\<lparr>timeoutClientNum := timeoutClientNum s + 1\<rparr>) else s)"
  let ?t = "s\<lparr>timeoutClientNum := timeoutClientNum s + 1\<rparr>"
  have "bench_inv b {} s1 \<and> same_size s s1"
  proof (cases "0 < cl_fd (client_at s i) \<and> cl_touchTime (client_at s i) + CONNECT_TIMEOUT * 1000000 \<le> cur")
    case True
    let ?f = "cl_fd (client_at s i)"
    have c: "calm s ?t" by (simp add: calm_def)
    have "client_ok b (need s) i (client_at s i)" using bench_inv_client Cons.prems True by simp
    then have i: "i = slot_of s ?f" by (simp add: client_ok_def slot_of_def)
    then have "reg s ?f \<noteq> None" using True by (simp add: reg_def Let_def)
    then have "client_step b ?f ?t (resetClient k i ?t)"
      using calm_inv [OF c] Cons.prems(1) calm_reg [OF c] calm_slot [OF c] i
      by (intro resetClient_ok [OF assms(1)]) auto
    then show ?thesis unfolding s1_def if_P [OF True] by (simp add: client_step_def same_size_def)
  next
    case False
    then show ?thesis using Cons.prems(1) unfolding s1_def if_not_P [OF False] by (simp add: same_size_def)
  qed
  then have s1: "bench_inv b {} s1" "same_size s s1" by simp_all
  moreover have "\<forall>j \<in> set is. j < need s1" using s1(2) Cons.prems(2) by (simp add: same_size_def)
  ultimately have "bench_inv b {} (clear_from k cur is s1) \<and> same_size s1 (clear_from k cur is s1)"
    using Cons.IH by blast
  then show ?case using s1(2) by (simp add: same_size_def flip: s1_def)
qed

lemma bench_round_ok:
  assumes k: "kern_ok b k" and inv: "bench_inv b {} s" and d: "delivery s qs"
  shows "fine (\<lambda>(f', l', s'). bench_inv b {} s' \<and> same_size s s') (bench_round k qs (fails, last_check, s))"
proof -
  let ?s = "touchTime k s"
  have c: "calm s ?s" by (rule calm_touch)
  have inv0: "bench_inv b {} ?s" using calm_inv [OF c] inv by simp
  have d0: "delivery ?s qs" using c d by (simp add: delivery_def delivered_def calm_def)
  have rest: "fine (\<lambda>(f', l', s'). bench_inv b {} s' \<and> same_size s s')
      (let (t, s2) = usTime k s1 in
        if 200000 < t - last_check
        then let (t', s3) = usTime k s2 in
          bindO (createNeedClients k (clearTimeoutConnection k t' s3)) (\<lambda>s4.
            let (_, s5) = msTime k s4; (t'', s6) = usTime k s5 in Some (Inr (fails', t'', s6)))
        else Some (Inr (fails', last_check, s2)))"
    if i1: "bench_inv b {} s1" and z1: "same_size ?s s1" for fails' s1
  proof -
    obtain t s2 where t: "usTime k s1 = (t, s2)" by fastforce
    obtain t' s3 where t': "usTime k s2 = (t', s3)" by fastforce
    have c2: "calm s1 s2" "calm s1 s3"
      using calm_time(1) [of s1 k] calm_trans [OF calm_time(1) calm_time(1), of s1 k k] t t' by simp_all
    have z: "same_size s s1" using calm_size [OF c] z1 by (simp add: same_size_def)
    have i2: "bench_inv b {} s2" "same_size s s2" "bench_inv b {} s3"
      using calm_inv [OF c2(1)] calm_inv [OF c2(2)] i1 calm_size [OF c2(1)] z by (simp_all add: same_size_def)
    define s4 where "s4 = clearTimeoutConnection k t' s3"
    have i4: "bench_inv b {} s4" "same_size s3 s4"
      using clear_from_ok [OF k i2(3), of "[0..<need s3]" t'] by (simp_all add: s4_def clearTimeoutConnection_def)
    have "bench_inv b {} (snd (usTime k (snd (msTime k s5)))) \<and> same_size s (snd (usTime k (snd (msTime k s5))))"
      if "bench_inv b {} s5" "keeps {} s4 s5" for s5
    proof -
      have c5: "calm s5 (snd (usTime k (snd (msTime k s5))))"
        using calm_trans [OF calm_time(2) calm_time(1)] .
      show ?thesis using that calm_inv [OF c5] calm_size [OF c5] i4(2) calm_size [OF c2(2)] z
        by (simp add: keeps_def same_size_def)
    qed
    then have "fine (\<lambda>(f', l', s'). bench_inv b {} s' \<and> same_size s s')
        (bindO (createNeedClients k s4) (\<lambda>s5. let (_, s5') = msTime k s5; (t'', s6) = usTime k s5' in
          Some (Inr (fails', t'', s6))))"
      using createNeedClients_ok [OF k i4(1)] by (auto simp: case_prod_beta Let_def)
    then show ?thesis using t t' i2(1,2) by (simp add: s4_def)
  qed
  show ?thesis
    unfolding bench_round_def Let_def [of "(fails, last_check, s)"] prod.case
    by (rule fine_bind [OF bench_events_ok [OF k inv0 d0]]) (use rest in auto)
qed

section \<open>A run of the load generator\<close>

text \<open>
  A configuration as the options leave it, with the arrays' fresh memory: no client of it
  looks connected, and the send buffers have their size.
\<close>

definition startable :: "nat \<Rightarrow> client list \<Rightarrow> u64 list \<Rightarrow> bench \<Rightarrow> bool" where
  "startable b cs ls s \<longleftrightarrow> 1 \<le> b \<and> 0 < need s \<and> bench_log s = [] \<and> liveClientNum s = 0 \<and>
     doneRequests s = 0 \<and> need s \<le> length cs \<and> unat (needRequestNum s) \<le> length ls \<and>
     (\<forall>c \<in> set cs. cl_fd c \<le> 0 \<and> length (cl_sendBuf c) = MAX_SEND_BUF_LEN + 1)"

lemma parse_start:
  "parseOptions opts s = Inr s' \<Longrightarrow> bench_log s' = bench_log s \<and> liveClientNum s' = liveClientNum s \<and>
     doneRequests s' = doneRequests s"
proof (induction opts arbitrary: s)
  case Nil
  then show ?case by simp
next
  case (Cons q opts)
  then show ?case by (cases q) (fastforce split: if_splits)
qed

inductive bench_reach :: "kern \<Rightarrow> bench \<Rightarrow> int \<times> u64 \<times> bench \<Rightarrow> bool" for k s0 where
  starts: "createNeedClients k s0 = Some (Inr s1) \<Longrightarrow> msTime k s1 = (t, s2) \<Longrightarrow>
    usTime k (s2\<lparr>bench_start := t\<rparr>) = (u, s3) \<Longrightarrow> bench_reach k s0 (0, u, s3)"
| rounds: "bench_reach k s0 x \<Longrightarrow> loop_stop (snd (snd x)) \<noteq> 0 \<Longrightarrow> delivery (snd (snd x)) qs \<Longrightarrow>
    bench_round k qs x = Some (Inr y) \<Longrightarrow> bench_reach k s0 y"

lemma start_inv:
  assumes "startable b cs ls s"
  shows "bench_inv b {} (bench_setup cs ls s)"
proof -
  let ?s = "bench_setup cs ls s"
  have n: "need ?s = need s" "0 < need s" "length (bench_clients ?s) = need s"
    using assms by (simp_all add: startable_def bench_setup_def min_def)
  have at: "client_at ?s i \<in> set cs" if "i < need s" for i
  proof -
    have "i < length cs" using assms that by (simp add: startable_def)
    then show ?thesis using that by (simp add: bench_setup_def)
  qed
  have none: "reg ?s f = None" for f
  proof -
    have "slot_of ?s f < need s" using slot_bound [of ?s f] n by simp
    then have "cl_fd (client_at ?s (slot_of ?s f)) \<le> 0" using at assms by (simp add: startable_def)
    then show ?thesis by (auto simp: reg_def Let_def)
  qed
  have idle: "cl_fd (client_at ?s i) \<le> 0" if "i < need s" for i
    using at [OF that] assms by (simp add: startable_def)
  have "dom (reg ?s) = {}" using none by auto
  moreover have "interest (bench_log ?s) = reg ?s" "open_fds b (bench_log ?s) = {0..<int b}"
    using assms none by (simp_all add: startable_def bench_setup_def fun_eq_iff)
  moreover have "counts_ok ?s" "unat (liveClientNum ?s) = 0" "1 \<le> b"
    using assms by (simp_all add: startable_def bench_setup_def counts_ok_def min_def)
  moreover have "\<forall>i < need s. length (cl_sendBuf (client_at ?s i)) = MAX_SEND_BUF_LEN + 1"
    using at assms by (simp add: startable_def)
  ultimately show ?thesis using n idle by (auto simp: bench_inv_def not_less [symmetric])
qed

lemma reach_inv:
  assumes "kern_ok b k" "bench_inv b {} s0" "bench_reach k s0 x"
  shows "bench_inv b {} (snd (snd x)) \<and> same_size s0 (snd (snd x))"
  using assms(3)
proof (induction rule: bench_reach.induct)
  case (starts s1 t s2 u s3)
  have s1: "bench_inv b {} s1" "keeps {} s0 s1" using createNeedClients_ok [OF assms(1,2)] starts(1) by auto
  have "calm s2 (s2\<lparr>bench_start := t\<rparr>)" by (simp add: calm_def)
  then have "calm s1 s3"
    using calm_time(2) [of s1 k] calm_time(1) [of "s2\<lparr>bench_start := t\<rparr>" k] starts(2,3)
    by (auto intro: calm_trans)
  then show ?case using s1 calm_inv calm_size by (fastforce simp: keeps_def same_size_def)
next
  case (rounds x qs y)
  obtain n l s where x: "x = (n, l, s)" by (cases x)
  obtain n' l' s' where y: "y = (n', l', s')" by (cases y)
  have "fine (\<lambda>(f', l', s'). bench_inv b {} s' \<and> same_size s s') (bench_round k qs x)"
    using bench_round_ok [OF assms(1)] rounds.IH rounds.hyps(3) x by simp
  then have "bench_inv b {} s' \<and> same_size s s'" using rounds.hyps(4) y by (simp add: fine_def)
  then show ?case using rounds.IH x y by (simp add: same_size_def)
qed

section \<open>A kernel\<close>

text \<open>One client, on descriptor 4; writes take everything, reads give five bytes at most.\<close>

fun demo_ret :: "history \<Rightarrow> bcall \<Rightarrow> int" where
  "demo_ret h (BSocket p) = (if lowest_free 4 h 4 then 4 else -1)"
| "demo_ret h (BRead f n) = int (min 5 n)"
| "demo_ret h (BWrite f bs) = int (length bs)"
| "demo_ret h _ = 0"

definition demo_kern :: kern where
  "demo_kern = \<lparr>k_ret = demo_ret, k_errno = (\<lambda>h. 0), k_clock = (\<lambda>h. (1, 0))\<rparr>"

definition demo_clients :: "client list" where
  "demo_clients = [\<lparr>cl_fd = -1, cl_mask = 0, cl_latency = 0, cl_startTime = 0, cl_touchTime = 0,
     cl_recvBufLen = 0, cl_sendedLen = 0, cl_sendBufLen = 0,
     cl_sendBuf = replicate (MAX_SEND_BUF_LEN + 1) (CHR 0x00), cl_rFunc = None, cl_wFunc = None\<rparr>]"

definition demo_bench :: bench where
  "demo_bench = initConfig\<lparr>needClientNum := 1, needRequestNum := 1\<rparr>"

abbreviation demo_start :: bench where
  "demo_start \<equiv> bench_setup demo_clients [0] demo_bench"

lemma demo_kern_ok: "kern_ok 4 demo_kern"
  by (auto simp: kern_ok_def demo_kern_def EINTR_def)

lemma demo_startable: "startable 4 demo_clients [0] demo_bench"
  by (simp add: startable_def demo_bench_def initConfig_def demo_clients_def)

lemma demo_fields: "bench_log demo_start = []" "liveClientNum demo_start = 0" "needClientNum demo_start = 1"
    "bench_protocol demo_start = PROTOCOL_TCP"
  by (simp_all add: bench_setup_def demo_bench_def initConfig_def)

text \<open>The history up to the client's slot.\<close>

definition demo_log :: history where
  "demo_log = [(BSocket PROTOCOL_TCP, 4), (BFcntl 4 F_GETFL 0, 0), (BFcntl 4 F_SETFL O_NONBLOCK, 0),
     (BConnect 4 (bench_host demo_start) (bench_port demo_start), 0), (BNoDelay 4, 0)]"

lemma demo_log_interest: "interest demo_log = Map.empty"
  by (simp add: demo_log_def interest_def)

lemma demo_create: "\<exists>s r. createClient demo_kern demo_start = Inr (0, s) \<and>
    bench_log s = demo_log @ [(BCtl CtlAdd 4 EPOLLOUT, r)] \<and> 0 \<le> r \<and>
    liveClientNum s = 1 \<and> needClientNum s = 1 \<and> cl_sendedLen (client_at s 0) = 0"
proof -
  let ?t = "demo_start\<lparr>bench_log := demo_log\<rparr>"
  have t: "createClient demo_kern demo_start = install_client demo_kern 4 ?t"
    by (simp add: createClient_def bsys_def Let_def demo_kern_def demo_fields lowest_free_def
        setNonBlock_def b_fcntl_def setTcpNoDelay_def demo_log_def)
  have n: "slot_of ?t 4 = 0" "0 < length (bench_clients ?t)"
    by (simp_all add: slot_of_def bench_setup_def demo_bench_def demo_clients_def)
  have "slot_of ?t 4 < length (bench_clients ?t)" "needClientNum ?t \<noteq> 0" "interest (bench_log ?t) 4 = None"
    using n by (simp_all add: demo_fields demo_log_interest)
  from install_eq [OF demo_kern_ok this] obtain r where r: "0 \<le> r" and
    eq: "install_client demo_kern 4 ?t = Inr (0, (upd_client 0 (fresh_client 4) ?t)\<lparr>
      bench_log := demo_log @ [(BCtl CtlAdd 4 EPOLLOUT, r)], liveClientNum := liveClientNum ?t + 1,
      createClientNum := createClientNum ?t + 1\<rparr>)" by (auto simp: n(1))
  show ?thesis unfolding t eq using n(2) r
    by (simp add: upd_client_def demo_fields fresh_client_def)
qed

text \<open>The state the loop starts in.\<close>

definition demo_state :: "bench \<Rightarrow> bench" where
  "demo_state s = snd (usTime demo_kern
     ((snd (msTime demo_kern s))\<lparr>bench_start := fst (msTime demo_kern s)\<rparr>))"

lemma demo_calm: "calm s (demo_state s)"
proof -
  let ?t = "(snd (msTime demo_kern s))\<lparr>bench_start := fst (msTime demo_kern s)\<rparr>"
  have "calm (snd (msTime demo_kern s)) ?t" by (simp add: calm_def)
  with calm_time(2) [of s demo_kern] have "calm s ?t" by (rule calm_trans)
  then show ?thesis unfolding demo_state_def using calm_time(1) by (rule calm_trans)
qed

lemma demo_running:
  "\<exists>s u. createClient demo_kern demo_start = Inr (0, s) \<and>
    bench_reach demo_kern demo_start (0, u, demo_state s) \<and>
    interest (bench_log (demo_state s)) = [4 \<mapsto> EPOLLOUT] \<and>
    cl_sendedLen (client_at (demo_state s) 0) = 0 \<and> needClientNum (demo_state s) = 1"
proof -
  obtain s r where s: "createClient demo_kern demo_start = Inr (0, s)"
      "bench_log s = demo_log @ [(BCtl CtlAdd 4 EPOLLOUT, r)]" "liveClientNum s = 1" "needClientNum s = 1"
      "cl_sendedLen (client_at s 0) = 0" "0 \<le> r"
    using demo_create by blast
  then have i: "interest (bench_log s) = [4 \<mapsto> EPOLLOUT]" by (simp add: demo_log_interest)
  have "createNeedClients demo_kern s = Some (Inr s)"
    using s(3,4) by (subst createNeedClients.simps) simp
  then have need: "createNeedClients demo_kern demo_start = Some (Inr s)"
    using s(1) by (subst createNeedClients.simps) (simp add: demo_fields)
  have "bench_reach demo_kern demo_start (0,
      fst (usTime demo_kern ((snd (msTime demo_kern s))\<lparr>bench_start := fst (msTime demo_kern s)\<rparr>)), demo_state s)"
    unfolding demo_state_def by (rule starts [OF need]) (rule prod.collapse [symmetric])+
  moreover have "interest (bench_log (demo_state s)) = [4 \<mapsto> EPOLLOUT]"
      "bench_clients (demo_state s) = bench_clients s" "needClientNum (demo_state s) = 1"
    using demo_calm [of s] i s(4) by (simp_all add: calm_def)
  ultimately show ?thesis using s(1,5) by auto
qed

lemma demo_reach:
  "\<exists>x. bench_reach demo_kern demo_start x \<and> delivery (snd (snd x)) [(4, EPOLLERR)]"
proof -
  obtain s u where s: "bench_reach demo_kern demo_start (0, u, demo_state s)"
      "interest (bench_log (demo_state s)) = [4 \<mapsto> EPOLLOUT]"
    using demo_running by blast
  then have "delivery (demo_state s) [(4, EPOLLERR)]"
    by (auto simp: delivery_def delivered_def has_def EPOLLIN_def EPOLLOUT_def EPOLLERR_def)
  with s(1) show ?thesis by (intro exI [of _ "(0, u, demo_state s)"]) simp
qed



text \<open>C15. Descriptors never meet in a slot. A client lives at its descriptor modulo the number of
  clients, and since the kernel hands out the lowest free descriptor, this never puts two
  open descriptors in one slot: in every state the loop reaches, each descriptor registered
  with epoll is the one its slot holds, with the events of that client's mask; no descriptor
  is open that is not registered, so none leaks; and the number of live clients is theirs,
  the number asked for at most.\<close>

theorem slots_hold_descriptors:
  assumes "kern_ok b k" "startable b cs ls s0" "bench_reach k (bench_setup cs ls s0) x"
  defines "s \<equiv> snd (snd x)"
  shows "(\<forall>f ev. interest (bench_log s) f = Some ev \<longrightarrow>
      cl_fd (client_at s (slot_of s f)) = f \<and> ev = epoll_bits (cl_mask (client_at s (slot_of s f)))) \<and>
    open_fds b (bench_log s) = {0..<int b} \<union> dom (interest (bench_log s)) \<and>
    unat (liveClientNum s) = card (dom (interest (bench_log s))) \<and>
    card (dom (interest (bench_log s))) \<le> need s0"
proof -
  have inv: "bench_inv b {} s" "same_size (bench_setup cs ls s0) s"
    using reach_inv [OF assms(1) start_inv [OF assms(2)] assms(3)] by (simp_all add: s_def)
  have "card (dom (reg s)) \<le> card {int b..<int (b + need s)}"
    using reg_window [OF inv(1)] by (intro card_mono) simp_all
  then have "card (dom (reg s)) \<le> need s0" using inv(2) by (simp add: same_size_def bench_setup_def)
  then show ?thesis using inv(1) reg_slot by (auto simp: bench_inv_def)
qed

theorem slots_hold_descriptors_witness:
  "\<exists>x. bench_reach demo_kern demo_start x \<and>
     unat (liveClientNum (snd (snd x))) = card (dom (interest (bench_log (snd (snd x))))) \<and>
     open_fds 4 (bench_log (snd (snd x))) = {0..<4} \<union> dom (interest (bench_log (snd (snd x))))"
  using demo_reach slots_hold_descriptors [OF demo_kern_ok demo_startable] by fastforce

text \<open>C30. The requests are counted right. In every state the loop reaches, no more requests are
  done than were asked for, their latencies have room, and the loop has been told to stop
  only if exactly the number asked for is done.\<close>

theorem requests_counted:
  assumes "kern_ok b k" "startable b cs ls s0" "bench_reach k (bench_setup cs ls s0) x"
  shows "doneRequests (snd (snd x)) \<le> needRequestNum s0 \<and>
    length (latencies (snd (snd x))) = unat (needRequestNum s0) \<and>
    (loop_stop (snd (snd x)) = 0 \<longrightarrow> doneRequests (snd (snd x)) = needRequestNum s0)"
proof -
  have "counts_ok (snd (snd x))" "needRequestNum (snd (snd x)) = needRequestNum s0"
    using reach_inv [OF assms(1) start_inv [OF assms(2)] assms(3)]
    by (simp_all add: bench_inv_def same_size_def bench_setup_def)
  then show ?thesis by (simp add: counts_ok_def)
qed

theorem requests_counted_witness:
  "\<exists>x. bench_reach demo_kern demo_start x \<and> doneRequests (snd (snd x)) \<le> 1 \<and>
     length (latencies (snd (snd x))) = 1"
proof -
  obtain x where "bench_reach demo_kern demo_start x" using demo_reach by blast
  from requests_counted [OF demo_kern_ok demo_startable this] this show ?thesis
    by (intro exI [of _ x]) (simp add: demo_bench_def)
qed

text \<open>The clients are created, or the program leaves. The loop that creates the missing clients
  ends, having called \<open>exit\<close> or with as many clients as were asked for, each with a
  descriptor of its own registered for writing.\<close>

theorem clients_created:
  assumes "kern_ok b k" "startable b cs ls s0"
  shows "createNeedClients k (bench_setup cs ls s0) = Some (Inl (Exited 1)) \<or>
    (\<exists>s. createNeedClients k (bench_setup cs ls s0) = Some (Inr s) \<and>
       liveClientNum s = needClientNum s0 \<and> card (dom (interest (bench_log s))) = need s0)"
proof -
  have i0: "bench_inv b {} (bench_setup cs ls s0)" using start_inv [OF assms(2)] .
  consider (exits) "createNeedClients k (bench_setup cs ls s0) = Some (Inl (Exited 1))"
    | (returns) s where "createNeedClients k (bench_setup cs ls s0) = Some (Inr s)" "bench_inv b {} s"
        "keeps {} (bench_setup cs ls s0) s" "\<not> liveClientNum s < needClientNum s"
    using createNeedClients_ok [OF assms(1) i0] by blast
  then show ?thesis
  proof cases
    case returns
    have n: "needClientNum s = needClientNum s0"
      using returns(3) by (simp add: keeps_def same_size_def bench_setup_def)
    have "card (dom (reg s)) \<le> card {int b..<int (b + need s)}"
      using reg_window [OF returns(2)] by (intro card_mono) simp_all
    then have "unat (liveClientNum s) \<le> need s" using returns(2) by (simp add: bench_inv_def)
    then have "liveClientNum s = needClientNum s"
      using returns(4) by (metis word_le_nat_alt not_less_iff_gr_or_eq le_less)
    then show ?thesis using returns(1,2) n by (auto simp: bench_inv_def)
  qed simp
qed

theorem clients_created_witness:
  "createNeedClients demo_kern demo_start = Some (Inl (Exited 1)) \<or>
   (\<exists>s. createNeedClients demo_kern demo_start = Some (Inr s) \<and> liveClientNum s = 1 \<and>
      card (dom (interest (bench_log s))) = 1)"
  using clients_created [OF demo_kern_ok demo_startable] by (simp add: demo_bench_def)

end
