(* ===== verification/Bench_Report.thy ===== *)
theory Bench_Report
  imports Bench_Run "HOL-Library.Multiset"
begin

text \<open>
  What the load generator sends and what it reports: a request goes out byte by byte in
  order, however the kernel cuts the writes, and the final report holds of the latencies
  measured, given a \<open>qsort\<close> that does what its manual says.
\<close>

section \<open>Sending\<close>

text \<open>The bytes a history's writes to \<open>f\<close> have handed to the kernel, in order.\<close>

fun took :: "fd \<Rightarrow> bcall \<times> int \<Rightarrow> string" where
  "took f (BWrite g bs, r) = (if g = f then take (nat r) bs else [])"
| "took f _ = []"

definition taken :: "fd \<Rightarrow> history \<Rightarrow> string" where
  "taken f h = concat (map (took f) h)"

lemma taken_simps [simp]: "taken f [] = []" "taken f (h @ xs) = taken f h @ concat (map (took f) xs)"
  by (simp_all add: taken_def)

lemma taken_usTime [simp]: "taken f (bench_log (snd (usTime k s))) = taken f (bench_log s)"
  by (simp add: usTime_def cached_def touchTime_def Let_def)

lemma taken_msTime [simp]: "taken f (bench_log (snd (msTime k s))) = taken f (bench_log s)"
  by (simp add: msTime_def cached_def touchTime_def Let_def)

lemma taken_upd [simp]: "bench_log (upd_client i g s) = bench_log s"
  by (simp add: upd_client_def)

lemma taken_send_touch: "taken f (bench_log (send_touch k i s)) = taken f (bench_log s)"
  by (simp add: send_touch_def Let_def case_prod_beta)

lemma taken_send_done: "taken f (bench_log (send_done k i n s)) = taken f (bench_log s)"
  by (simp add: send_done_def addEvent_def delEvent_def bsys_def Let_def)

lemma reg_of_client:
  assumes "bench_inv b {} s" "interest (bench_log s) f = Some ev" "i = slot_of s f"
  shows "reg s f \<noteq> None" "ev = epoll_bits (cl_mask (client_at s i))" "cl_fd (client_at s i) = f"
proof -
  show r: "reg s f \<noteq> None" using assms(1,2) by (simp add: bench_inv_def)
  from slot_facts [OF assms(1) r assms(3)] assms(2)
  show "ev = epoll_bits (cl_mask (client_at s i))" "cl_fd (client_at s i) = f" by simp_all
qed

lemma writing_of_bits:
  assumes "client_ok b n i c" "epoll_bits (cl_mask c) = EPOLLOUT"
  shows "cl_mask c = B_WRITEABLE" "writing c"
  using assms by (auto simp: client_ok_def reading_def writing_def EPOLLIN_def EPOLLOUT_def)

text \<open>A call of \<open>sendToServer\<close> whose write takes some bytes.\<close>

lemma send_some:
  assumes k: "kern_ok b k" and inv: "bench_inv b {} s" and f: "interest (bench_log s) f = Some EPOLLOUT"
    and i: "i = slot_of s f"
    and n: "n = k_ret k (bench_log (send_touch k i s))
      (BWrite f (drop (unat (cl_sendedLen (client_at s i))) request_text))" "0 < n"
  shows "\<exists>s'. sendToServer k i s = Some (Inr (0, s')) \<and> bench_inv b {} s' \<and> slot_of s' f = i \<and>
    unat (cl_sendedLen (client_at s' i)) = unat (cl_sendedLen (client_at s i)) + nat n \<and>
    interest (bench_log s') f =
      Some (if unat (cl_sendedLen (client_at s' i)) = length request_text then EPOLLIN else EPOLLOUT) \<and>
    taken f (bench_log s') = taken f (bench_log s) @
      take (nat n) (drop (unat (cl_sendedLen (client_at s i))) request_text)"
proof -
  note rc = reg_of_client [OF inv f i]
  note sf = slot_facts [OF inv rc(1) i]
  define s1 where "s1 = send_touch k i s"
  have "stamped i s s1" unfolding s1_def using sf(1) by (rule send_touch_stamped)
  note st = stamped_step [OF inv rc(1) i this]
  obtain l t u where c1: "client_at s1 i = stamp l t u (client_at s i)" using st(4) by blast
  have inv1: "bench_inv b {} s1" using st(1) by (simp add: client_step_def)
  have f1: "reg s1 f \<noteq> None" "i = slot_of s1 f" using rc(1) st(2,3) by simp_all
  note sf1 = slot_facts [OF inv1 f1]
  have rest: "unsent (client_at s1 i) = drop (unat (cl_sendedLen (client_at s i))) request_text"
    using unsent_request [of "client_at s1 i"] client_ready [OF sf1(3)] sf1(4) c1 by simp
  let ?c = "BWrite f (unsent (client_at s1 i))"
  obtain s2 where w2: "bsys k ?c s1 = (n, s2)" using n(1) rest by (auto simp: bsys_def Let_def s1_def)
  have cl: "calm s1 s2" using calm_bsys [of ?c s1 k] w2 by simp
  have inv2: "bench_inv b {} s2" and f2: "reg s2 f \<noteq> None" "i = slot_of s2 f"
    using calm_inv [OF cl] inv1 calm_reg [OF cl] calm_slot [OF cl] f1 by simp_all
  have same: "client_at s2 i = client_at s1 i" using cl by (simp add: calm_def)
  have le: "n \<le> int (length (unsent (client_at s2 i)))"
    using k unfolding n(1) kern_ok_def same rest by blast
  have wr: "writing (client_at s2 i)"
    using writing_of_bits [OF slot_facts(3) [OF inv2 f2]] same c1 rc(2) by simp
  define s' where "s' = send_done k i n s2"
  have eq: "sendToServer k i s = Some (Inr (0, s'))"
    using n(2) w2 sf1(2) by (simp add: sendToServer_def write_loop_eq [OF k] s'_def flip: s1_def)
  have step: "client_step b f s2 s'" and at: "client_at s' i = (let c = sent_more n (client_at s2 i) in
      if cl_sendedLen c = cl_sendBufLen c
      then c\<lparr>cl_mask := B_READABLE, cl_rFunc := Some RecvFromServer\<rparr> else c)"
    using send_done_cases [OF k inv2 f2 wr n(2) le] by (simp_all add: s'_def)
  have inv': "bench_inv b {} s'" and slot': "slot_of s' f = i"
    using step f2(2) slot_of_cong [of s' s2 f] by (simp_all add: client_step_def same_size_def)
  have r: "request_ready (client_at s2 i)" "length (cl_sendBuf (client_at s2 i)) = MAX_SEND_BUF_LEN + 1"
    using client_ready [OF sf1(3)] sf1(4) same by simp_all
  let ?d = "sent_more n (client_at s2 i)"
  have wm: "cl_mask ?d = B_WRITEABLE" "cl_fd ?d = f" "cl_sendBufLen ?d = word_of_nat (length request_text)"
    using writing_of_bits(1) [OF sf(3)] rc(2) sf(2) r(1) same c1
    by (simp_all add: sent_more_def request_ready_def)
  have len: "unat (cl_sendedLen ?d) = unat (cl_sendedLen (client_at s i)) + nat n"
    using sent_more_len(1) [OF r _ n(2) le] wr same c1 by (simp add: writing_def less_imp_le)
  have full: "cl_sendedLen ?d = cl_sendBufLen ?d \<longleftrightarrow> unat (cl_sendedLen ?d) = length request_text"
    unfolding wm(3) using unat_of_length by (metis unsigned_word_eqI)
  have "0 < f" using reg_slot rc(1) by fastforce
  then have "reg s' f = Some (epoll_bits (cl_mask (client_at s' i)))"
    using wm(2) by (auto simp: reg_def slot' at Let_def)
  then have "interest (bench_log s') f = Some (epoll_bits (cl_mask (client_at s' i)))"
    using inv' by (simp add: bench_inv_def)
  moreover have "cl_sendedLen (client_at s' i) = cl_sendedLen ?d" by (simp add: at Let_def)
  moreover have "cl_mask (client_at s' i) =
      (if cl_sendedLen ?d = cl_sendBufLen ?d then B_READABLE else B_WRITEABLE)"
    by (simp add: at Let_def wm(1))
  moreover have "taken f (bench_log s') = taken f (bench_log s) @
      take (nat n) (drop (unat (cl_sendedLen (client_at s i))) request_text)"
    using w2 taken_send_touch [of f k i s]
    by (auto simp: s'_def taken_send_done bsys_def Let_def s1_def rest [unfolded s1_def])
  ultimately show ?thesis using eq inv' slot' len full by auto
qed

text \<open>The calls the loop makes for a client while it is writable, \<open>m\<close> of them at most.\<close>

fun send_calls :: "kern \<Rightarrow> fd \<Rightarrow> nat \<Rightarrow> bench \<Rightarrow> bench option" where
  "send_calls k f 0 s = Some s"
| "send_calls k f (Suc m) s =
     (if interest (bench_log s) f \<noteq> Some EPOLLOUT then Some s
      else case sendToServer k (slot_of s f) s of
        Some (Inr (r, s')) \<Rightarrow> if r = 0 then send_calls k f m s' else None
      | _ \<Rightarrow> None)"

lemma send_calls_all:
  assumes k: "kern_ok b k" and pos: "\<And>h bs. bs \<noteq> [] \<Longrightarrow> 0 < k_ret k h (BWrite f bs)"
  shows "bench_inv b {} s \<Longrightarrow> interest (bench_log s) f = Some EPOLLOUT \<Longrightarrow>
    length request_text - unat (cl_sendedLen (client_at s (slot_of s f))) \<le> m \<Longrightarrow>
    \<exists>s'. send_calls k f m s = Some s' \<and> bench_inv b {} s' \<and> interest (bench_log s') f = Some EPOLLIN \<and>
      taken f (bench_log s') = taken f (bench_log s) @
        drop (unat (cl_sendedLen (client_at s (slot_of s f)))) request_text"
proof (induction m arbitrary: s)
  case (0 s)
  note sf = slot_facts(3) [OF 0(1) reg_of_client(1) [OF 0(1,2) refl] refl]
  have "writing (client_at s (slot_of s f))"
    using writing_of_bits(2) [OF sf] reg_of_client(2) [OF 0(1,2) refl] by simp
  then show ?case using 0(3) client_ready [OF sf]
    by (simp add: writing_def request_ready_def word_less_nat_alt unat_of_length)
next
  case (Suc m s)
  let ?i = "slot_of s f" and ?n = "unat (cl_sendedLen (client_at s (slot_of s f)))"
  note sf = slot_facts(3) [OF Suc(2) reg_of_client(1) [OF Suc(2,3) refl] refl]
  have "writing (client_at s ?i)"
    using writing_of_bits(2) [OF sf] reg_of_client(2) [OF Suc(2,3) refl] by simp
  then have "?n < length request_text" using client_ready [OF sf]
    by (simp add: writing_def request_ready_def word_less_nat_alt unat_of_length)
  then have rest: "drop ?n request_text \<noteq> []" by simp
  define n where "n = k_ret k (bench_log (send_touch k ?i s)) (BWrite f (drop ?n request_text))"
  have n: "0 < n" unfolding n_def using rest by (rule pos)
  from send_some [OF k Suc(2,3) refl n_def n] obtain s1 where s1: "sendToServer k ?i s = Some (Inr (0, s1))"
      "bench_inv b {} s1" "slot_of s1 f = ?i" "unat (cl_sendedLen (client_at s1 ?i)) = ?n + nat n"
      "interest (bench_log s1) f =
        Some (if unat (cl_sendedLen (client_at s1 ?i)) = length request_text then EPOLLIN else EPOLLOUT)"
      "taken f (bench_log s1) = taken f (bench_log s) @ take (nat n) (drop ?n request_text)"
    by blast
  show ?case
  proof (cases "?n + nat n = length request_text")
    case True
    then have "interest (bench_log s1) f = Some EPOLLIN" using s1(4,5) by simp
    moreover from this have "send_calls k f m s1 = Some s1" by (cases m) (simp_all add: EPOLLIN_def EPOLLOUT_def)
    ultimately show ?thesis using Suc(3) s1 True by simp
  next
    case False
    then have i1: "interest (bench_log s1) f = Some EPOLLOUT" using s1(4,5) by simp
    have "length request_text - unat (cl_sendedLen (client_at s1 (slot_of s1 f))) \<le> m"
      using Suc(4) n s1(3,4) by simp
    from Suc.IH [OF s1(2) i1 this] obtain s' where s': "send_calls k f m s1 = Some s'" "bench_inv b {} s'"
        "interest (bench_log s') f = Some EPOLLIN"
        "taken f (bench_log s') = taken f (bench_log s1) @ drop (?n + nat n) request_text"
      using s1(3,4) by auto
    have "take (nat n) (drop ?n request_text) @ drop (?n + nat n) request_text = drop ?n request_text"
      by (metis append_take_drop_id drop_drop add.commute)
    then show ?thesis using Suc(3) s1(1,6) s' by simp
  qed
qed


lemma demo_writable:
  "\<exists>x. bench_reach demo_kern demo_start x \<and> interest (bench_log (snd (snd x))) 4 = Some EPOLLOUT \<and>
     slot_of (snd (snd x)) 4 = 0 \<and> cl_sendedLen (client_at (snd (snd x)) 0) = 0 \<and>
     taken 4 (bench_log (snd (snd x))) = []"
proof -
  obtain s u where s: "createClient demo_kern demo_start = Inr (0, s)"
      "bench_reach demo_kern demo_start (0, u, demo_state s)"
      "interest (bench_log (demo_state s)) = [4 \<mapsto> EPOLLOUT]"
      "cl_sendedLen (client_at (demo_state s) 0) = 0" "needClientNum (demo_state s) = 1"
    using demo_running by blast
  have "taken 4 demo_log = []" by (simp add: demo_log_def taken_def)
  then have "taken 4 (bench_log s) = []" using demo_create s(1) by auto
  then have "taken 4 (bench_log (demo_state s)) = []" by (simp add: demo_state_def)
  with s(2-5) show ?thesis by (intro exI [of _ "(0, u, demo_state s)"]) (simp add: slot_of_def)
qed


section \<open>The report\<close>

text \<open>
  What the manual says of \<open>qsort\<close>: given a comparison that orders the elements, it permutes
  them into that order.
\<close>

definition orders :: "('a \<Rightarrow> 'a \<Rightarrow> int) \<Rightarrow> 'a set \<Rightarrow> bool" where
  "orders cmp A \<longleftrightarrow> (\<forall>a\<in>A. \<forall>b\<in>A. sgn (cmp a b) = - sgn (cmp b a) \<and>
     (\<forall>c\<in>A. cmp a b \<le> 0 \<and> cmp b c \<le> 0 \<longrightarrow> cmp a c \<le> 0))"

definition qsort_documented :: "(('a \<Rightarrow> 'a \<Rightarrow> int) \<Rightarrow> 'a list \<Rightarrow> 'a list) \<Rightarrow> bool" where
  "qsort_documented qs \<longleftrightarrow> (\<forall>cmp xs. orders cmp (set xs) \<longrightarrow>
     mset (qs cmp xs) = mset xs \<and> sorted_wrt (\<lambda>a b. cmp a b \<le> 0) (qs cmp xs))"

lemma ordersD:
  "orders cmp A \<Longrightarrow> a \<in> A \<Longrightarrow> b \<in> A \<Longrightarrow> sgn (cmp a b) = - sgn (cmp b a)"
  "orders cmp A \<Longrightarrow> a \<in> A \<Longrightarrow> b \<in> A \<Longrightarrow> c \<in> A \<Longrightarrow> cmp a b \<le> 0 \<Longrightarrow> cmp b c \<le> 0 \<Longrightarrow> cmp a c \<le> 0"
  unfolding orders_def by blast+

text \<open>Below \<open>2^31\<close> microseconds, some 35 minutes, the truncated difference is the difference.\<close>

lemma compareLatency_diff:
  assumes "unat a < 2 ^ 31" "unat b < 2 ^ 31"
  shows "compareLatency a b = int (unat a) - int (unat b)"
proof -
  have "uint (a - b) = take_bit 64 (int (unat a) - int (unat b))"
    by (simp add: uint_word_ariths take_bit_eq_mod)
  then have "compareLatency a b = signed_take_bit 31 (take_bit 32 (take_bit 64 (int (unat a) - int (unat b))))"
    by (simp add: compareLatency_def signed_ucast_eq unsigned_ucast_eq signed_take_bit_take_bit)
  also have "\<dots> = signed_take_bit 31 (int (unat a) - int (unat b))"
    by (simp only: signed_take_bit_take_bit take_bit_take_bit) simp
  also have "\<dots> = int (unat a) - int (unat b)"
  proof (rule signed_take_bit_int_eq_self)
    have "int (unat a) < int (2 ^ 31)" "int (unat b) < int (2 ^ 31)" using assms by (simp_all only: of_nat_less_iff)
    then have "int (unat a) < 2 ^ 31" "int (unat b) < 2 ^ 31" by (simp_all only: of_nat_power of_nat_numeral)
    moreover have "int m < 2 ^ 31 \<Longrightarrow> int n < 2 ^ 31 \<Longrightarrow>
        - (2 ^ 31) \<le> int m - int n \<and> int m - int n < 2 ^ 31" for m n by simp
    ultimately show "- (2 ^ 31) \<le> int (unat a) - int (unat b)" "int (unat a) - int (unat b) < 2 ^ 31"
      by blast+
  qed
  finally show ?thesis .
qed

lemma compareLatency_orders:
  assumes "\<And>l. l \<in> A \<Longrightarrow> unat l < 2 ^ 31"
  shows "orders compareLatency A"
proof -
  have diff: "compareLatency a b = int (unat a) - int (unat b)" if "a \<in> A" "b \<in> A" for a b
    using that assms by (intro compareLatency_diff)
  have "sgn (compareLatency a b) = - sgn (compareLatency b a)" if "a \<in> A" "b \<in> A" for a b
  proof -
    have "compareLatency a b = - compareLatency b a" using that by (simp add: diff)
    then show ?thesis by (simp only: sgn_minus)
  qed
  moreover have "compareLatency a c \<le> 0"
    if "a \<in> A" "b \<in> A" "c \<in> A" "compareLatency a b \<le> 0" "compareLatency b c \<le> 0" for a b c
    using that(4,5) unfolding diff [OF that(1,2)] diff [OF that(2,3)] diff [OF that(1,3)] by linarith
  ultimately show ?thesis unfolding orders_def by blast
qed

text \<open>The lines are taken at elements of the list, the last line at its last element.\<close>

lemma report_lines_elem:
  "(m, t) \<in> set (report_lines n c i ls) \<Longrightarrow> \<exists>j < length ls. m = Suc (i + j) \<and> t = ls ! j div 1000"
proof (induction n c i ls rule: report_lines.induct)
  case (2 n c i l ls)
  consider (here) "m = Suc i" "t = l div 1000"
    | (later) j where "j < length ls" "m = Suc (Suc i + j)" "t = ls ! j div 1000"
    using 2 by (fastforce split: if_splits)
  then show ?case
  proof cases
    case here
    then show ?thesis by (intro exI [of _ 0]) simp
  next
    case later
    then show ?thesis by (intro exI [of _ "Suc j"]) simp
  qed
qed simp

lemma report_lines_last:
  "ls \<noteq> [] \<Longrightarrow> n = i + length ls \<Longrightarrow>
   report_lines n c i ls \<noteq> [] \<and> last (report_lines n c i ls) = (n, last ls div 1000)"
proof (induction n c i ls rule: report_lines.induct)
  case (2 n c i l ls)
  then show ?case by (cases "ls = []") auto
qed simp

text \<open>In a sorted list the first elements are all below the one at a line.\<close>

lemma sorted_prefix_count:
  assumes "sorted_wrt R ls" "j < length ls" "P (ls ! j)" "\<And>a b. a \<in> set ls \<Longrightarrow> b \<in> set ls \<Longrightarrow> R a b \<Longrightarrow> P b \<Longrightarrow> P a"
  shows "Suc j \<le> length (filter P ls)"
proof -
  have "P l" if "l \<in> set (take (Suc j) ls)" for l
  proof -
    from that obtain k where k: "k < Suc j" "l = ls ! k" by (auto simp: in_set_conv_nth)
    show ?thesis
    proof (cases "k = j")
      case False
      then have "R l (ls ! j)" using k assms(1,2) by (simp add: sorted_wrt_iff_nth_less)
      then show ?thesis unfolding k(2) [symmetric] using assms(2,3) k by (intro assms(4) [of l "ls ! j"]) simp_all
    qed (use k assms(3) in simp)
  qed
  then have "filter P (take (Suc j) ls) = take (Suc j) ls" by simp
  moreover have "length (filter P ls) = length (filter P (take (Suc j) ls)) + length (filter P (drop (Suc j) ls))"
    by (metis append_take_drop_id filter_append length_append)
  ultimately show ?thesis using assms(2) by simp
qed

lemma length_filter_mset: "mset xs = mset ys \<Longrightarrow> length (filter P xs) = length (filter P ys)"
  by (metis mset_filter size_mset)

lemma unat_sum_list:
  "sum_list (map unat ws) < 2 ^ 64 \<Longrightarrow> unat (sum_list (ws :: u64 list)) = sum_list (map unat ws)"
proof (induction ws)
  case (Cons w ws)
  then have "unat (sum_list ws) = sum_list (map unat ws)" by simp
  then show ?case using Cons.prems by (simp add: unat_word_ariths)
qed simp

lemma sum_bound: "\<forall>l \<in> set ls. g l < (b :: nat) \<Longrightarrow> sum_list (map g ls) \<le> length ls * b"
  by (induction ls) (auto simp: add_mono less_imp_le)

lemma sum_list_mset: "mset xs = mset ys \<Longrightarrow> sum_list (map g xs) = (sum_list (map g ys) :: nat)"
  by (metis mset_map sum_mset_sum_list)

text \<open>The average: no sum of the latencies of fewer than \<open>2^32\<close> requests wraps.\<close>

lemma average_exact:
  assumes "length ls = unat n" "\<forall>l \<in> set ls. unat l < 2 ^ 31"
  shows "unat (sum_list (map (\<lambda>l. l div 1000) ls) div ucast (n :: u32) :: u64) =
    sum_list (map (\<lambda>l. unat l div 1000) ls) div unat n"
proof -
  have u: "map unat (map (\<lambda>l :: u64. l div 1000) ls) = map (\<lambda>l. unat l div 1000) ls"
    by (simp add: unat_div)
  have "\<forall>l \<in> set ls. unat l div 1000 < (2 :: nat) ^ 31"
    using assms(2) by (meson div_le_dividend le_less_trans)
  then have "sum_list (map (\<lambda>l. unat l div 1000) ls) \<le> unat n * 2 ^ 31"
    using sum_bound [of ls] assms(1) by metis
  also have "unat n < 2 ^ LENGTH(32)" by (rule unsigned_less)
  then have "unat n * 2 ^ 31 < 2 ^ 32 * 2 ^ 31" by (intro mult_strict_right_mono) simp_all
  also have "\<dots> < (2 :: nat) ^ 64" by simp
  finally have "unat (sum_list (map (\<lambda>l. l div 1000) ls)) = sum_list (map (\<lambda>l. unat l div 1000) ls)"
    using unat_sum_list [of "map (\<lambda>l. l div 1000) ls"] unfolding u by blast
  moreover have "unat (ucast n :: u64) = unat n" by transfer (simp add: take_bit_take_bit)
  ultimately show ?thesis by (simp add: unat_div)
qed

text \<open>The lines for sorted latencies.\<close>

lemma report_of_sorted:
  assumes "sorted ss" "ss \<noteq> []"
  shows "\<forall>(m, t) \<in> set (report_lines (length ss) 0 0 ss). m \<le> length (filter (\<lambda>l. l div 1000 \<le> t) ss)"
    "report_lines (length ss) 0 0 ss \<noteq> []"
    "last (report_lines (length ss) 0 0 ss) = (length ss, Max (set ss) div 1000)"
proof -
  show "\<forall>(m, t) \<in> set (report_lines (length ss) 0 0 ss). m \<le> length (filter (\<lambda>l. l div 1000 \<le> t) ss)"
  proof safe
    fix m t assume "(m, t) \<in> set (report_lines (length ss) 0 0 ss)"
    then obtain j where j: "j < length ss" "m = Suc j" "t = ss ! j div 1000"
      using report_lines_elem by fastforce
    have "Suc j \<le> length (filter (\<lambda>l. l div 1000 \<le> t) ss)"
    proof (rule sorted_prefix_count [OF assms(1) j(1)])
      fix a b :: u64 assume ab: "a \<le> b" "b div 1000 \<le> t"
      then have "a div 1000 \<le> b div 1000" by (simp add: word_le_nat_alt unat_div div_le_mono)
      then show "a div 1000 \<le> t" using ab(2) by simp
    qed (simp add: j(3))
    then show "m \<le> length (filter (\<lambda>l. l div 1000 \<le> t) ss)" using j(2) by simp
  qed
  have "a \<le> last ss" if a: "a \<in> set ss" for a
  proof -
    from a obtain j where "j < length ss" "a = ss ! j" by (auto simp: in_set_conv_nth)
    then show ?thesis using assms by (simp add: last_conv_nth sorted_nth_mono)
  qed
  then have "last ss = Max (set ss)" using assms(2) by (intro Max_eqI [symmetric]) simp_all
  then show "report_lines (length ss) 0 0 ss \<noteq> []"
    "last (report_lines (length ss) 0 0 ss) = (length ss, Max (set ss) div 1000)"
    using report_lines_last [OF assms(2), of "length ss" 0 0] by simp_all
qed

text \<open>C19. The final report is true. With the latencies below 35 minutes and a \<open>qsort\<close> that sorts,
  a report of at least one request is printed; each of its lines, so many requests within so
  many milliseconds, holds of the latencies recorded; the last line counts all requests and
  gives the longest time; and the average is that of the milliseconds, rounded down. A report of no
  request divides by zero.\<close>

theorem report_counts:
  assumes "qsort_documented qs" "unat (doneRequests s) \<le> length (latencies s)"
    and "\<forall>l \<in> set (take (unat (doneRequests s)) (latencies s)). unat l < 2 ^ 31"
  defines "ls \<equiv> take (unat (doneRequests s)) (latencies s)"
  shows "if doneRequests s = 0 then showReport qs s = Inl DivByZero
    else \<exists>r. showReport qs s = Inr r \<and>
      (\<forall>(m, t) \<in> set (rep_lines r). m \<le> length (filter (\<lambda>l. l div 1000 \<le> t) ls)) \<and>
      rep_lines r \<noteq> [] \<and>
      last (rep_lines r) = (length ls, Max (set ls) div 1000) \<and>
      unat (rep_average r) = sum_list (map (\<lambda>l. unat l div 1000) ls) div length ls"
proof (cases "doneRequests s = 0")
  case False
  define ss where "ss = qs compareLatency ls"
  have ord: "orders compareLatency (set ls)"
    by (rule compareLatency_orders) (use assms(3) in \<open>simp add: ls_def\<close>)
  then have perm: "mset ss = mset ls" and srt: "sorted_wrt (\<lambda>a b. compareLatency a b \<le> 0) ss"
    using assms(1) by (simp_all add: qsort_documented_def ss_def)
  have "length ss = length ls" using perm by (rule mset_eq_length)
  moreover have "set ss = set ls" using perm by (rule mset_eq_setD)
  ultimately have len: "length ls = unat (doneRequests s)" "length ss = length ls" "set ss = set ls"
    using assms(2) by (simp_all add: ls_def)
  have small: "\<forall>l \<in> set ss. unat l < 2 ^ 31" using assms(3) len(3) by (simp add: ls_def)
  have "a \<le> b" if "a \<in> set ss" "b \<in> set ss" "compareLatency a b \<le> 0" for a b
  proof -
    have "compareLatency a b = int (unat a) - int (unat b)"
      using that small by (intro compareLatency_diff) blast+
    then show ?thesis using that(3) unfolding word_le_nat_alt by linarith
  qed
  then have "sorted ss" using srt by (rule sorted_wrt_mono_rel)
  moreover have "ss \<noteq> []" using len(1,2) False by (auto simp: unat_eq_zero)
  moreover define lines where "lines = report_lines (length ls) 0 0 ss"
  ultimately have "\<forall>(m, t) \<in> set lines. m \<le> length (filter (\<lambda>l. l div 1000 \<le> t) ls)" "lines \<noteq> []"
      "last lines = (length ls, Max (set ls) div 1000)"
    using report_of_sorted [of ss] len(2,3) length_filter_mset [OF perm] by (simp_all add: lines_def)
  moreover have "unat (sum_list (map (\<lambda>l. l div 1000) ss) div ucast (doneRequests s) :: u64) =
      sum_list (map (\<lambda>l. unat l div 1000) ls) div length ls"
    using average_exact [of ss "doneRequests s"] len small sum_list_mset [OF perm] by simp
  moreover have "qs compareLatency (take (unat (doneRequests s)) (latencies s)) = ss"
    by (simp add: ss_def ls_def)
  then have "showReport qs s = Inr \<lparr>rep_lines = lines,
      rep_average = sum_list (map (\<lambda>l. l div 1000) ss) div ucast (doneRequests s),
      rep_sent = totalRequests s, rep_time = bench_end s - bench_start s\<rparr>"
    using False len(1) by (simp add: showReport_def Let_def lines_def)
  ultimately show ?thesis using False by simp
qed (simp add: showReport_def Let_def)

text \<open>An insertion sort does what the manual says of \<open>qsort\<close>.\<close>

fun ins :: "('a \<Rightarrow> 'a \<Rightarrow> int) \<Rightarrow> 'a \<Rightarrow> 'a list \<Rightarrow> 'a list" where
  "ins cmp x [] = [x]"
| "ins cmp x (y # ys) = (if cmp x y \<le> 0 then x # y # ys else y # ins cmp x ys)"

definition ins_sort :: "('a \<Rightarrow> 'a \<Rightarrow> int) \<Rightarrow> 'a list \<Rightarrow> 'a list" where
  "ins_sort cmp xs = foldr (ins cmp) xs []"

lemma ins_mset: "mset (ins cmp x ys) = add_mset x (mset ys)"
  by (induction ys) auto

lemma ins_set [simp]: "set (ins cmp x ys) = insert x (set ys)"
  by (induction ys) auto

lemma ins_sorted:
  assumes "orders cmp A"
  shows "x \<in> A \<Longrightarrow> set ys \<subseteq> A \<Longrightarrow> sorted_wrt (\<lambda>a b. cmp a b \<le> 0) ys \<Longrightarrow>
    sorted_wrt (\<lambda>a b. cmp a b \<le> 0) (ins cmp x ys)"
proof (induction ys)
  case (Cons y ys)
  show ?case
  proof (cases "cmp x y \<le> 0")
    case True
    then have "cmp x z \<le> 0" if "z \<in> set ys" for z
      using Cons.prems that by (intro ordersD(2) [OF assms, of x y z]) auto
    with True show ?thesis using Cons.prems by simp
  next
    case False
    moreover have "sgn (cmp x y) = - sgn (cmp y x)" using Cons.prems by (intro ordersD(1) [OF assms]) simp_all
    ultimately have "cmp y x \<le> 0" by (simp add: sgn_if split: if_splits)
    with False show ?thesis using Cons by simp
  qed
qed simp

lemma ins_sort_documented: "qsort_documented ins_sort"
proof -
  have "mset (ins_sort cmp xs) = mset xs" for cmp :: "'a \<Rightarrow> 'a \<Rightarrow> int" and xs
    by (induction xs) (simp_all add: ins_sort_def ins_mset)
  moreover have "sorted_wrt (\<lambda>a b. cmp a b \<le> 0) (ins_sort cmp xs) \<and> set (ins_sort cmp xs) = set xs"
    if "orders cmp A" "set xs \<subseteq> A" for cmp :: "'a \<Rightarrow> 'a \<Rightarrow> int" and xs A
    using that(2) by (induction xs) (simp_all add: ins_sort_def ins_sorted [OF that(1)])
  ultimately show ?thesis by (simp add: qsort_documented_def)
qed

definition demo_done :: bench where
  "demo_done = initConfig\<lparr>doneRequests := 3, latencies := [7000, 25000, 3000, 9]\<rparr>"

theorem report_counts_witness:
  "\<exists>r. showReport ins_sort demo_done = Inr r \<and> rep_lines r \<noteq> [] \<and> fst (last (rep_lines r)) = 3 \<and>
     unat (rep_average r) = 11"
proof -
  have d: "unat (doneRequests demo_done) = 3" "doneRequests demo_done \<noteq> 0"
      "latencies demo_done = [7000, 25000, 3000, 9]"
    by (simp_all add: demo_done_def)
  have t: "take (unat (doneRequests demo_done)) (latencies demo_done) = [7000, 25000, 3000]"
    unfolding d by (simp add: numeral_eq_Suc)
  have "unat (doneRequests demo_done) \<le> length (latencies demo_done)" unfolding d by simp
  moreover have "\<forall>l \<in> set (take (unat (doneRequests demo_done)) (latencies demo_done)). unat l < 2 ^ 31"
    unfolding t by simp
  ultimately obtain r where "showReport ins_sort demo_done = Inr r" "rep_lines r \<noteq> []"
      "last (rep_lines r) = (length [7000, 25000, 3000 :: u64], Max (set [7000, 25000, 3000]) div 1000)"
      "unat (rep_average r) = sum_list (map (\<lambda>l :: u64. unat l div 1000) [7000, 25000, 3000]) div
        length [7000, 25000, 3000 :: u64]"
    using report_counts [OF ins_sort_documented, of demo_done] d(2) unfolding t by auto
  moreover from this(3) have "fst (last (rep_lines r)) = 3" by simp
  moreover from calculation(4) have "unat (rep_average r) = 11" by simp
  ultimately have "showReport ins_sort demo_done = Inr r \<and> rep_lines r \<noteq> [] \<and>
      fst (last (rep_lines r)) = 3 \<and> unat (rep_average r) = 11" by blast
  then show ?thesis by blast
qed

end
