(* ===== verification/Instance.thy ===== *)
theory Instance
  imports Prelude
begin

text \<open>
  \<open>PubSubCenter::instance\<close> (\<open>src/src/pubsub/pub_sub.cc\<close>): the double-checked creation of
  the one center, called by any number of threads at once, as a step relation. A step is what
  a thread does to the shared pointer or the mutex; the pointer's unlocked read and its
  assignment are taken to be single steps, which the C++ memory model does not promise.
\<close>

section \<open>The calls\<close>

text \<open>
  Where a call is: before the first test, at the lock, before the second test, at
  \<open>make_shared\<close>, at the assignment of the center made, at the unlock, at the copy it returns,
  and returned. Centers are numbered as they are made.
\<close>

datatype inst_pc = FirstTest | AtLock | SecondTest | Making | Assigning nat | Unlocking | Copying
  | Returns "nat option"

record inst =
  inst_center :: "nat option"
  inst_holder :: "nat option"
  inst_made :: nat
  inst_at :: "nat \<Rightarrow> inst_pc"

definition no_instance :: inst where
  "no_instance = \<lparr>inst_center = None, inst_holder = None, inst_made = 0, inst_at = (\<lambda>_. FirstTest)\<rparr>"

definition goto :: "nat \<Rightarrow> inst_pc \<Rightarrow> inst \<Rightarrow> inst" where
  "goto i p s = s\<lparr>inst_at := (inst_at s)(i := p)\<rparr>"

text \<open>The next step of call \<open>i\<close>; \<open>None\<close> is that it waits for the mutex or has returned.\<close>

definition instance_step :: "nat \<Rightarrow> inst \<Rightarrow> inst option" where
  "instance_step i s = (case inst_at s i of
       FirstTest \<Rightarrow> Some (goto i (if inst_center s = None then AtLock else Copying) s)
     | AtLock \<Rightarrow> if inst_holder s = None then Some (goto i SecondTest (s\<lparr>inst_holder := Some i\<rparr>)) else None
     | SecondTest \<Rightarrow> Some (goto i (if inst_center s = None then Making else Unlocking) s)
     | Making \<Rightarrow> Some (goto i (Assigning (inst_made s)) (s\<lparr>inst_made := Suc (inst_made s)\<rparr>))
     | Assigning a \<Rightarrow> Some (goto i Unlocking (s\<lparr>inst_center := Some a\<rparr>))
     | Unlocking \<Rightarrow> Some (goto i Copying (s\<lparr>inst_holder := None\<rparr>))
     | Copying \<Rightarrow> Some (goto i (Returns (inst_center s)) s)
     | Returns c \<Rightarrow> None)"

inductive inst_reach :: "inst \<Rightarrow> bool" where
  inst_none: "inst_reach no_instance"
| inst_more: "inst_reach s \<Longrightarrow> instance_step i s = Some s' \<Longrightarrow> inst_reach s'"

section \<open>The invariant\<close>

text \<open>The calls between lock and unlock, and what each place promises of the shared state.\<close>

fun holds_lock :: "inst_pc \<Rightarrow> bool" where
  "holds_lock SecondTest = True"
| "holds_lock Making = True"
| "holds_lock (Assigning a) = True"
| "holds_lock Unlocking = True"
| "holds_lock _ = False"

fun place_ok :: "nat option \<Rightarrow> nat \<Rightarrow> inst_pc \<Rightarrow> bool" where
  "place_ok c n Making \<longleftrightarrow> c = None \<and> n = 0"
| "place_ok c n (Assigning a) \<longleftrightarrow> c = None \<and> a = 0 \<and> n = 1"
| "place_ok c n Unlocking \<longleftrightarrow> c = Some 0"
| "place_ok c n Copying \<longleftrightarrow> c = Some 0"
| "place_ok c n (Returns x) \<longleftrightarrow> c = Some 0 \<and> x = Some 0"
| "place_ok c n _ \<longleftrightarrow> True"

definition inst_inv :: "inst \<Rightarrow> bool" where
  "inst_inv s \<longleftrightarrow> (\<forall>i. holds_lock (inst_at s i) \<longleftrightarrow> inst_holder s = Some i) \<and>
     (\<forall>i. place_ok (inst_center s) (inst_made s) (inst_at s i)) \<and>
     inst_made s \<le> 1 \<and> (inst_center s \<noteq> None \<longrightarrow> inst_center s = Some 0 \<and> inst_made s = 1) \<and>
     (inst_made s = 1 \<and> inst_center s = None \<longrightarrow> (\<exists>i. inst_at s i = Assigning 0))"

lemma goto_simps [simp]:
  "inst_center (goto i p s) = inst_center s" "inst_holder (goto i p s) = inst_holder s"
  "inst_made (goto i p s) = inst_made s" "inst_at (goto i p s) = (inst_at s)(i := p)"
  by (simp_all add: goto_def)

lemma instance_stepE:
  assumes "instance_step i s = Some s'"
  obtains (first) "inst_at s i = FirstTest" "s' = goto i (if inst_center s = None then AtLock else Copying) s"
  | (lock) "inst_at s i = AtLock" "inst_holder s = None" "s' = goto i SecondTest (s\<lparr>inst_holder := Some i\<rparr>)"
  | (second) "inst_at s i = SecondTest" "s' = goto i (if inst_center s = None then Making else Unlocking) s"
  | (make) "inst_at s i = Making" "s' = goto i (Assigning (inst_made s)) (s\<lparr>inst_made := Suc (inst_made s)\<rparr>)"
  | (assign) a where "inst_at s i = Assigning a" "s' = goto i Unlocking (s\<lparr>inst_center := Some a\<rparr>)"
  | (unlock) "inst_at s i = Unlocking" "s' = goto i Copying (s\<lparr>inst_holder := None\<rparr>)"
  | (copy) "inst_at s i = Copying" "s' = goto i (Returns (inst_center s)) s"
  using assms by (cases "inst_at s i") (auto simp: instance_step_def split: if_splits)

text \<open>One holder at most, and the centers made so far tell where it can be.\<close>

lemma one_holder:
  "inst_inv s \<Longrightarrow> holds_lock (inst_at s i) \<Longrightarrow> holds_lock (inst_at s j) \<Longrightarrow> i = j"
  by (simp add: inst_inv_def)

lemma none_made:
  assumes "inst_inv s" "inst_center s = None" "inst_at s i = SecondTest"
  shows "inst_made s = 0"
proof (rule ccontr)
  assume "inst_made s \<noteq> 0"
  moreover have "inst_made s \<le> 1" using assms(1) by (simp add: inst_inv_def)
  ultimately have "inst_made s = 1" by simp
  then obtain j where "inst_at s j = Assigning 0" using assms(1,2) by (auto simp: inst_inv_def)
  with one_holder [OF assms(1), of i j] assms(3) show False by simp
qed

lemma holders_step:
  assumes "inst_inv s" "instance_step i s = Some s'"
  shows "\<forall>j. holds_lock (inst_at s' j) \<longleftrightarrow> inst_holder s' = Some j"
proof -
  have lk: "holds_lock (inst_at s j) \<longleftrightarrow> inst_holder s = Some j" for j
    using assms(1) by (simp add: inst_inv_def)
  from assms(2) show ?thesis
    by (cases rule: instance_stepE) (use lk [of i] in \<open>auto simp: lk\<close>)
qed

lemma places_step:
  assumes "inst_inv s" "instance_step i s = Some s'"
  shows "place_ok (inst_center s') (inst_made s') (inst_at s' j)"
proof -
  have at: "place_ok (inst_center s) (inst_made s) (inst_at s k)" for k using assms(1) by (simp add: inst_inv_def)
  have alone: "\<not> holds_lock (inst_at s j)" if "j \<noteq> i" "holds_lock (inst_at s i)"
    using one_holder [OF assms(1)] that by blast
  from assms(2) show ?thesis
  proof (cases rule: instance_stepE)
    case second
    then show ?thesis using at [of j] none_made [OF assms(1) _ second(1)] assms(1)
      by (auto simp: inst_inv_def)
  next
    case make
    then show ?thesis using at [of j] at [of i] alone by (cases "inst_at s j") auto
  next
    case (assign a)
    then show ?thesis using at [of j] at [of i] alone by (cases "inst_at s j") auto
  qed (use at [of j] at [of i] assms(1) in \<open>auto simp: inst_inv_def\<close>)
qed

lemma inst_inv_step:
  assumes "inst_inv s" "instance_step i s = Some s'"
  shows "inst_inv s'"
proof -
  have at: "place_ok (inst_center s) (inst_made s) (inst_at s i)" using assms(1) by (simp add: inst_inv_def)
  have old: "inst_made s \<le> 1" "inst_center s \<noteq> None \<Longrightarrow> inst_center s = Some 0 \<and> inst_made s = 1"
      "inst_made s = 1 \<Longrightarrow> inst_center s = None \<Longrightarrow> \<exists>k. inst_at s k = Assigning 0"
    using assms(1) by (simp_all add: inst_inv_def)
  have other: "inst_at s i \<noteq> Assigning 0 \<Longrightarrow> inst_made s = 1 \<Longrightarrow> inst_center s = None \<Longrightarrow>
      \<exists>k. k \<noteq> i \<and> inst_at s k = Assigning 0"
    using old(3) by metis
  have "inst_made s' \<le> 1 \<and> (inst_center s' \<noteq> None \<longrightarrow> inst_center s' = Some 0 \<and> inst_made s' = 1) \<and>
      (inst_made s' = 1 \<and> inst_center s' = None \<longrightarrow> (\<exists>k. inst_at s' k = Assigning 0))"
    using assms(2)
  proof (cases rule: instance_stepE)
    case make
    then show ?thesis using at old by auto
  next
    case (assign a)
    then show ?thesis using at by auto
  qed (use old(1,2) other in \<open>auto split: if_splits\<close>)
  then show ?thesis using holders_step [OF assms] places_step [OF assms] by (simp add: inst_inv_def)
qed

lemma inst_reach_inv: "inst_reach s \<Longrightarrow> inst_inv s"
proof (induction rule: inst_reach.induct)
  case inst_none
  then show ?case by (simp add: inst_inv_def no_instance_def)
qed (rule inst_inv_step)

section \<open>Runs\<close>

text \<open>A run by its schedule, the calls in the order they step.\<close>

fun inst_run :: "nat list \<Rightarrow> inst \<Rightarrow> inst option" where
  "inst_run [] s = Some s"
| "inst_run (i # is) s = (case instance_step i s of None \<Rightarrow> None | Some s' \<Rightarrow> inst_run is s')"

lemma inst_run_reach: "inst_reach s \<Longrightarrow> inst_run js s = Some s' \<Longrightarrow> inst_reach s'"
  by (induction js arbitrary: s) (auto split: option.splits intro: inst_more)

fun steps_left :: "inst_pc \<Rightarrow> nat" where
  "steps_left FirstTest = 7"
| "steps_left AtLock = 6"
| "steps_left SecondTest = 5"
| "steps_left Making = 4"
| "steps_left (Assigning a) = 3"
| "steps_left Unlocking = 2"
| "steps_left Copying = 1"
| "steps_left (Returns c) = 0"

lemma step_counts:
  assumes "instance_step i s = Some s'" "finite A" "i \<in> A"
  shows "(\<Sum>j\<in>A. steps_left (inst_at s' j)) < (\<Sum>j\<in>A. steps_left (inst_at s j))"
proof -
  have "steps_left (inst_at s' i) < steps_left (inst_at s i) \<and> (\<forall>j. j \<noteq> i \<longrightarrow> inst_at s' j = inst_at s j)"
    using assms(1) by (cases rule: instance_stepE) auto
  then show ?thesis using assms(2,3) by (intro sum_strict_mono_ex1) (auto, metis less_imp_le order_refl)
qed

lemma run_length:
  assumes "finite A"
  shows "inst_run js s = Some s' \<Longrightarrow> set js \<subseteq> A \<Longrightarrow>
    length js + (\<Sum>j\<in>A. steps_left (inst_at s' j)) \<le> (\<Sum>j\<in>A. steps_left (inst_at s j))"
proof (induction js arbitrary: s)
  case (Cons i js)
  from Cons.prems obtain t where t: "instance_step i s = Some t" "inst_run js t = Some s'"
    by (auto split: option.splits)
  from Cons.IH [OF t(2)] step_counts [OF t(1) assms, of] Cons.prems(2) show ?case by simp
qed simp

text \<open>The places of calls that never started.\<close>

lemma run_frame: "inst_run js s = Some s' \<Longrightarrow> j \<notin> set js \<Longrightarrow> inst_at s' j = inst_at s j"
proof (induction js arbitrary: s)
  case (Cons i js)
  from Cons.prems obtain t where t: "instance_step i s = Some t" "inst_run js t = Some s'"
    by (auto split: option.splits)
  from t(1) have "inst_at t j = inst_at s j" using Cons.prems(2) by (cases rule: instance_stepE) auto
  then show ?case using Cons.IH [OF t(2)] Cons.prems(2) by simp
qed simp

text \<open>What keeps a call from moving: it has returned, or another holds the mutex, which can move.\<close>

lemma holder_moves: "holds_lock (inst_at s h) \<Longrightarrow> instance_step h s \<noteq> None"
  by (cases "inst_at s h") (simp_all add: instance_step_def)

lemma stuck_step:
  assumes "instance_step i s = None" "\<And>h. inst_holder s = Some h \<Longrightarrow> False"
  shows "\<exists>c. inst_at s i = Returns c"
  using assms by (cases "inst_at s i"; cases "inst_holder s") (auto simp: instance_step_def)

text \<open>C33. There is one center. However the calls of \<open>instance\<close> interleave, the mutex and the two
  tests let one center be made, and every call that returns returns that one.\<close>

theorem one_center:
  assumes "inst_reach s" "inst_at s i = Returns c" "inst_at s j = Returns d"
  shows "c = d \<and> c \<noteq> None \<and> inst_center s = c \<and> inst_made s = 1"
proof -
  have inv: "inst_inv s" using assms(1) by (rule inst_reach_inv)
  then have "place_ok (inst_center s) (inst_made s) (Returns c)"
    "place_ok (inst_center s) (inst_made s) (Returns d)"
    using assms(2,3) by (metis inst_inv_def)+
  then show ?thesis using inv by (simp add: inst_inv_def)
qed

text \<open>Two calls that both find no center at their first test.\<close>

abbreviation race_schedule :: "nat list" where
  "race_schedule \<equiv> [0, 1, 0, 0, 0, 0, 0, 0, 1, 1, 1, 1]"

lemma race_runs: "\<exists>s. inst_run race_schedule no_instance = Some s \<and>
    inst_at s 0 = Returns (Some 0) \<and> inst_at s 1 = Returns (Some 0)"
  by (simp add: no_instance_def instance_step_def goto_def)

theorem one_center_witness:
  "\<exists>s. inst_reach s \<and> inst_at s 0 = Returns (Some 0) \<and> inst_at s 1 = Returns (Some 0) \<and> inst_made s = 1"
proof -
  obtain s where s: "inst_run race_schedule no_instance = Some s" "inst_at s 0 = Returns (Some 0)"
      "inst_at s 1 = Returns (Some 0)" using race_runs by blast
  have "inst_reach s" using inst_none s(1) by (rule inst_run_reach)
  from one_center [OF this s(2,3)] s this show ?thesis by blast
qed

text \<open>C34. Every call of \<open>instance\<close> returns. A run of finitely many calls makes at most seven steps a
  call, and when none of them can move any more, each has returned: the mutex never blocks
  them for good.\<close>

theorem instance_returns:
  assumes "finite A" "set js \<subseteq> A" "inst_run js no_instance = Some s"
  shows "length js \<le> 7 * card A \<and>
    ((\<forall>i \<in> A. instance_step i s = None) \<longrightarrow> (\<forall>i \<in> A. \<exists>c. inst_at s i = Returns c))"
proof (intro conjI impI ballI)
  have "(\<Sum>j\<in>A. steps_left (inst_at no_instance j)) = 7 * card A" by (simp add: no_instance_def)
  then show "length js \<le> 7 * card A" using run_length [OF assms(1,3,2)] by simp
next
  fix i assume stuck: "\<forall>i \<in> A. instance_step i s = None" and i: "i \<in> A"
  have inv: "inst_inv s" using inst_run_reach [OF inst_none assms(3)] by (rule inst_reach_inv)
  show "\<exists>c. inst_at s i = Returns c"
  proof (rule stuck_step)
    show "instance_step i s = None" using stuck i by blast
    fix h assume "inst_holder s = Some h"
    then have h: "holds_lock (inst_at s h)" using inv by (simp add: inst_inv_def)
    then have "inst_at s h \<noteq> FirstTest" by auto
    then have "h \<in> A" using run_frame [OF assms(3), of h] assms(2) by (auto simp: no_instance_def)
    with stuck have "instance_step h s = None" by (rule bspec)
    with holder_moves [OF h] show False by (rule notE)
  qed
qed

theorem instance_returns_witness:
  "\<exists>s. inst_run race_schedule no_instance = Some s \<and> length race_schedule \<le> 7 * card {0, 1 :: nat} \<and>
     (\<forall>i \<in> {0, 1}. \<exists>c. inst_at s i = Returns c)"
proof -
  obtain s where s: "inst_run race_schedule no_instance = Some s" "inst_at s 0 = Returns (Some 0)"
      "inst_at s 1 = Returns (Some 0)" using race_runs by blast
  have "finite {0, 1 :: nat}" "set race_schedule \<subseteq> {0, 1}" by simp_all
  from instance_returns [OF this s(1)] have "length race_schedule \<le> 7 * card {0, 1 :: nat}" by blast
  moreover have "\<forall>i \<in> {0, 1}. instance_step i s = None" using s(2,3) by (simp add: instance_step_def)
  then have "\<forall>i \<in> {0, 1}. \<exists>c. inst_at s i = Returns c"
    using instance_returns [OF \<open>finite {0, 1}\<close> \<open>set race_schedule \<subseteq> {0, 1}\<close> s(1)] by blast
  ultimately show ?thesis using s(1) by blast
qed

end
