(* ===== verification/Sockets.thy ===== *)
theory Sockets
  imports Inet
begin

text \<open>
  The object \<open>StreamSocket\<close> (\<open>src/src/network/stream_socket.cc\<close>) and the life of the one the
  server listens on (\<open>tcp_server.cc\<close>, \<open>acceptor.hpp\<close>): which system calls it makes, in which
  order. The kernel answers each call after the history of the calls so far.
\<close>

section \<open>The object\<close>

datatype sock_option = ReuseAddr | ReusePort

datatype scall =
    KSocket
  | KBind fd sockaddr_in
  | KListen fd int
  | KOption fd sock_option
  | KAccept fd
  | KFcntl fd u32
  | KClose fd

type_synonym scalls = "(scall \<times> int) list"

type_synonym sock_kernel = "scalls \<Rightarrow> scall \<Rightarrow> int"

definition sock_call :: "sock_kernel \<Rightarrow> scall \<Rightarrow> scalls \<Rightarrow> int \<times> scalls" where
  "sock_call k c h = (k h c, h @ [(c, k h c)])"

text \<open>A call whose answer is asserted not to be -1.\<close>

definition asserted :: "sock_kernel \<Rightarrow> scall \<Rightarrow> scalls \<Rightarrow> (int \<times> scalls) result" where
  "asserted k c h = (let (r, h') = sock_call k c h in if r \<noteq> -1 then Inr (r, h') else Inl AssertFailed)"

record stream_socket =
  ss_fd :: fd
  ss_ip :: string
  ss_port :: string

definition socket_of_fd :: "fd \<Rightarrow> stream_socket result" where
  "socket_of_fd sockfd =
     (if 0 \<le> sockfd then Inr \<lparr>ss_fd = sockfd, ss_ip = [], ss_port = []\<rparr> else Inl AssertFailed)"

definition socket_bindAddr ::
  "(string \<Rightarrow> u32) \<Rightarrow> sock_kernel \<Rightarrow> stream_socket \<Rightarrow> scalls \<Rightarrow> (int \<times> scalls) result" where
  "socket_bindAddr inet_aton k s h =
     asserted k (KBind (ss_fd s) (bind_sockaddr inet_aton (ss_ip s) (ss_port s))) h"

definition make_socket ::
  "(string \<Rightarrow> u32) \<Rightarrow> sock_kernel \<Rightarrow> string \<Rightarrow> string \<Rightarrow> scalls \<Rightarrow> (stream_socket \<times> scalls) result" where
  "make_socket inet_aton k ip port h =
     (let (f, h1) = sock_call k KSocket h; s = \<lparr>ss_fd = f, ss_ip = ip, ss_port = port\<rparr> in
      if 0 \<le> f then bindR (socket_bindAddr inet_aton k s h1) (\<lambda>(_, h2). Inr (s, h2))
      else Inl AssertFailed)"

definition socket_listen :: "sock_kernel \<Rightarrow> stream_socket \<Rightarrow> scalls \<Rightarrow> (int \<times> scalls) result" where
  "socket_listen k s h = asserted k (KListen (ss_fd s) 50) h"

text \<open>\<open>err\<close> is \<open>errno\<close> after the call.\<close>

definition socket_accept :: "sock_kernel \<Rightarrow> int \<Rightarrow> stream_socket \<Rightarrow> scalls \<Rightarrow> (int \<times> scalls) result" where
  "socket_accept k err s h =
     (let (ret, h') = sock_call k (KAccept (ss_fd s)) h in
      bindR (accept_answer ret err) (\<lambda>r. Inr (r, h')))"

definition close_socket :: "sock_kernel \<Rightarrow> stream_socket \<Rightarrow> scalls \<Rightarrow> scalls" where
  "close_socket k s h = snd (sock_call k (KClose (ss_fd s)) h)"

definition destroy_socket :: "sock_kernel \<Rightarrow> stream_socket \<Rightarrow> scalls \<Rightarrow> scalls" where
  "destroy_socket k s h = snd (sock_call k (KClose (ss_fd s)) h)"

definition reuseAddrPort :: "sock_kernel \<Rightarrow> stream_socket \<Rightarrow> scalls \<Rightarrow> scalls result" where
  "reuseAddrPort k s h =
     bindR (asserted k (KOption (ss_fd s) ReuseAddr) h) (\<lambda>(_, h1).
     bindR (asserted k (KOption (ss_fd s) ReusePort) h1) (\<lambda>(_, h2). Inr h2))"

section \<open>The listening socket\<close>

text \<open>
  What the constructor of \<open>TcpServer\<close> does with its socket: it makes it, the acceptor's
  constructor listens, it listens again, sets the options and calls \<open>setNonBlocking\<close>.
\<close>

definition sock_fcntl :: "sock_kernel \<Rightarrow> fd \<Rightarrow> u32 \<Rightarrow> u32 option \<Rightarrow> scalls \<Rightarrow> u32 \<times> scalls" where
  "sock_fcntl k f cmd arg h = (let (r, h') = sock_call k (KFcntl f cmd) h in (word_of_int r, h'))"

definition acceptor_listens :: "sock_kernel \<Rightarrow> fd \<Rightarrow> scalls \<Rightarrow> scalls result" where
  "acceptor_listens k f h = bindR (listen_fd (\<lambda>f n. k h (KListen f n)) f 50)
     (\<lambda>r. Inr (h @ [(KListen f 50, r)]))"

definition listening_socket ::
  "(string \<Rightarrow> u32) \<Rightarrow> sock_kernel \<Rightarrow> string \<Rightarrow> string \<Rightarrow> scalls \<Rightarrow> (stream_socket \<times> scalls) result" where
  "listening_socket inet_aton k ip port h =
     bindR (make_socket inet_aton k ip port h) (\<lambda>(s, h1).
     bindR (acceptor_listens k (ss_fd s) h1) (\<lambda>h2.
     bindR (socket_listen k s h2) (\<lambda>(_, h3).
     bindR (reuseAddrPort k s h3) (\<lambda>h4.
       Inr (s, setNonBlocking (sock_fcntl k) (ss_fd s) h4)))))"

text \<open>The end of \<open>~TcpServer\<close>, and its member's destructor.\<close>

definition release_socket :: "sock_kernel \<Rightarrow> stream_socket \<Rightarrow> scalls \<Rightarrow> scalls" where
  "release_socket k s h = destroy_socket k s (close_socket k s h)"

section \<open>The options come too late\<close>

text \<open>
  What the manual says of \<open>bind\<close>: while the address lingers after an earlier server, it is
  refused to a socket on which \<open>SO_REUSEADDR\<close> has not been set before.
\<close>

definition bind_documented :: "sock_kernel \<Rightarrow> (sockaddr_in \<Rightarrow> bool) \<Rightarrow> bool" where
  "bind_documented k lingers \<longleftrightarrow>
     (\<forall>h f a. lingers a \<and> (\<forall>r. (KOption f ReuseAddr, r) \<notin> set h) \<longrightarrow> k h (KBind f a) = -1)"

definition calls_of :: "scalls \<Rightarrow> scall list" where
  "calls_of h = map fst h"

lemma calls_simps [simp]: "calls_of [] = []" "calls_of (h @ h') = calls_of h @ calls_of h'"
  "calls_of ((c, r) # h) = c # calls_of h"
  by (simp_all add: calls_of_def)

text \<open>The server's listening socket. When its construction succeeds, the system calls made are
  exactly these, in this order: the socket is bound and listens, twice, before the address
  may be reused. Hence, while the address lingers from an earlier run, construction fails on
  an assertion, as if the options were never set.\<close>

theorem listening_calls:
  assumes "bind_documented k lingers"
  shows "case listening_socket inet_aton k ip port [] of
      Inl err \<Rightarrow> err = AssertFailed
    | Inr (s, h) \<Rightarrow> \<not> lingers (bind_sockaddr inet_aton ip port) \<and>
        (\<exists>c. calls_of h = [KSocket, KBind (ss_fd s) (bind_sockaddr inet_aton ip port),
          KListen (ss_fd s) 50, KListen (ss_fd s) 50, KOption (ss_fd s) ReuseAddr,
          KOption (ss_fd s) ReusePort, KFcntl (ss_fd s) F_GETFL, KFcntl (ss_fd s) c])"
  using assms
  by (auto simp: listening_socket_def make_socket_def socket_bindAddr_def acceptor_listens_def
      listen_fd_def socket_listen_def reuseAddrPort_def asserted_def sock_call_def setNonBlocking_def
      sock_fcntl_def bind_documented_def Let_def bindR_def split: sum.splits if_splits)

text \<open>A kernel on which port 80 lingers and everything else succeeds.\<close>

definition port_80 :: "sockaddr_in \<Rightarrow> bool" where
  "port_80 a \<longleftrightarrow> sin_port a = htons 80"

fun demo_sock :: sock_kernel where
  "demo_sock h (KBind f a) = (if port_80 a \<and> (KOption f ReuseAddr, 0) \<notin> set h then -1 else 0)"
| "demo_sock h KSocket = 3"
| "demo_sock h _ = 0"

lemma demo_sock_documented: "bind_documented demo_sock port_80"
  by (auto simp: bind_documented_def)

lemma demo_ports: "port_80 (bind_sockaddr g ''0.0.0.0'' ''80'')"
    "\<not> port_80 (bind_sockaddr g ''0.0.0.0'' ''81'')"
  by (simp_all add: port_80_def bind_sockaddr_def c_str_def atoi_def is_space_def is_digit_def htons_def)

theorem listening_calls_witness:
  "listening_socket (\<lambda>_. 0) demo_sock ''0.0.0.0'' ''80'' [] = Inl AssertFailed \<and>
   (\<exists>s h. listening_socket (\<lambda>_. 0) demo_sock ''0.0.0.0'' ''81'' [] = Inr (s, h) \<and> length h = 8)"
proof
  note calls = listening_calls [OF demo_sock_documented, of "\<lambda>_. 0" "''0.0.0.0''"]
  show "listening_socket (\<lambda>_. 0) demo_sock ''0.0.0.0'' ''80'' [] = Inl AssertFailed"
    using calls [of "''80''"] demo_ports(1) by (auto split: sum.splits)
  have "\<exists>s h. listening_socket (\<lambda>_. 0) demo_sock ''0.0.0.0'' ''81'' [] = Inr (s, h)"
    using demo_ports(2) [of "\<lambda>_. 0"]
    by (simp add: listening_socket_def make_socket_def socket_bindAddr_def acceptor_listens_def
        listen_fd_def socket_listen_def reuseAddrPort_def asserted_def sock_call_def Let_def)
  with calls [of "''81''"] show "\<exists>s h. listening_socket (\<lambda>_. 0) demo_sock ''0.0.0.0'' ''81'' [] = Inr (s, h) \<and>
      length h = 8"
    by (auto simp: calls_of_def dest: arg_cong [of _ _ length])
qed

end
