(* ===== verification/Program.thy ===== *)
theory Program
  imports Loop_Group Sockets
begin

text \<open>
  The server as it is built and run: the constructor of \<open>TcpServer\<close>
  (\<open>src/src/network/tcp_server.cc\<close>) with all the members it makes, in their order, and the
  program it starts, whose steps are rounds of the accept loop, of the group's threads, and
  calls of \<open>stop\<close>.
\<close>

section \<open>Construction\<close>

text \<open>
  The threads that run when the constructor of \<open>EventLoop\<close> throws: one for each demultiplexer
  made before. Unwinding, the destructor of the group joins them, and none ever returns, so
  that with one thread started the construction does not return either: \<open>None\<close>.
\<close>

definition threads_started :: "int \<Rightarrow> (nat \<times> int) list \<Rightarrow> nat" where
  "threads_started n news = length (takeWhile (\<lambda>q. 0 \<le> snd q) (take (nat n) news))"

definition construct_loop ::
  "int \<Rightarrow> (nat \<times> int) list \<Rightarrow> ids \<Rightarrow> reactor \<Rightarrow> (ids \<times> event_loop \<times> reactor) result option" where
  "construct_loop subloop news i r =
     (case make_event_loop subloop news i r of
        Inr x \<Rightarrow> Some (Inr x)
      | Inl err \<Rightarrow> if caught err \<and> threads_started subloop news \<noteq> 0 then None else Some (Inl err))"

text \<open>The server with the members it is built of.\<close>

record tcp_server =
  ts_server :: server
  ts_socket :: stream_socket
  ts_acceptor :: acceptor
  ts_loop :: event_loop

definition bare_reactor :: "center \<Rightarrow> reactor" where
  "bare_reactor c = \<lparr>r_center = c, r_dmps = Map.empty, conn_map = Map.empty, total_conn = 0,
     outbox = [], syslog = []\<rparr>"

text \<open>The identifiers \<open>dmpForLoopGroup\<close> gives access to, in the order of the demultiplexers.\<close>

definition dmp_ids :: "reactor \<Rightarrow> group \<Rightarrow> u16 list" where
  "dmp_ids r g = map (\<lambda>a. case r_dmps r a of None \<Rightarrow> 0 | Some d \<Rightarrow> demux_pubID d) (group_dmp g)"

text \<open>
  The constructor: \<open>self\<close> and \<open>acc\<close> are the addresses of the server and of its acceptor,
  \<open>news\<close> the addresses and epoll instances of the demultiplexers, \<open>h\<close> the history of the
  socket's system calls.
\<close>

definition make_tcp_server ::
  "(string \<Rightarrow> u32) \<Rightarrow> sock_kernel \<Rightarrow> nat \<Rightarrow> nat \<Rightarrow> string \<Rightarrow> string \<Rightarrow> int \<Rightarrow> (nat \<times> int) list \<Rightarrow>
   ids \<Rightarrow> scalls \<Rightarrow> center \<Rightarrow> (tcp_server \<times> ids \<times> scalls \<times> reactor) result option" where
  "make_tcp_server inet_aton k self acc ip port subloop news i h c =
     (let (sid, i1) = sub_id Tcp_server_cc i; (pid, i2) = pub_id Tcp_server_cc i1 in
      bindO (Some (make_socket inet_aton k ip port h)) (\<lambda>(s, h1).
      bindO (Some (acceptor_listens k (ss_fd s) h1)) (\<lambda>h2.
      bindO (Some (make_acceptor (\<lambda>f n. k h1 (KListen f n)) acc (ss_fd s) Tcp_server_cc i2 c))
        (\<lambda>(a, i3, c1).
      bindO (construct_loop subloop news i3 (bare_reactor c1)) (\<lambda>(i4, el, r).
      bindO (Some (socket_listen k s h2)) (\<lambda>(_, h3).
      bindO (Some (reuseAddrPort k s h3)) (\<lambda>h4.
      let h5 = setNonBlocking (sock_fcntl k) (ss_fd s) h4 in
      bindO (Some (wire subscribe (server_events (acc_id a) (dmp_ids r (el_group el))) self (r_center r)))
        (\<lambda>c2.
        Some (Inr (\<lparr>ts_server = \<lparr>srv_addr = self, srv_sub_id = sid, srv_pub_id = pid\<rparr>,
                     ts_socket = s, ts_acceptor = a, ts_loop = el\<rparr>, i4, h5, r\<lparr>r_center := c2\<rparr>))))))))))"

section \<open>The demultiplexers of a group\<close>

text \<open>The demultiplexers a loop of \<open>init\<close> makes, the first under identifier \<open>m\<close>.\<close>

fun demux_list :: "u16 \<Rightarrow> (nat \<times> int) list \<Rightarrow> demux list" where
  "demux_list m [] = []"
| "demux_list m ((a, epfd) # news) =
     \<lparr>dmp_id = m, dmpfd = epfd, notify_on = True\<rparr> # demux_list (m + 1) news"

definition counted :: "nat \<Rightarrow> ids \<Rightarrow> ids" where
  "counted n i = i\<lparr>PublisherID := (PublisherID i)
     (Demultiplex_cc := PublisherID i Demultiplex_cc + word_of_nat n)\<rparr>"

fun announced :: "u16 \<Rightarrow> (nat \<times> int) list \<Rightarrow> center \<Rightarrow> center" where
  "announced m [] c = c"
| "announced m ((a, epfd) # news) c = announced (m + 1) news (c\<lparr>publishers := emplace (publishers c) m a\<rparr>)"

lemma counted_simps [simp]: "counted 0 i = i"
  "counted n (i\<lparr>PublisherID := (PublisherID i)(Demultiplex_cc := PublisherID i Demultiplex_cc + 1)\<rparr>) =
     counted (Suc n) i"
  by (simp_all add: counted_def add.assoc)

lemmas dmp_ids_eq = dmp_ids_def [unfolded group_dmp_def demux_pubID_def]

lemma length_demux_list [simp]: "length (demux_list m news) = length news"
  by (induction m news rule: demux_list.induct) auto

lemma demux_list_ids: "map dmp_id (demux_list m news) = map (\<lambda>j. m + word_of_nat j) [0..<length news]"
proof (induction m news rule: demux_list.induct)
  case (2 m a epfd news)
  have "[0..<Suc (length news)] = 0 # map Suc [0..<length news]"
    by (simp add: map_Suc_upt upt_conv_Cons del: upt_Suc)
  with 2 show ?case by (simp add: comp_def add.assoc)
qed simp

lemma demux_list_notify: "d \<in> set (demux_list m news) \<Longrightarrow> notify_on d"
  by (induction m news rule: demux_list.induct) auto

lemma announced_frame [simp]:
  "subcribers (announced m news c) = subcribers c" "traffic_map (announced m news c) = traffic_map c"
  "registered (announced m news c) p \<longleftrightarrow> registered c p \<or> p \<in> set (map dmp_id (demux_list m news))"
  by (induction m news c rule: announced.induct) (auto simp: registered_def emplace_def split: option.splits)

lemma announced_ok: "center_ok c \<Longrightarrow> center_ok (announced m news c)"
  by (induction m news c rule: announced.induct) (auto simp: center_ok_def)

text \<open>\<open>init\<close> as an equation: the group with the demultiplexers made, each registered.\<close>

lemma init_loop_eq:
  "\<forall>q \<in> set news. 0 \<le> snd q \<Longrightarrow>
   init_loop news i g r = Inr (counted (length news) i,
     g\<lparr>g_dmps := g_dmps g @ map fst news, g_done := g_done g @ replicate (length news) False\<rparr>,
     r\<lparr>r_center := announced (PublisherID i Demultiplex_cc) news (r_center r),
       r_dmps := (r_dmps r)(map fst news [\<mapsto>] demux_list (PublisherID i Demultiplex_cc) news)\<rparr>)"
proof (induction news i g r rule: init_loop.induct)
  case (2 self epfd news i g r)
  then show ?case
    by (simp add: make_demux_def pub_id_def registerPub_def replicate_app_Cons_same flip: fun_upd_def)
qed simp

lemma make_event_loop_eq:
  fixes i :: ids
  assumes "1 \<le> subloop" "nat subloop \<le> length news" "\<forall>q \<in> set (take (nat subloop) news). 0 \<le> snd q"
  defines "new \<equiv> take (nat subloop) news" and "m \<equiv> PublisherID i Demultiplex_cc"
  shows "make_event_loop subloop news i r = Inr (counted (nat subloop) i,
     \<lparr>el_stop = False, el_group = \<lparr>g_stop = False, g_dmps = map fst new,
        g_done = replicate (nat subloop) False, g_notify = True, g_iter = 0\<rparr>\<rparr>,
     r\<lparr>r_center := announced m new (r_center r),
       r_dmps := (r_dmps r)(map fst new [\<mapsto>] demux_list m new)\<rparr>)"
proof -
  have "length new = nat subloop" using assms(2) by (simp add: new_def)
  with init_loop_eq [of new i "make_group True" r] assms(1,3) show ?thesis
    by (simp add: make_event_loop_def group_init_def make_group_def new_def m_def)
qed

section \<open>The constructed server\<close>

text \<open>A kernel that grants every call.\<close>

definition obliging :: "sock_kernel \<Rightarrow> bool" where
  "obliging k \<longleftrightarrow> (\<forall>h c. 0 \<le> k h c)"

lemma obliging_calls:
  assumes "obliging k"
  shows "\<exists>s h1. make_socket inet_aton k ip port h = Inr (s, h1)"
    and "\<exists>h'. acceptor_listens k f h = Inr h'"
    and "\<exists>x. socket_listen k s h = Inr x"
    and "\<exists>h'. reuseAddrPort k s h = Inr h'"
    and "\<exists>a. acc_id a = fst (pub_id t i) \<and> make_acceptor (\<lambda>f n. k h (KListen f n)) self f t i c =
      Inr (a, snd (pub_id t i), c\<lparr>publishers := emplace (publishers c) (acc_id a) self\<rparr>)"
proof -
  have k: "0 \<le> k h c" "k h c \<noteq> -1" for h c using assms by (auto simp: obliging_def dest: spec2 [of _ h c])
  show "\<exists>s h1. make_socket inet_aton k ip port h = Inr (s, h1)"
    using k by (simp add: make_socket_def socket_bindAddr_def asserted_def sock_call_def)
  show "\<exists>h'. acceptor_listens k f h = Inr h'"
    using k by (simp add: acceptor_listens_def listen_fd_def)
  show "\<exists>x. socket_listen k s h = Inr x"
    using k by (simp add: socket_listen_def asserted_def sock_call_def)
  show "\<exists>h'. reuseAddrPort k s h = Inr h'"
    using k by (simp add: reuseAddrPort_def asserted_def sock_call_def Let_def)
  show "\<exists>a. acc_id a = fst (pub_id t i) \<and> make_acceptor (\<lambda>f n. k h (KListen f n)) self f t i c =
      Inr (a, snd (pub_id t i), c\<lparr>publishers := emplace (publishers c) (acc_id a) self\<rparr>)"
    using k by (simp add: make_acceptor_def listen_fd_def registerPub_def pub_id_def)
qed

text \<open>Where the demultiplexers made lie.\<close>

lemma map_of_rev_eq: "distinct (map fst xs) \<Longrightarrow> map_of (rev xs) = map_of xs"
  by (rule ext, metis map_of_eq_Some_iff not_None_eq distinct_rev rev_map set_rev)

lemma made_dmps:
  assumes "distinct (map fst new)"
  shows "map (\<lambda>a. case (Map.empty(map fst new [\<mapsto>] demux_list m new)) a of None \<Rightarrow> 0 | Some d \<Rightarrow> dmp_id d)
      (map fst new) = map dmp_id (demux_list m new)"
    and "dom (Map.empty(map fst new [\<mapsto>] demux_list m new)) = fst ` set new"
    and "(Map.empty(map fst new [\<mapsto>] demux_list m new)) a = Some d \<Longrightarrow> d \<in> set (demux_list m new)"
proof -
  let ?ds = "demux_list m new"
  have M: "Map.empty(map fst new [\<mapsto>] ?ds) = map_of (zip (map fst new) ?ds)"
    using assms by (simp add: map_upds_def map_of_rev_eq)
  show "map (\<lambda>a. case (Map.empty(map fst new [\<mapsto>] ?ds)) a of None \<Rightarrow> 0 | Some d \<Rightarrow> dmp_id d)
      (map fst new) = map dmp_id ?ds"
    unfolding M
  proof (intro nth_equalityI)
    fix j assume "j < length (map (\<lambda>a. case map_of (zip (map fst new) ?ds) a of None \<Rightarrow> 0 | Some d \<Rightarrow> dmp_id d)
        (map fst new))"
    then show "map (\<lambda>a. case map_of (zip (map fst new) ?ds) a of None \<Rightarrow> 0 | Some d \<Rightarrow> dmp_id d)
        (map fst new) ! j = map dmp_id ?ds ! j"
      using map_of_zip_nth [of "map fst new" ?ds j] assms by (simp del: map_of_eq_Some_iff map_map)
  qed simp
  show "dom (Map.empty(map fst new [\<mapsto>] ?ds)) = fst ` set new"
    unfolding M by (simp add: dom_map_of_zip)
  show "(Map.empty(map fst new [\<mapsto>] ?ds)) a = Some d \<Longrightarrow> d \<in> set ?ds"
    unfolding M by (auto dest!: map_of_SomeD set_zip_rightD)
qed

lemma init_loop_descriptors: "init_loop news i g r = Inr x \<Longrightarrow> \<forall>q \<in> set news. 0 \<le> snd q"
proof (induction news arbitrary: i g r)
  case (Cons q news)
  obtain a epfd where q: "q = (a, epfd)" by (cases q)
  with Cons.prems obtain i' g' r' where "0 \<le> epfd" "init_loop news i' g' r' = Inr x"
    by (auto simp: make_demux_def result_simps split: if_splits prod.splits)
  with Cons.IH q show ?case by auto
qed simp

lemma init_loop_error: "init_loop news i g r = Inl err \<Longrightarrow> caught err"
proof (induction news arbitrary: i g r)
  case (Cons q news)
  obtain a epfd where q: "q = (a, epfd)" by (cases q)
  with Cons.prems consider "caught err" | i' g' r' where "init_loop news i' g' r' = Inl err"
    by (auto simp: make_demux_def registerPub_def result_simps split: if_splits prod.splits)
  with Cons.IH show ?case by cases auto
qed simp

lemma make_event_loop_made:
  assumes "make_event_loop subloop news i r = Inr x"
  shows "1 \<le> subloop \<and> (\<forall>q \<in> set (take (nat subloop) news). 0 \<le> snd q)"
  using assms
  by (auto simp: make_event_loop_def group_init_def result_simps split: if_splits dest!: init_loop_descriptors)

text \<open>What a constructor that returned leaves.\<close>

definition server_made :: "nat \<Rightarrow> center \<Rightarrow> nat list \<Rightarrow> tcp_server \<Rightarrow> reactor \<Rightarrow> bool" where
  "server_made self c as ts r \<longleftrightarrow>
     started (ts_server ts) r \<and> srv_addr (ts_server ts) = self \<and> \<not> el_stop (ts_loop ts) \<and>
     g_dmps (el_group (ts_loop ts)) = as \<and> dom (r_dmps r) = set as \<and>
     group_ok (el_group (ts_loop ts)) \<and> g_notify (el_group (ts_loop ts)) \<and>
     running (el_group (ts_loop ts)) \<and> center_ok (r_center r) \<and>
     (\<forall>p t. center_targets (r_center r) p t =
        (if p \<in> set (dmp_ids r (el_group (ts_loop ts))) \<and> served t \<or> p = acc_id (ts_acceptor ts) \<and> t = ACCEPTED
         then insert self (center_targets c p t) else center_targets c p t))"

lemma registerPub_ok:
  assumes "registerPub p (Some a) c = Inr c1" "center_ok c"
  shows "center_ok c1 \<and> subcribers c1 = subcribers c \<and> (registered c1 q \<longleftrightarrow> registered c q \<or> q = p)"
proof -
  have c1: "c1 = c\<lparr>publishers := emplace (publishers c) p a\<rparr>" using assms(1) by (simp add: registerPub_def)
  have "registered c' q \<longleftrightarrow> q \<in> dom (publishers c')" for c' by (simp add: registered_def domIff)
  with assms(2) show ?thesis by (auto simp: c1 center_ok_def)
qed

lemma wire_made:
  assumes "center_ok c" "\<forall>p t. served t \<longrightarrow> center_targets c p t = {}"
    and "distinct (map fst new)" "new \<noteq> []" "registerPub aid (Some acc) c = Inr c1"
    and "r = (bare_reactor c1)\<lparr>r_center := announced m new c1,
      r_dmps := Map.empty(map fst new [\<mapsto>] demux_list m new)\<rparr>"
    and "g = \<lparr>g_stop = False, g_dmps = map fst new, g_done = replicate (length new) False, g_notify = True,
      g_iter = 0\<rparr>"
  shows "\<exists>c2. wire subscribe (server_events aid (dmp_ids r g)) self (r_center r) = Inr c2 \<and>
    (\<forall>sid pid s i. server_made self c (map fst new)
      \<lparr>ts_server = \<lparr>srv_addr = self, srv_sub_id = sid, srv_pub_id = pid\<rparr>, ts_socket = s,
       ts_acceptor = \<lparr>acc_id = aid, acc_server = i\<rparr>, ts_loop = \<lparr>el_stop = False, el_group = g\<rparr>\<rparr>
      (r\<lparr>r_center := c2\<rparr>))"
proof -
  let ?ds = "demux_list m new" and ?c = "announced m new c1"
  have c1: "center_ok c1" "subcribers c1 = subcribers c" "registered c1 aid"
    using registerPub_ok [OF assms(5,1)] by auto
  have ids: "dmp_ids r g = map dmp_id ?ds"
    using made_dmps(1) [OF assms(3), of m] assms(6,7) by (simp add: dmp_ids_eq)
  have ok: "center_ok ?c" using announced_ok [OF c1(1)] .
  have tg: "center_targets ?c = center_targets c"
    using c1(2) by (intro ext) (simp add: targets_of_ok [OF ok] targets_of_ok [OF assms(1)])
  obtain c2 where c2: "wire subscribe (server_events aid (map dmp_id ?ds)) self ?c = Inr c2"
      "registered c2 = registered ?c"
      "center_targets c2 = (\<lambda>p t. if (p, t) \<in> set (server_events aid (map dmp_id ?ds)) \<and> registered ?c p
         then insert self (center_targets c p t) else center_targets c p t)"
    using bus.wire_sub [of "server_events aid (map dmp_id ?ds)" self ?c] unfolding tg by blast
  have ok2: "center_ok c2" using wire_subscribe_ok [OF c2(1) ok] .
  have reg: "registered ?c p" if "(p, t) \<in> set (server_events aid (map dmp_id ?ds))" for p t
    using that c1(3) by (auto simp: server_events_iff)
  have "wired \<lparr>srv_addr = self, srv_sub_id = sid, srv_pub_id = pid\<rparr> (r\<lparr>r_center := c2\<rparr>) d"
    if "r_dmps r a = Some d" for a d sid pid
  proof -
    have d: "d \<in> set ?ds" using that made_dmps(3) [OF assms(3), of m] assms(6) by simp
    then have "registered ?c (dmp_id d)" by simp
    with d ok2 assms(2) show ?thesis
      by (intro wired_targets) (auto simp: c2 server_events_iff demux_list_notify)
  qed
  moreover have "(p, t) \<in> set (server_events aid (map dmp_id ?ds)) \<and> registered ?c p \<longleftrightarrow>
      p \<in> set (map dmp_id ?ds) \<and> served t \<or> p = aid \<and> t = ACCEPTED" for p t
    using reg [of p t] by (auto simp: server_events_iff)
  ultimately show ?thesis
    using c2 ok2 ids assms(3,4,6,7) made_dmps(2) [OF assms(3), of m]
    by (intro exI [of _ c2]) (auto simp: server_made_def started_def bare_reactor_def group_ok_def dmp_ids_eq running_def
        list_all_length)
qed

text \<open>The parts a constructor that returned has made, one after the other.\<close>

lemma make_tcp_server_parts:
  assumes "nat subloop \<le> length news"
    and "make_tcp_server inet_aton k self acc ip port subloop news i h c = Some (Inr (ts, i', h', r))"
  defines "new \<equiv> take (nat subloop) news" and "m \<equiv> PublisherID i Demultiplex_cc"
  obtains s and a :: acceptor and c1 c2 g r1 where
    "registerPub (acc_id a) (Some acc) c = Inr c1" "acc_id a = PublisherID i Tcp_server_cc + 1"
    "new \<noteq> []" "g = \<lparr>g_stop = False, g_dmps = map fst new, g_done = replicate (length new) False,
      g_notify = True, g_iter = 0\<rparr>"
    "r1 = (bare_reactor c1)\<lparr>r_center := announced m new c1, r_dmps := Map.empty(map fst new [\<mapsto>] demux_list m new)\<rparr>"
    "wire subscribe (server_events (acc_id a) (dmp_ids r1 g)) self (r_center r1) = Inr c2"
    "ts = \<lparr>ts_server = \<lparr>srv_addr = self, srv_sub_id = SubscriberID i Tcp_server_cc, srv_pub_id = PublisherID i Tcp_server_cc\<rparr>,
      ts_socket = s, ts_acceptor = \<lparr>acc_id = acc_id a, acc_server = acc_server a\<rparr>,
      ts_loop = \<lparr>el_stop = False, el_group = g\<rparr>\<rparr>"
    "r = r1\<lparr>r_center := c2\<rparr>"
    "PublisherID i' = (PublisherID i)(Tcp_server_cc := acc_id a + 1,
      Demultiplex_cc := m + word_of_nat (length new))"
proof -
  obtain sid i1 pid i2 where ids: "sub_id Tcp_server_cc i = (sid, i1)" "pub_id Tcp_server_cc i1 = (pid, i2)"
    by (meson surj_pair)
  from assms(2) obtain s h1 a i3 c1 el r1 h3 c2 where
    1: "make_acceptor (\<lambda>f n. k h1 (KListen f n)) acc (ss_fd s) Tcp_server_cc i2 c = Inr (a, i3, c1)"
      "construct_loop subloop news i3 (bare_reactor c1) = Some (Inr (i', el, r1))"
      "wire subscribe (server_events (acc_id a) (dmp_ids r1 (el_group el))) self (r_center r1) = Inr c2"
      "ts = \<lparr>ts_server = \<lparr>srv_addr = self, srv_sub_id = sid, srv_pub_id = pid\<rparr>,
             ts_socket = s, ts_acceptor = a, ts_loop = el\<rparr>" "r = r1\<lparr>r_center := c2\<rparr>"
    by (auto simp: make_tcp_server_def ids result_simps)
  from 1(1) have a: "registerPub (acc_id a) (Some acc) c = Inr c1" "pub_id Tcp_server_cc i2 = (acc_id a, i3)"
    by (auto simp: make_acceptor_def result_simps split: prod.splits)
  from 1(2) have el: "make_event_loop subloop news i3 (bare_reactor c1) = Inr (i', el, r1)"
    by (auto simp: construct_loop_def split: sum.splits if_splits)
  note made = make_event_loop_made [OF el]
  let ?g = "\<lparr>g_stop = False, g_dmps = map fst new, g_done = replicate (length new) False,
      g_notify = True, g_iter = 0\<rparr>"
  have len: "length new = nat subloop" using assms(1) by (simp add: new_def)
  have i3: "PublisherID i3 = (PublisherID i)(Tcp_server_cc := acc_id a + 1)"
      "sid = SubscriberID i Tcp_server_cc" "pid = PublisherID i Tcp_server_cc"
      "acc_id a = PublisherID i Tcp_server_cc + 1"
    using ids a(2) by (auto simp: sub_id_def pub_id_def)
  then have m: "PublisherID i3 Demultiplex_cc = m" by (simp add: m_def)
  have "el = \<lparr>el_stop = False, el_group = ?g\<rparr>"
    and r1: "r1 = (bare_reactor c1)\<lparr>r_center := announced m new c1,
      r_dmps := Map.empty(map fst new [\<mapsto>] demux_list m new)\<rparr>" and i': "i' = counted (length new) i3"
    using el made make_event_loop_eq [OF _ assms(1), of i3 "bare_reactor c1"] len
    by (simp_all add: bare_reactor_def m new_def)
  moreover have "new \<noteq> []" using made len by auto
  moreover have "PublisherID i' = (PublisherID i)(Tcp_server_cc := acc_id a + 1,
      Demultiplex_cc := m + word_of_nat (length new))"
    using i' i3(1) m by (simp add: counted_def)
  ultimately show thesis
    using that [of a c1 ?g r1 c2 s] a(1) 1(3-5) i3(2-4) by simp
qed

lemma make_tcp_server_made:
  assumes "center_ok c" "\<forall>p t. served t \<longrightarrow> center_targets c p t = {}"
    and "nat subloop \<le> length news" "distinct (map fst (take (nat subloop) news))"
    and "make_tcp_server inet_aton k self acc ip port subloop news i h c = Some (Inr (ts, i', h', r))"
  shows "server_made self c (map fst (take (nat subloop) news)) ts r"
proof (rule make_tcp_server_parts [OF assms(3,5)])
  let ?new = "take (nat subloop) news" and ?m = "PublisherID i Demultiplex_cc"
  fix s and a :: acceptor and c1 c2 g r1
  assume a: "registerPub (acc_id a) (Some acc) c = Inr c1" and new: "?new \<noteq> []"
    and g: "g = \<lparr>g_stop = False, g_dmps = map fst ?new, g_done = replicate (length ?new) False,
      g_notify = True, g_iter = 0\<rparr>"
    and r1: "r1 = (bare_reactor c1)\<lparr>r_center := announced ?m ?new c1,
      r_dmps := Map.empty(map fst ?new [\<mapsto>] demux_list ?m ?new)\<rparr>"
    and w: "wire subscribe (server_events (acc_id a) (dmp_ids r1 g)) self (r_center r1) = Inr c2"
    and ts: "ts = \<lparr>ts_server = \<lparr>srv_addr = self, srv_sub_id = SubscriberID i Tcp_server_cc, srv_pub_id = PublisherID i Tcp_server_cc\<rparr>,
      ts_socket = s, ts_acceptor = \<lparr>acc_id = acc_id a, acc_server = acc_server a\<rparr>,
      ts_loop = \<lparr>el_stop = False, el_group = g\<rparr>\<rparr>" and r: "r = r1\<lparr>r_center := c2\<rparr>"
  from wire_made [OF assms(1,2,4) new a r1 g, of self] w show ?thesis
    by (metis Inr_inject ts r)
qed

lemma make_tcp_server_returns:
  assumes "obliging k" "1 \<le> subloop" "nat subloop \<le> length news"
    and "\<forall>q \<in> set (take (nat subloop) news). 0 \<le> snd q"
  shows "\<exists>x. make_tcp_server inet_aton k self acc ip port subloop news i h c = Some (Inr x)"
proof -
  obtain sid i1 pid i2 where ids: "sub_id Tcp_server_cc i = (sid, i1)" "pub_id Tcp_server_cc i1 = (pid, i2)"
    by (meson surj_pair)
  note calls = obliging_calls [OF assms(1)]
  obtain s h1 where s: "make_socket inet_aton k ip port h = Inr (s, h1)" using calls(1) by blast
  obtain h2 where h2: "acceptor_listens k (ss_fd s) h1 = Inr h2" using calls(2) by blast
  obtain a i3 c1 where a: "make_acceptor (\<lambda>f n. k h1 (KListen f n)) acc (ss_fd s) Tcp_server_cc i2 c = Inr (a, i3, c1)"
    using calls(5) by blast
  obtain el i4 r where el: "construct_loop subloop news i3 (bare_reactor c1) = Some (Inr (i4, el, r))"
    using make_event_loop_eq [OF assms(2-4)] by (simp add: construct_loop_def)
  obtain n h3 where h3: "socket_listen k s h2 = Inr (n, h3)" using calls(3) by (metis surj_pair)
  obtain h4 where h4: "reuseAddrPort k s h3 = Inr h4" using calls(4) by blast
  obtain c2 where "wire subscribe (server_events (acc_id a) (dmp_ids r (el_group el))) self (r_center r) = Inr c2"
    using bus.wire_sub by blast
  then show ?thesis
    by (simp add: make_tcp_server_def ids s h2 a el h3 h4)
qed

text \<open>A kernel that grants everything, and two demultiplexers.\<close>

definition demo_kernel :: sock_kernel where
  "demo_kernel h c = 3"

definition demo_news :: "(nat \<times> int) list" where
  "demo_news = [(1, 4), (2, 5)]"

lemma demo_obliging: "obliging demo_kernel"
  by (simp add: obliging_def demo_kernel_def)

lemma demo_news_take [simp]: "take 2 demo_news = [(1, 4), (2, 5)]"
  by (simp add: demo_news_def eval_nat_numeral)

lemma new_center_silent: "\<forall>p t. served t \<longrightarrow> center_targets new_center p t = {}"
  by (simp add: center_targets_eq new_center_def sub_entry_def)

lemma demo_made:
  "\<exists>ts i' h' r. make_tcp_server (\<lambda>_. 0) demo_kernel 42 7 ''0.0.0.0'' ''80'' 2 demo_news fresh_ids [] new_center =
      Some (Inr (ts, i', h', r)) \<and> server_made 42 new_center [1, 2] ts r"
proof -
  have len: "nat 2 \<le> length demo_news" by (simp add: demo_news_def)
  have "\<exists>x. make_tcp_server (\<lambda>_. 0) demo_kernel 42 7 ''0.0.0.0'' ''80'' 2 demo_news fresh_ids []
      new_center = Some (Inr x)"
    by (rule make_tcp_server_returns [OF demo_obliging _ len]) simp_all
  then obtain ts i' h' r where made: "make_tcp_server (\<lambda>_. 0) demo_kernel 42 7 ''0.0.0.0'' ''80'' 2 demo_news fresh_ids []
      new_center = Some (Inr (ts, i', h', r))"
    by (metis surj_pair)
  with make_tcp_server_made [OF new_center_ok new_center_silent len _ made] show ?thesis by auto
qed

text \<open>C10. The constructor of the server. In a center where nobody hears the events of
  demultiplexers yet, and with a kernel that grants its calls, it returns, having made the
  demultiplexers asked for, in order; the server hears their events, alone, and the
  acceptor's; every other event reaches whom it reached before; and the state it leaves is
  one in which the server starts, with the group's cursor on a demultiplexer.\<close>

theorem server_constructs:
  assumes "center_ok c" "\<forall>p t. served t \<longrightarrow> center_targets c p t = {}"
    and "obliging k" "1 \<le> subloop" "nat subloop \<le> length news"
    and "\<forall>q \<in> set (take (nat subloop) news). 0 \<le> snd q" "distinct (map fst (take (nat subloop) news))"
  shows "\<exists>ts i' h' r. make_tcp_server inet_aton k self acc ip port subloop news i h c = Some (Inr (ts, i', h', r)) \<and>
    started (ts_server ts) r \<and> \<not> el_stop (ts_loop ts) \<and> group_ok (el_group (ts_loop ts)) \<and>
    g_dmps (el_group (ts_loop ts)) = map fst (take (nat subloop) news) \<and>
    dom (r_dmps r) = set (g_dmps (el_group (ts_loop ts))) \<and>
    (\<forall>p t. center_targets (r_center r) p t =
       (if p \<in> set (dmp_ids r (el_group (ts_loop ts))) \<and> served t then {self}
        else if p = acc_id (ts_acceptor ts) \<and> t = ACCEPTED then insert self (center_targets c p t)
        else center_targets c p t))"
proof -
  obtain ts i' h' r where made: "make_tcp_server inet_aton k self acc ip port subloop news i h c = Some (Inr (ts, i', h', r))"
    using make_tcp_server_returns [OF assms(3-6)] by (metis surj_pair)
  have "server_made self c (map fst (take (nat subloop) news)) ts r"
    using make_tcp_server_made [OF assms(1,2,5,7) made] .
  with made assms(2) show ?thesis
    by (intro exI [of _ ts] exI [of _ i'] exI [of _ h'] exI [of _ r]) (auto simp: server_made_def)
qed

theorem server_constructs_witness:
  "\<exists>ts i' h' r. make_tcp_server (\<lambda>_. 0) demo_kernel 42 7 ''0.0.0.0'' ''80'' 2 demo_news fresh_ids [] new_center =
      Some (Inr (ts, i', h', r)) \<and> started (ts_server ts) r \<and> g_dmps (el_group (ts_loop ts)) = [1, 2]"
  using server_constructs [OF new_center_ok new_center_silent, of demo_kernel 2 demo_news "\<lambda>_. 0" 42 7
      "''0.0.0.0''" "''80''" fresh_ids "[]"] demo_obliging demo_news_take
  by (simp add: demo_news_def) blast

text \<open>
  When an epoll instance after the first is refused, the constructor does not throw: it never
  returns, waiting for the threads it has started.
\<close>

theorem refused_epoll_hangs:
  assumes "nat n \<le> length news" "j < nat n" "0 < j" "\<forall>l < j. 0 \<le> snd (news ! l)" "snd (news ! j) < 0"
  shows "construct_loop n news i r = None"
proof -
  have "make_event_loop n news i r \<noteq> Inr x" for x
  proof
    assume "make_event_loop n news i r = Inr x"
    from make_event_loop_made [OF this] have "\<forall>q \<in> set (take (nat n) news). 0 \<le> snd q" by simp
    moreover have "news ! j \<in> set (take (nat n) news)"
      using assms(1,2) by (auto simp: in_set_conv_nth)
    ultimately show False using assms(5) by auto
  qed
  then obtain err where err: "make_event_loop n news i r = Inl err"
    by (cases "make_event_loop n news i r") auto
  with assms(2) have "init_loop (take (nat n) news) i (make_group True) r = Inl err"
    by (auto simp: make_event_loop_def group_init_def result_simps split: if_splits prod.splits)
  then have "caught err" by (rule init_loop_error)
  moreover have "takeWhile (\<lambda>q. 0 \<le> snd q) (take (nat n) news) \<noteq> []"
    using assms(1-4) by (cases news; cases "nat n") auto
  ultimately show ?thesis using err by (simp add: construct_loop_def threads_started_def)
qed

theorem refused_epoll_hangs_witness:
  "construct_loop 2 [(1, 4), (2, -1)] fresh_ids (bare_reactor new_center) = None"
  using refused_epoll_hangs [of 2 "[(1, 4), (2, -1)]" 1] by simp

section \<open>The running program\<close>

text \<open>The clients of a delivery that are handed on, and the batches an event gives rise to.\<close>

definition ready_clients :: "reactor \<Rightarrow> resp list \<Rightarrow> fd list" where
  "ready_clients r eps = map resp_fd (filter (\<lambda>q. ready q \<and> resp_fd q \<in> dom (conn_map r)) eps)"

lemma distinct_ready_clients: "distinct (map resp_fd eps) \<Longrightarrow> distinct (ready_clients r eps)"
  by (simp add: ready_clients_def distinct_map_filter)

fun gathered :: "loop_event \<Rightarrow> group \<Rightarrow> reactor \<Rightarrow> fd list list" where
  "gathered (ThreadRound e k eps) g r =
     (if k < length (g_dmps g) \<and> k < length (g_done g) \<and> eps \<noteq> [] then [ready_clients r eps] else [])"
| "gathered _ g r = []"

text \<open>A reactor in which every notification reaches whom it reached before.\<close>

definition same_subs :: "reactor \<Rightarrow> reactor \<Rightarrow> bool" where
  "same_subs r r' \<longleftrightarrow> same_wires (r_center r) (r_center r')"

lemma same_subs_refl [simp]: "same_subs r r"
  by (simp add: same_subs_def)

lemma same_subs_others: "same_subs r r' \<Longrightarrow> others sv (r_center r') p t = others sv (r_center r) p t"
  by (simp add: same_subs_def same_wires_def others_def notify_targets_def Let_def)

text \<open>
  The kernel's contract for an event: \<open>accept\<close> never answers with a descriptor that is open,
  and a wait delivers at most one event of a descriptor. The build defines \<open>Debug\<close>.
\<close>

fun sane :: "loop_event \<Rightarrow> reactor \<Rightarrow> bool" where
  "sane (MainRound e ret) r \<longleftrightarrow> e_debug e \<and> (0 \<le> ret \<longrightarrow> conn_map r ret = None)"
| "sane (ThreadRound e k eps) r \<longleftrightarrow> distinct (map resp_fd eps)"
| "sane StopCalled r \<longleftrightarrow> True"

inductive program_step :: "server \<Rightarrow> event_loop \<times> reactor \<Rightarrow> event_loop \<times> reactor \<Rightarrow> bool" for sv where
  event: "sane ev r \<Longrightarrow> loop_do sv ev (el, r) = Inr s \<Longrightarrow> program_step sv (el, r) s"

inductive_cases program_stepE: "program_step sv (el, r) s"

text \<open>The states reached from a constructor that returned.\<close>

inductive program_reach :: "server \<Rightarrow> event_loop \<times> reactor \<Rightarrow> bool" where
  constructed: "center_ok c \<Longrightarrow> \<forall>p t. served t \<longrightarrow> center_targets c p t = {} \<Longrightarrow>
    nat subloop \<le> length news \<Longrightarrow> distinct (map fst (take (nat subloop) news)) \<Longrightarrow>
    make_tcp_server inet_aton k self acc ip port subloop news i h c = Some (Inr (ts, i', h', r)) \<Longrightarrow>
    program_reach (ts_server ts) (ts_loop ts, r)"
| stepped: "program_reach sv s \<Longrightarrow> program_step sv s s' \<Longrightarrow> program_reach sv s'"

definition program_inv :: "server \<Rightarrow> event_loop \<times> reactor \<Rightarrow> bool" where
  "program_inv sv s \<longleftrightarrow> server_reach sv (snd s) \<and> group_ok (el_group (fst s)) \<and>
     g_notify (el_group (fst s)) \<and> running (el_group (fst s)) \<and> dom (r_dmps (snd s)) = set (g_dmps (el_group (fst s)))"

lemma program_inv_constructed:
  assumes "server_made self c as ts r"
  shows "program_inv (ts_server ts) (ts_loop ts, r)"
  using assms server_reach.start by (simp add: server_made_def program_inv_def)

lemma program_invD:
  assumes "program_inv sv (el, r)"
  shows "server_reach sv r" "group_ok (el_group el)" "g_notify (el_group el)"
    and "a \<in> set (g_dmps (el_group el)) \<Longrightarrow> \<exists>d. r_dmps r a = Some d"
  using assms by (auto simp: program_inv_def)

lemma main_round_inv:
  assumes "program_inv sv (el, r)" "e_debug e" "0 \<le> ret \<longrightarrow> conn_map r ret = None"
  shows "\<exists>el' r'. loop_round e sv ret el r = Inr (el', r') \<and> program_inv sv (el', r') \<and>
    same_subs r r' \<and> outbox r' = outbox r \<and> g_dmps (el_group el') = g_dmps (el_group el) \<and>
    g_done (el_group el') = g_done (el_group el) \<and> el_stop el' = el_stop el \<and>
    dom (conn_map r') = (if el_stop el \<or> ret < 0 then dom (conn_map r) else insert ret (dom (conn_map r))) \<and>
    (\<not> el_stop el \<and> 0 \<le> ret \<longrightarrow> (\<exists>c. conn_map r' = (conn_map r)(ret \<mapsto> c) \<and> addr c = e_peer e ret) \<and>
       r_center r' = account (toString (e_peer e ret)) 0 (r_center r))"
proof (cases "el_stop el \<or> ret < 0")
  case True
  then have "loop_round e sv ret el r = Inr (el, r)"
    by (auto simp: loop_round_def acceptor_accept_def)
  with assms(1) True show ?thesis by auto
next
  case False
  let ?g = "el_group el"
  note inv = program_invD [OF assms(1)]
  from dmps.step_law [OF inv(2)] obtain g' where g': "next_dmp ?g = Inr (g_dmps ?g ! g_iter ?g, g')"
      "group_ok g'" "g_dmps g' = g_dmps ?g"
    by blast
  have "g_dmps ?g ! g_iter ?g \<in> set (g_dmps ?g)" using inv(2) by (simp add: group_ok_def)
  from inv(4) [OF this] obtain d where d: "r_dmps r (g_dmps ?g ! g_iter ?g) = Some d" by blast
  have "conn_map r ret = None" using assms(3) False by simp
  from accept_step [OF inv(1) d this assms(2)] obtain r' where
    r': "server_accept e sv (g_dmps ?g ! g_iter ?g) d ret r = Inr r'" "server_reach sv r'" "r_dmps r' = r_dmps r"
      "outbox r' = outbox r" "same_subs r r'" "dom (conn_map r') = insert ret (dom (conn_map r))"
      "\<exists>c. conn_map r' = (conn_map r)(ret \<mapsto> c) \<and> addr c = e_peer e ret"
      "r_center r' = account (toString (e_peer e ret)) 0 (r_center r)"
    unfolding same_subs_def same_wires_def by metis
  have "g_notify g' = g_notify ?g" "g_done g' = g_done ?g" using g'(1) by (auto simp: next_dmp_def split: if_splits)
  moreover have "running g'" using next_dmp_frame [OF g'(1)] assms(1) by (simp add: program_inv_def running_def)
  ultimately show ?thesis using False g' d r' inv(3) assms(1)
    by (simp add: loop_round_def acceptor_accept_def registerFd_def program_inv_def)
qed

text \<open>A thread's round is a delivery to the server.\<close>

lemma thread_round_wait:
  assumes "g_notify g" "k < length (g_dmps g)" "k < length (g_done g)" "\<not> g_done g ! k" "\<not> g_stop g"
    "r_dmps r (g_dmps g ! k) = Some d"
  shows "thread_round e sv k eps g r = bindR (server_wait e sv d eps r) (\<lambda>r'. Inr (g, r'))"
  using assms by (simp add: thread_round_def server_wait_def bindR_assoc case_prod_unfold)

lemma thread_round_inv:
  assumes "program_inv sv (el, r)" "distinct (map resp_fd eps)"
  shows "\<exists>g' r'. thread_round e sv k eps (el_group el) r = Inr (g', r') \<and>
    program_inv sv (el\<lparr>el_group := g'\<rparr>, r') \<and> same_subs r r' \<and> g_dmps g' = g_dmps (el_group el) \<and>
    g_done g' = g_done (el_group el) \<and> traffic_map (r_center r') = traffic_map (r_center r) \<and>
    (k < length (g_dmps (el_group el)) \<and> k < length (g_done (el_group el)) \<longrightarrow>
       conn_map r' = conn_map r |` (- gone eps)) \<and>
    outbox r' = outbox r @ concat (map (\<lambda>b. map (\<lambda>a. (a, LoadBalanceCtx (pub_code BALANCE) b))
      (others sv (r_center r) (srv_pub_id sv) BALANCE)) (gathered (ThreadRound e k eps) (el_group el) r))"
proof -
  let ?g = "el_group el"
  note inv = program_invD [OF assms(1)]
  consider "length (g_dmps ?g) \<le> k \<or> length (g_done ?g) \<le> k \<or> g_done ?g ! k"
    | "k < length (g_dmps ?g)" "k < length (g_done ?g)" "\<not> g_done ?g ! k" "g_stop ?g"
    | "k < length (g_dmps ?g)" "k < length (g_done ?g)" "\<not> g_done ?g ! k" "\<not> g_stop ?g"
    by linarith
  then show ?thesis
  proof cases
    case 1
    moreover have "\<not> g_done ?g ! k" if "k < length (g_done ?g)"
      using that assms(1) by (simp add: program_inv_def running_def list_all_length)
    ultimately have "gathered (ThreadRound e k eps) ?g r = []"
      "\<not> (k < length (g_dmps ?g) \<and> k < length (g_done ?g))" by auto
    with 1 assms(1) show ?thesis by (auto simp: thread_round_def simp del: gathered.simps)
  next
    case 2
    with assms(1) show ?thesis by (simp add: program_inv_def running_def)
  next
    case 3
    then have "g_dmps ?g ! k \<in> set (g_dmps ?g)" by simp
    from inv(4) [OF this] obtain d where d: "r_dmps r (g_dmps ?g ! k) = Some d" by blast
    let ?st = "Deliver e (g_dmps ?g ! k) eps"
    have st: "admissible r ?st" using d assms(2) by simp
    from server_do_inv [OF server_reach_inv [OF inv(1)] st] d obtain r' where
      r': "server_wait e sv d eps r = Inr r'" by auto
    have "server_step sv r r'" using server_step.step [OF st, of sv r'] d r' by simp
    then have reach: "server_reach sv r'" by (rule server_reach.next_step [OF inv(1)])
    have "r_dmps r' = r_dmps r \<and> same_subs r r' \<and> traffic_map (r_center r') = traffic_map (r_center r) \<and>
      conn_map r' = conn_map r |` (- gone eps) \<and>
      outbox r' = outbox r @ concat (map (\<lambda>b. map (\<lambda>a. (a, LoadBalanceCtx (pub_code BALANCE) b))
        (others sv (r_center r) (srv_pub_id sv) BALANCE)) (gathered (ThreadRound e k eps) ?g r))"
    proof (cases "eps = []")
      case True
      then show ?thesis using r' by (simp add: server_wait_none restrict_map_def)
    next
      case False
      have "reactor_ok sv r" using server_reach_inv [OF inv(1)] by (simp add: server_inv_def)
      from server_wait_ok [OF this d False assms(2), of e] r' 3 False show ?thesis
        by (auto simp: same_subs_def same_wires_def ready_clients_def)
    qed
    with thread_round_wait [OF inv(3) 3 d, of e sv eps] r' reach assms(1) show ?thesis
      by (simp add: program_inv_def)
  qed
qed

lemma loop_do_inv:
  assumes "program_inv sv (el, r)" "sane ev r"
  shows "\<exists>el' r'. loop_do sv ev (el, r) = Inr (el', r') \<and> program_inv sv (el', r') \<and> same_subs r r' \<and>
    outbox r' = outbox r @ concat (map (\<lambda>b. map (\<lambda>a. (a, LoadBalanceCtx (pub_code BALANCE) b))
      (others sv (r_center r) (srv_pub_id sv) BALANCE)) (gathered ev (el_group el) r))"
proof (cases ev)
  case (MainRound e ret)
  with main_round_inv [OF assms(1), of e ret] assms(2) show ?thesis by auto
next
  case (ThreadRound e k eps)
  with thread_round_inv [OF assms(1), of eps e k] assms(2) show ?thesis by (auto simp del: gathered.simps)
next
  case StopCalled
  with assms(1) show ?thesis by (simp add: event_loop_stop_def program_inv_def)
qed

interpretation program: event_system "loop_do sv" "\<lambda>ev s. sane ev (snd s)" "program_inv sv" for sv
proof unfold_locales
  fix s ev assume "program_inv sv s" "sane ev (snd s)"
  with loop_do_inv [of sv "fst s" "snd s" ev] show "\<exists>s'. loop_do sv ev s = Inr s' \<and> program_inv sv s'" by auto
qed

lemma program_reach_inv: "program_reach sv s \<Longrightarrow> program_inv sv s"
proof (induction rule: program_reach.induct)
  case (constructed c subloop news inet_aton k self acc ip port i h ts i' h' r)
  from make_tcp_server_made [OF constructed] show ?case by (rule program_inv_constructed)
next
  case (stepped sv s s')
  obtain el r where s: "s = (el, r)" by (cases s)
  from stepped.hyps(2) obtain ev where "sane ev r" "loop_do sv ev (el, r) = Inr s'"
    unfolding s by (rule program_stepE)
  with program.act_inv [OF stepped.IH] s show ?case by simp
qed

text \<open>The server program never fails. In every state reached from a constructor that
  returned, by any interleaving of rounds of the accept loop, rounds of the threads and
  calls of \<open>stop\<close>, the next event is handled without an exception, a failed assertion or
  undefined behaviour; the counter is the number of connections, every connection is on a
  demultiplexer of the group, and the descriptors watched are exactly the connected ones.\<close>

theorem program_safe:
  assumes "program_reach sv (el, r)"
  shows "(\<forall>ev. sane ev r \<longrightarrow> (\<exists>s'. loop_do sv ev (el, r) = Inr s')) \<and>
    total_conn r = int (card (dom (conn_map r))) \<and> watched (syslog r) = dom (conn_map r) \<and>
    (\<forall>f. conn_map r f \<noteq> None \<longrightarrow> (\<exists>n \<in> set (g_dmps (el_group el)). on_dmp r f = Some n))"
proof (intro conjI allI impI)
  have inv: "program_inv sv (el, r)" using assms by (rule program_reach_inv)
  then have sinv: "server_inv sv r" by (simp add: program_inv_def server_reach_inv)
  show "\<exists>s'. loop_do sv ev (el, r) = Inr s'" if "sane ev r" for ev
    using loop_do_inv [OF inv that] by blast
  show "total_conn r = int (card (dom (conn_map r)))" "watched (syslog r) = dom (conn_map r)"
    using sinv by (simp_all add: server_inv_def reactor_ok_def)
  show "\<exists>n \<in> set (g_dmps (el_group el)). on_dmp r f = Some n" if "conn_map r f \<noteq> None" for f
  proof -
    from that obtain c where c: "conn_map r f = Some c" by blast
    have "conn_ok r f c" using sinv c by (auto simp: server_inv_def dest: reactor_okD(2))
    then obtain n d where "chan_dmp (chan c) = Some n" "r_dmps r n = Some d" by (auto simp: conn_ok_def)
    moreover from this(2) have "n \<in> dom (r_dmps r)" by blast
    ultimately show ?thesis using c inv by (auto simp: on_dmp_def program_inv_def)
  qed
qed

lemma demo_constructed:
  "\<exists>ts r. program_reach (ts_server ts) (ts_loop ts, r) \<and> server_made 42 new_center [1, 2] ts r"
proof -
  obtain ts i' h' r where made: "make_tcp_server (\<lambda>_. 0) demo_kernel 42 7 ''0.0.0.0'' ''80'' 2 demo_news fresh_ids []
      new_center = Some (Inr (ts, i', h', r))" "server_made 42 new_center [1, 2] ts r"
    using demo_made by blast
  have "nat 2 \<le> length demo_news" "distinct (map fst (take (nat 2) demo_news))" by (simp_all add: demo_news_def)
  from program_reach.constructed [OF new_center_ok new_center_silent this made(1)] made(2) show ?thesis by blast
qed

theorem program_safe_witness:
  "\<exists>sv el r s'. program_reach sv (el, r) \<and> g_dmps (el_group el) = [1, 2] \<and>
     loop_do sv (MainRound demo_env 9) (el, r) = Inr s'"
proof -
  obtain ts r where reach: "program_reach (ts_server ts) (ts_loop ts, r)"
    and made: "server_made 42 new_center [1, 2] ts r"
    using demo_constructed by blast
  have "sane (MainRound demo_env 9) r" using made by (simp add: demo_env_def server_made_def started_def)
  with program_safe [OF reach] have "\<exists>s'. loop_do (ts_server ts) (MainRound demo_env 9) (ts_loop ts, r) = Inr s'"
    by blast
  with reach made show ?thesis by (auto simp: server_made_def)
qed


section \<open>The destructor\<close>

text \<open>
  The body of \<open>~TcpServer\<close>: the subscriptions given back, then \<open>stop\<close>, which returns once
  the threads have (else \<open>None\<close>), then the socket closed, which its own destructor, the
  members' turn, does again.
\<close>

definition destroy_tcp_server ::
  "sock_kernel \<Rightarrow> tcp_server \<Rightarrow> event_loop \<Rightarrow> reactor \<Rightarrow> scalls \<Rightarrow> (center \<times> scalls) result option" where
  "destroy_tcp_server k ts el r h =
     bindO (Some (destroy_server (ts_server ts) (acc_id (ts_acceptor ts)) (dmp_ids r (el_group el)) (r_center r)))
       (\<lambda>c. if stop_returned (event_loop_stop el) then Some (Inr (c, close_socket k (ts_socket ts) h)) else None)"



end
