(* ===== verification/Proxy_Run.thy ===== *)
theory Proxy_Run
  imports Proxy "HOL-Library.Multiset"
begin

text \<open>
  The proxy at work (\<open>src/src/proxy/proxy_server.cc\<close>): how a notification reaches it, the rounds
  of its threads (\<open>src/src/network/group.hpp\<close>), and that its handlers, whatever the clients and
  the backends do that the kernel can answer, return and keep the proxy well formed. The
  theorems of \<open>Proxy\<close> say what is delivered when nothing goes wrong; those here what holds
  also for clients without anything to read, over the limit, or gone half way.
\<close>

section \<open>Notifications\<close>

text \<open>
  \<open>center_->notifySubscriber\<close> as the proxy's part of the program sees it: the proxy's \<open>update\<close>
  runs; what other subscribers do is not in this state.
\<close>

fun px_ntf :: "nat \<Rightarrow> penv \<Rightarrow> pworld notifier" where
  "px_ntf 0 e p t x w = Inl StackExhausted"
| "px_ntf (Suc n) e p t x w =
     (let (ts, c') = notify_targets p t (w_center w) in
      dispatch (\<lambda>a x w. if a \<noteq> px_addr (w_px w) then Inr (x, w)
                         else case px_update (px_ntf n e) e x w of None \<Rightarrow> Inl NeverReturns | Some res \<Rightarrow> res)
        ts x (w\<lparr>w_center := c'\<rparr>))"

declare px_ntf.simps [simp del]

text \<open>One round of thread \<open>k\<close> of the proxy's group; the handlers may move the group's cursor.\<close>

definition px_round :: "penv \<Rightarrow> nat \<Rightarrow> resp list \<Rightarrow> pworld \<Rightarrow> pworld result" where
  "px_round e k eps w =
     bindR (run_round (px_ntf depth e) (w_dmps w) k eps (px_group (w_px w)) w) (\<lambda>(g, w').
       Inr (upd_px (\<lambda>p. p\<lparr>px_group := (px_group p)\<lparr>g_done := g_done g\<rparr>\<rparr>) w'))"

text \<open>A notification that the proxy alone hears.\<close>

definition heard_by :: "center \<Rightarrow> u16 \<Rightarrow> pub_type \<Rightarrow> nat \<Rightarrow> bool" where
  "heard_by c p t a \<longleftrightarrow> fst (notify_targets p t c) = [a]"

lemma heard_by_wires: "same_wires c c' \<Longrightarrow> heard_by c' p t a = heard_by c p t a"
  by (simp add: heard_by_def notify_targets_def same_wires_def Let_def)

lemma same_wires_notify [simp]: "same_wires c (snd (notify_targets p t c))"
  by (simp add: same_wires_def)

lemma same_wires_trans: "same_wires a b \<Longrightarrow> same_wires b c \<Longrightarrow> same_wires a c"
  by (simp add: same_wires_def)

lemma px_ntf_heard:
  assumes "heard_by (w_center w) p t (px_addr (w_px w))"
    "px_update (px_ntf n e) e x (w\<lparr>w_center := snd (notify_targets p t (w_center w))\<rparr>) = Some (Inr y)"
  shows "px_ntf (Suc n) e p t x w = Inr y"
  using assms by (simp add: px_ntf.simps heard_by_def case_prod_beta del: dispatch.simps)

section \<open>The kernel's answers\<close>

text \<open>
  What the kernel keeps to: \<open>send\<close> fails or takes some of the bytes, and the text of an address
  has at most 15 characters. A \<open>read\<close> yields what fits or that there is nothing.
\<close>

definition lawful :: "penv \<Rightarrow> bool" where
  "lawful e \<longleftrightarrow> pe_attach e \<and> (\<forall>f. takes_some (pe_send e f)) \<and> (\<forall>f. length (ip_string (pe_peer e f)) \<le> 15)"

definition readable :: "penv \<Rightarrow> fd \<Rightarrow> bool" where
  "readable e f \<longleftrightarrow>
     fst (pe_read e f) = int (length (request e f)) \<and> length (request e f) \<le> MAX_PACKET_SIZE \<or>
     fst (pe_read e f) = -1 \<and> request e f = [] \<and> (pe_errno e f = EAGAIN \<or> pe_errno e f = EWOULDBLOCK)"

text \<open>What is delivered is at most what was read, to the other end.\<close>

definition pieces :: "(fd \<times> string) list \<Rightarrow> fd \<Rightarrow> string \<Rightarrow> bool" where
  "pieces outs b s \<longleftrightarrow> (\<forall>q \<in> set outs. fst q = b \<and> (\<exists>j. snd q = take j s))"

lemma transfer_lawful:
  assumes "lawful e" "readable e f"
  shows "\<exists>tot pk' outs. transfer e f b pk w = Some (Inr (tot, pk', w\<lparr>w_out := w_out w @ outs\<rparr>)) \<and>
    pk_head pk' = pk_head blank_packet \<and> pieces outs b (request e f)"
proof (cases "fst (pe_read e f) = int (length (request e f))")
  case True
  then have r: "pe_read e f = (int (length (request e f)), request e f)" by (simp add: request_def prod_eq_iff)
  have "length (request e f) \<le> MAX_PACKET_SIZE" "takes_some (pe_send e b)" "pe_attach e"
    using assms True by (auto simp: readable_def lawful_def)
  from forward_takes [OF this(2) r this(1), of pk w] this(3) obtain j pk' where
    "transfer e f b pk w = Some (Inr (int j, pk', w\<lparr>w_out := w_out w @ [(b, take j (request e f))]\<rparr>))"
    "pk_head pk' = pk_head blank_packet"
    by (auto simp: transfer_def)
  moreover have "pieces [(b, take j (request e f))] b (request e f)" by (auto simp: pieces_def)
  ultimately show ?thesis by blast
next
  case False
  then have "pe_read e f = (-1, [])" "pe_errno e f = EAGAIN \<or> pe_errno e f = EWOULDBLOCK"
    using assms(2) by (auto simp: readable_def request_def prod_eq_iff)
  moreover have "pe_attach e" using assms(1) by (simp add: lawful_def)
  moreover obtain seg where "write_mem (segment blank_packet) 0 [] = Inr seg"
    using write_blank [of "[]"] by auto
  ultimately have "transfer e f b pk w =
      Some (Inr (-1, blank_packet\<lparr>segment := seg\<rparr>, w\<lparr>w_out := w_out w @ []\<rparr>))"
    by (auto simp: transfer_def forward_def Let_def)
  then show ?thesis
    by (intro exI [of _ "-1"] exI [of _ "blank_packet\<lparr>segment := seg\<rparr>"] exI [of _ "[]"]) (simp add: pieces_def)
qed

section \<open>What every handler keeps\<close>

text \<open>
  A well-formed proxy remains so, its frame and what the center does with any notification
  stay, accounts are never closed, and the descriptors watched remain the backends of the map.
\<close>

definition px_keeps :: "pworld \<Rightarrow> pworld \<Rightarrow> bool" where
  "px_keeps w w' \<longleftrightarrow> px_ok w' \<and> px_frame w w' \<and> (px_tracks w \<longrightarrow> px_tracks w') \<and>
     same_wires (w_center w) (w_center w') \<and> dom (traffic_map (w_center w)) \<subseteq> dom (traffic_map (w_center w'))"

lemma px_keeps_refl: "px_ok w \<Longrightarrow> px_keeps w w"
  by (simp add: px_keeps_def)

lemma px_keeps_trans: "px_keeps w w' \<Longrightarrow> px_keeps w' w'' \<Longrightarrow> px_keeps w w''"
  unfolding px_keeps_def by (meson px_frame_trans same_wires_trans subset_trans)

text \<open>Nothing of this depends on what was delivered, or accounted.\<close>

lemma px_keeps_account:
  assumes "px_keeps w w'"
  shows "px_keeps w (w'\<lparr>w_out := l\<rparr>)" "px_keeps w (w'\<lparr>w_out := l, w_center := account s n (w_center w')\<rparr>)"
  using assms by (auto simp: px_keeps_def px_ok_def px_frame_def px_tracks_def same_wires_def traffic_account)

section \<open>A batch of clients\<close>

text \<open>One client: whatever it brings, the others are gone on with.\<close>

lemma forward_one:
  assumes "px_ok w" "lawful e" "connectable e w c" "readable e c" "length (pk_head pk) = MAX_IP_SIZE + MAX_PORT_SIZE"
  shows "\<exists>w' pk' outs. forward_pairs ntf e ((c, a) # ps) pk w = forward_pairs ntf e ps pk' w' \<and>
    length (pk_head pk') = MAX_IP_SIZE + MAX_PORT_SIZE \<and> px_keeps w w' \<and>
    reversed_map (w_px w') = (reversed_map (w_px w))(c \<mapsto> backend_of e w c) \<and>
    dom (sock_map (w_px w')) = insert (backend_of e w c) (dom (sock_map (w_px w))) \<and>
    w_out w' = w_out w @ outs \<and> pieces outs (backend_of e w c) (request e c)"
proof -
  let ?b = "backend_of e w c" and ?s = "toString (pe_peer e c)"
  obtain w1 where w1: "assure_backend ntf e c a w = Inr (True, w1)" "px_keeps w w1"
      "reversed_map (w_px w1) = (reversed_map (w_px w))(c \<mapsto> ?b)"
      "dom (sock_map (w_px w1)) = insert ?b (dom (sock_map (w_px w)))" "w_out w1 = w_out w"
    using assure_good [OF assms(1,3), of ntf a] unfolding px_keeps_def by auto
  show ?thesis
  proof (cases "isLismited ?s (w_center w1)")
    case True
    then have "forward_pairs ntf e ((c, a) # ps) pk w = forward_pairs ntf e ps pk w1"
      using w1(1,3) by simp
    with w1 assms(5) show ?thesis
      by (intro exI [of _ w1] exI [of _ pk] exI [of _ "[]"]) (simp add: pieces_def)
  next
    case False
    have e: "pe_attach e" "length (ip_string (pe_peer e c)) \<le> 15" using assms(2) by (simp_all add: lawful_def)
    obtain pk1 where pk1: "head_of (pe_peer e c) pk = Inr pk1" using head_fits [OF e(2) assms(5)] by blast
    obtain tot pk2 outs where tr: "transfer e c ?b pk1 w1 = Some (Inr (tot, pk2, w1\<lparr>w_out := w_out w1 @ outs\<rparr>))"
        "pk_head pk2 = pk_head blank_packet" "pieces outs ?b (request e c)"
      using transfer_lawful [OF assms(2,4)] by blast
    let ?w2 = "w1\<lparr>w_out := w_out w1 @ outs\<rparr>"
    let ?w3 = "if tot > 0 then ?w2\<lparr>w_center := account ?s (word_of_int tot) (w_center ?w2)\<rparr> else ?w2"
    have "forward_pairs ntf e ((c, a) # ps) pk w = forward_pairs ntf e ps pk2 ?w3"
      using False w1(1,3) e(1) pk1 tr(1) by (simp add: Let_def)
    moreover have "px_keeps w ?w3" using px_keeps_account [OF w1(2)] by simp
    moreover have "length (pk_head pk2) = MAX_IP_SIZE + MAX_PORT_SIZE" using tr(2) by (simp add: blank_packet_def)
    ultimately show ?thesis using w1(3-5) tr(3)
      by (intro exI [of _ ?w3] exI [of _ pk2] exI [of _ outs]) simp
  qed
qed

text \<open>Where the blocks delivered come from.\<close>

definition delivered :: "(fd \<times> string) list \<Rightarrow> (fd \<rightharpoonup> fd) \<Rightarrow> (fd \<Rightarrow> string) \<Rightarrow> fd set \<Rightarrow> bool" where
  "delivered outs to req F \<longleftrightarrow> (\<forall>(b, s) \<in> set outs. \<exists>f \<in> F. to f = Some b \<and> (\<exists>j. s = take j (req f)))"

lemma delivered_pieces: "pieces outs b (req c) \<Longrightarrow> to c = Some b \<Longrightarrow> c \<in> F \<Longrightarrow> delivered outs to req F"
  by (fastforce simp: pieces_def delivered_def)

lemma delivered_append [simp]:
  "delivered (outs @ outs') to req F \<longleftrightarrow> delivered outs to req F \<and> delivered outs' to req F"
  by (simp add: delivered_def ball_Un)

lemma delivered_cong: "(\<And>f. f \<in> F \<Longrightarrow> to f = to' f) \<Longrightarrow> delivered outs to req F = delivered outs to' req F"
  by (auto simp: delivered_def split_beta)

lemma delivered_mono: "delivered outs to req F \<Longrightarrow> F \<subseteq> G \<Longrightarrow> delivered outs to req G"
  by (fastforce simp: delivered_def)

lemma forward_all:
  assumes "px_ok w" "lawful e" "\<forall>q \<in> set ps. connectable e w (fst q) \<and> readable e (fst q)"
    "distinct (map fst ps)" "distinct (map fst (new_conns e w ps))" "length (pk_head pk) = MAX_IP_SIZE + MAX_PORT_SIZE"
  shows "\<exists>w' outs. forward_pairs ntf e ps pk w = Some (Inr w') \<and> px_keeps w w' \<and>
    (\<forall>c. reversed_map (w_px w') c =
       (if c \<in> fst ` set ps then Some (backend_of e w c) else reversed_map (w_px w) c)) \<and>
    w_out w' = w_out w @ outs \<and> delivered outs (reversed_map (w_px w')) (request e) (fst ` set ps)"
  using assms
proof (induction ps arbitrary: w pk)
  case Nil
  then show ?case by (auto intro!: exI [of _ w] simp: px_keeps_refl delivered_def)
next
  case (Cons q ps)
  obtain c a where q: "q = (c, a)" by (cases q)
  let ?b = "backend_of e w c"
  have c: "connectable e w c" "readable e c" using Cons.prems(3) q by simp_all
  from forward_one [OF Cons.prems(1,2) c Cons.prems(6), of ntf a ps] obtain w1 pk1 outs where
    w1: "forward_pairs ntf e (q # ps) pk w = forward_pairs ntf e ps pk1 w1"
      "length (pk_head pk1) = MAX_IP_SIZE + MAX_PORT_SIZE" "px_keeps w w1"
      "reversed_map (w_px w1) = (reversed_map (w_px w))(c \<mapsto> ?b)"
      "dom (sock_map (w_px w1)) = insert ?b (dom (sock_map (w_px w)))"
      "w_out w1 = w_out w @ outs" "pieces outs ?b (request e c)"
    unfolding q by blast
  have ok: "maps_ok (w_px w)" using Cons.prems(1) by (simp add: px_ok_def)
  have later: "connectable e w1 (fst p) \<and> backend_of e w1 (fst p) = backend_of e w (fst p) \<and>
      fst p \<noteq> c \<and> readable e (fst p)" if p: "p \<in> set ps" for p
  proof -
    have p': "fst p \<noteq> c" "connectable e w (fst p)" "readable e (fst p)"
      using Cons.prems(3,4) p q by (auto simp: image_iff)
    from connectable_rest [OF ok p'(2) _ p, of c a] Cons.prems(5)
    have "reversed_map (w_px w) (fst p) = None \<longrightarrow> fst (pe_connect e (fst p)) \<noteq> ?b" unfolding q by blast
    from connectable_later [OF p'(2,1) w1(4,5) this] p' show ?thesis by blast
  qed
  have conns: "new_conns e w1 ps = new_conns e w ps"
    using later w1(4) by (auto simp: new_conns_def intro!: arg_cong [where f = "map _"] filter_cong)
  have "new_conns e w (q # ps) = new_conns e w [(c, a)] @ new_conns e w ps" by (simp add: new_conns_def q)
  then have d: "distinct (map fst (new_conns e w1 ps))" "distinct (map fst ps)"
    using Cons.prems(4,5) unfolding conns by simp_all
  have ok1: "px_ok w1" using w1(3) by (simp add: px_keeps_def)
  have all1: "\<forall>p \<in> set ps. connectable e w1 (fst p) \<and> readable e (fst p)" using later by blast
  obtain w' outs' where w': "forward_pairs ntf e ps pk1 w1 = Some (Inr w')" "px_keeps w1 w'"
      "\<forall>c. reversed_map (w_px w') c =
         (if c \<in> fst ` set ps then Some (backend_of e w1 c) else reversed_map (w_px w1) c)"
      "w_out w' = w_out w1 @ outs'" "delivered outs' (reversed_map (w_px w')) (request e) (fst ` set ps)"
    using Cons.IH [OF ok1 Cons.prems(2) all1 d(2,1) w1(2)] by blast
  have rev: "reversed_map (w_px w') c' =
      (if c' \<in> fst ` set (q # ps) then Some (backend_of e w c') else reversed_map (w_px w) c')" for c'
    using w'(3) w1(4) later q by auto
  have "c \<in> fst ` set (q # ps)" by (simp add: q)
  with rev [of c] have "delivered outs (reversed_map (w_px w')) (request e) (fst ` set (q # ps))"
    by (intro delivered_pieces [of outs ?b "request e" c, OF w1(7)]) simp_all
  moreover have "delivered outs' (reversed_map (w_px w')) (request e) (fst ` set (q # ps))"
    using delivered_mono [OF w'(5)] by auto
  ultimately have "delivered (outs @ outs') (reversed_map (w_px w')) (request e) (fst ` set (q # ps))" by simp
  moreover have "forward_pairs ntf e (q # ps) pk w = Some (Inr w')" "w_out w' = w_out w @ outs @ outs'"
    using w1(1,6) w'(1,4) by simp_all
  ultimately show ?case using rev px_keeps_trans [OF w1(3) w'(2)] by blast
qed

section \<open>The events of the backends\<close>

lemma wait_one:
  assumes "px_ok w" "lawful e" "sock_map (w_px w) (resp_fd q) = Some c" "ready q \<longrightarrow> readable e (resp_fd q)"
  shows "\<exists>w' pk' outs. wait_events e (q # qs) pk w = wait_events e qs pk' w' \<and> px_keeps w w' \<and>
    w_center w' = w_center w \<and> w_out w' = w_out w @ outs \<and> pieces outs c (request e (resp_fd q)) \<and>
    sock_map (w_px w') =
      (if has CLOSABLE (resp_events q) then (sock_map (w_px w))(resp_fd q := None) else sock_map (w_px w))"
proof -
  have "\<exists>tot pk1 outs. (if has READABLE (resp_events q) \<and> \<not> has CLOSABLE (resp_events q)
      then transfer e (resp_fd q) c pk w else Some (Inr (0, pk, w))) = Some (Inr (tot, pk1, w\<lparr>w_out := w_out w @ outs\<rparr>)) \<and>
    pieces outs c (request e (resp_fd q))"
  proof (cases "ready q")
    case True
    with transfer_lawful [OF assms(2), of "resp_fd q" c pk w] assms(4) show ?thesis by (auto simp: ready_def)
  next
    case False
    then show ?thesis
      by (intro exI [of _ 0] exI [of _ pk] exI [of _ "[]"]) (auto simp: ready_def pieces_def)
  qed
  then obtain tot pk1 outs where tr: "(if has READABLE (resp_events q) \<and> \<not> has CLOSABLE (resp_events q)
      then transfer e (resp_fd q) c pk w else Some (Inr (0, pk, w))) = Some (Inr (tot, pk1, w\<lparr>w_out := w_out w @ outs\<rparr>))"
    "pieces outs c (request e (resp_fd q))" by blast
  let ?w = "w\<lparr>w_out := w_out w @ outs\<rparr>"
  have "wait_events e (q # qs) pk w = wait_events e qs pk1 (settled e q ?w)"
    using assms(3) tr(1) by (simp add: settled_def)
  moreover have "px_keeps w ?w" using px_keeps_account(1) [OF px_keeps_refl [OF assms(1)]] .
  moreover from this have "px_keeps ?w (settled e q ?w)"
    using settled_props [of ?w e q] by (simp add: px_keeps_def)
  moreover have "px_ok ?w" using assms(1) by (simp add: px_ok_def)
  ultimately show ?thesis
    using settled_props [of ?w e q] tr(2) px_keeps_trans
    by (intro exI [of _ "settled e q ?w"] exI [of _ pk1] exI [of _ outs]) auto
qed

lemma wait_all:
  assumes "px_ok w" "lawful e" "distinct (map resp_fd qs)"
    "\<forall>q \<in> set qs. resp_fd q \<in> dom (sock_map (w_px w)) \<and> (ready q \<longrightarrow> readable e (resp_fd q))"
  shows "\<exists>w' outs. wait_events e qs pk w = Some (Inr w') \<and> px_keeps w w' \<and> w_center w' = w_center w \<and>
    sock_map (w_px w') = sock_map (w_px w) |` (- set (hung_up qs)) \<and>
    w_out w' = w_out w @ outs \<and> delivered outs (sock_map (w_px w)) (request e) (resp_fd ` set qs)"
  using assms
proof (induction qs arbitrary: w pk)
  case Nil
  then show ?case by (auto intro!: exI [of _ w] simp: px_keeps_refl delivered_def)
next
  case (Cons q qs)
  from Cons.prems(4) obtain c where c: "sock_map (w_px w) (resp_fd q) = Some c" "ready q \<longrightarrow> readable e (resp_fd q)"
    by auto
  from wait_one [OF Cons.prems(1,2) c, of qs pk] obtain w1 pk1 outs where
    w1: "wait_events e (q # qs) pk w = wait_events e qs pk1 w1" "px_keeps w w1" "w_center w1 = w_center w"
      "w_out w1 = w_out w @ outs" "pieces outs c (request e (resp_fd q))"
      "sock_map (w_px w1) =
        (if has CLOSABLE (resp_events q) then (sock_map (w_px w))(resp_fd q := None) else sock_map (w_px w))"
    by blast
  have same: "sock_map (w_px w1) (resp_fd p) = sock_map (w_px w) (resp_fd p)" if "p \<in> set qs" for p
  proof -
    have "resp_fd p \<noteq> resp_fd q" using Cons.prems(3) that by (auto simp: image_iff)
    then show ?thesis using w1(6) by simp
  qed
  have rest: "\<forall>p \<in> set qs. resp_fd p \<in> dom (sock_map (w_px w1)) \<and> (ready p \<longrightarrow> readable e (resp_fd p))"
    using Cons.prems(4) same by (simp add: domIff)
  have d: "distinct (map resp_fd qs)" using Cons.prems(3) by simp
  have ok1: "px_ok w1" using w1(2) by (simp add: px_keeps_def)
  obtain w' outs' where w': "wait_events e qs pk1 w1 = Some (Inr w')" "px_keeps w1 w'" "w_center w' = w_center w1"
      "sock_map (w_px w') = sock_map (w_px w1) |` (- set (hung_up qs))" "w_out w' = w_out w1 @ outs'"
      "delivered outs' (sock_map (w_px w1)) (request e) (resp_fd ` set qs)"
    using Cons.IH [OF ok1 Cons.prems(2) d rest] by blast
  have "sock_map (w_px w') = sock_map (w_px w) |` (- set (hung_up (q # qs)))"
    using w'(4) w1(6) by (auto simp: restrict_map_def fun_eq_iff)
  moreover have "delivered outs (sock_map (w_px w)) (request e) (resp_fd ` set (q # qs))"
    by (intro delivered_pieces [of outs c "request e" "resp_fd q", OF w1(5)]) (simp_all add: c(1))
  moreover have "delivered outs' (sock_map (w_px w)) (request e) (resp_fd ` set (q # qs))"
  proof -
    have "sock_map (w_px w1) f = sock_map (w_px w) f" if "f \<in> resp_fd ` set qs" for f using same that by auto
    with w'(6) have "delivered outs' (sock_map (w_px w)) (request e) (resp_fd ` set qs)"
      by (simp only: delivered_cong [of "resp_fd ` set qs" "sock_map (w_px w1)" "sock_map (w_px w)"])
    then show ?thesis by (rule delivered_mono) auto
  qed
  ultimately show ?case
    using w1(1,3,4) w'(1,3,5) px_keeps_trans [OF w1(2) w'(2)]
    by (intro exI [of _ w'] exI [of _ "outs @ outs'"]) simp
qed

text \<open>New clients that are given different descriptors.\<close>

lemma distinct_new_conns:
  assumes "distinct (map fst ps)"
    "inj_on (\<lambda>c. fst (pe_connect e c)) {c \<in> fst ` set ps. reversed_map (w_px w) c = None}"
  shows "distinct (map fst (new_conns e w ps))"
proof -
  let ?qs = "filter (\<lambda>q. reversed_map (w_px w) (fst q) = None) ps"
  have qs: "distinct (map fst ?qs)" using assms(1) by (rule distinct_map_filter)
  then have "inj_on fst (set ?qs)" by (simp add: distinct_map)
  moreover have "fst ` set ?qs \<subseteq> {c \<in> fst ` set ps. reversed_map (w_px w) c = None}" by auto
  then have "inj_on (\<lambda>c. fst (pe_connect e c)) (fst ` set ?qs)"
    using assms(2) by (rule inj_on_subset [rotated])
  ultimately have "inj_on ((\<lambda>c. fst (pe_connect e c)) \<circ> fst) (set ?qs)"
    by (rule comp_inj_on)
  with qs show ?thesis
    by (auto simp: new_conns_def distinct_map comp_def)
qed

text \<open>What the proxy does with the balancer's context, whatever order its table has.\<close>

lemma forward_balanced:
  assumes w: "px_ok w" "pe_attach e" and cs: "\<forall>c \<in> set cs. good_client e w c" "distinct cs"
      "distinct (map (peer_text e) cs)" "inj_on (\<lambda>c. fst (pe_connect e c)) (set cs)"
    and ps: "map fst m = cs" "mset ps = mset m"
  shows "\<exists>w'. px_update ntf e (ForwardContext (pub_code FORWARD) ps) w =
      Some (Inr (ForwardContext (pub_code FORWARD) ps, w')) \<and> px_ok w' \<and>
    mset (w_out w') = mset (w_out w) + mset (map (\<lambda>c. (backend_of e w c, request e c)) cs) \<and>
    (\<exists>outs. w_out w' = w_out w @ outs) \<and> w_conns w' = w_conns w @ new_conns e w ps \<and>
    (\<forall>c. reversed_map (w_px w') c = (if c \<in> set cs then Some (backend_of e w c) else reversed_map (w_px w) c)) \<and>
    (\<forall>c \<in> set cs. traffic_map (w_center w') (peer_text e c) =
       map_option (\<lambda>t. t + word_of_nat (length (request e c))) (traffic_map (w_center w) (peer_text e c))) \<and>
    (\<forall>s. s \<notin> peer_text e ` set cs \<longrightarrow> traffic_map (w_center w') s = traffic_map (w_center w) s)"
proof -
  let ?out = "\<lambda>q. (backend_of e w (fst q), request e (fst q))"
  have fs: "mset (map fst ps) = mset cs" using ps by (metis mset_map)
  have set_fs: "fst ` set ps = set cs" using fs by (metis mset_eq_setD set_map)
  have d: "distinct (map fst ps)" using fs cs(2) by (metis mset_eq_imp_distinct_iff)
  have "mset (map (peer_text e) (map fst ps)) = mset (map (peer_text e) cs)"
    using fs by (metis mset_map)
  from mset_eq_imp_distinct_iff [OF this] have dt: "distinct (map (\<lambda>q. peer_text e (fst q)) ps)"
    using cs(3) by (simp add: comp_def)
  have dn: "distinct (map fst (new_conns e w ps))"
    using d inj_on_subset [OF cs(4), of "{c \<in> set cs. reversed_map (w_px w) c = None}"] set_fs
    by (intro distinct_new_conns) auto
  have good: "\<forall>q \<in> set ps. good_client e w (fst q)" using cs(1) set_fs by auto
  have len: "length (pk_head blank_packet) = MAX_IP_SIZE + MAX_PORT_SIZE" by (simp add: blank_packet_def)
  from forward_batch [OF w good d dt dn len, of ntf] obtain w' where
    w': "forward_pairs ntf e ps blank_packet w = Some (Inr w')" "px_ok w'"
      "w_out w' = w_out w @ map ?out ps" "w_conns w' = w_conns w @ new_conns e w ps"
      "\<forall>c. reversed_map (w_px w') c =
         (if c \<in> fst ` set ps then Some (backend_of e w c) else reversed_map (w_px w) c)"
      "\<forall>q \<in> set ps. traffic_map (w_center w') (peer_text e (fst q)) =
         map_option (\<lambda>t. t + word_of_nat (length (request e (fst q)))) (traffic_map (w_center w) (peer_text e (fst q)))"
      "\<forall>s. s \<notin> (\<lambda>q. peer_text e (fst q)) ` set ps \<longrightarrow> traffic_map (w_center w') s = traffic_map (w_center w) s"
    by blast
  have "(\<lambda>q. peer_text e (fst q)) ` set ps = peer_text e ` set cs" using set_fs by (metis image_image)
  moreover have "\<forall>c \<in> set cs. traffic_map (w_center w') (peer_text e c) =
      map_option (\<lambda>t. t + word_of_nat (length (request e c))) (traffic_map (w_center w) (peer_text e c))"
    using w'(6) unfolding set_fs [symmetric] by simp
  moreover have "mset (map ?out ps) = mset (map ?out m)" using ps(2) by simp
  moreover have "map ?out m = map (\<lambda>c. (backend_of e w c, request e c)) cs" using ps(1) by auto
  ultimately show ?thesis using w' set_fs
    by (intro exI [of _ w']) (simp add: px_update_def px_updateForForward_def)
qed

section \<open>Notified\<close>

text \<open>The lookup of the subscribers, which may insert an empty entry, changes nothing of this.\<close>

lemma px_keeps_lookup:
  assumes "px_ok w"
  shows "px_keeps w (w\<lparr>w_center := snd (notify_targets p t (w_center w))\<rparr>)"
  using assms px_frame_refl [of w] unfolding px_keeps_def px_ok_def px_frame_def px_tracks_def by simp

lemma forward_notified:
  assumes "heard_by (w_center w) p FORWARD (px_addr (w_px w))" "px_ok w" "lawful e"
    "\<forall>q \<in> set ps. connectable e w (fst q) \<and> readable e (fst q)"
    "distinct (map fst ps)" "distinct (map fst (new_conns e w ps))"
  shows "\<exists>x w' outs. px_ntf (Suc n) e p FORWARD (ForwardContext (pub_code FORWARD) ps) w = Inr (x, w') \<and>
    px_keeps w w' \<and>
    (\<forall>c. reversed_map (w_px w') c =
       (if c \<in> fst ` set ps then Some (backend_of e w c) else reversed_map (w_px w) c)) \<and>
    w_out w' = w_out w @ outs \<and> delivered outs (reversed_map (w_px w')) (request e) (fst ` set ps)"
proof -
  let ?w = "w\<lparr>w_center := snd (notify_targets p FORWARD (w_center w))\<rparr>" and ?x = "ForwardContext (pub_code FORWARD) ps"
  note look = px_keeps_lookup [OF assms(2), of p FORWARD]
  have same: "connectable e ?w = connectable e w" "new_conns e ?w = new_conns e w" "backend_of e ?w = backend_of e w"
    by (simp_all add: connectable_def new_conns_def backend_of_def fun_eq_iff)
  have "length (pk_head blank_packet) = MAX_IP_SIZE + MAX_PORT_SIZE" by (simp add: blank_packet_def)
  moreover have "px_ok ?w" using look by (simp add: px_keeps_def)
  ultimately obtain w' outs where w': "forward_pairs (px_ntf n e) e ps blank_packet ?w = Some (Inr w')" "px_keeps ?w w'"
      "\<forall>c. reversed_map (w_px w') c =
         (if c \<in> fst ` set ps then Some (backend_of e w c) else reversed_map (w_px w) c)"
      "w_out w' = w_out w @ outs" "delivered outs (reversed_map (w_px w')) (request e) (fst ` set ps)"
    using forward_all [of ?w e ps blank_packet "px_ntf n e"] assms(3-6) unfolding same by auto
  have "px_update (px_ntf n e) e ?x ?w = Some (Inr (?x, w'))"
    using w'(1) by (simp add: px_update_def px_updateForForward_def)
  from px_ntf_heard [OF assms(1) this] w'(3-5) px_keeps_trans [OF look w'(2)] show ?thesis by blast
qed

lemma wait_notified:
  assumes "heard_by (w_center w) p DMPWAIT (px_addr (w_px w))" "px_ok w" "lawful e" "distinct (map resp_fd qs)"
    "\<forall>q \<in> set qs. resp_fd q \<in> dom (sock_map (w_px w)) \<and> (ready q \<longrightarrow> readable e (resp_fd q))"
  shows "\<exists>x w' outs. px_ntf (Suc n) e p DMPWAIT (DmpWaitContext (pub_code DMPWAIT) qs) w = Inr (x, w') \<and>
    px_keeps w w' \<and> sock_map (w_px w') = sock_map (w_px w) |` (- set (hung_up qs)) \<and>
    w_out w' = w_out w @ outs \<and> delivered outs (sock_map (w_px w)) (request e) (resp_fd ` set qs)"
proof -
  let ?w = "w\<lparr>w_center := snd (notify_targets p DMPWAIT (w_center w))\<rparr>" and ?x = "DmpWaitContext (pub_code DMPWAIT) qs"
  note look = px_keeps_lookup [OF assms(2), of p DMPWAIT]
  have "px_ok ?w" using look by (simp add: px_keeps_def)
  then obtain w' outs where w': "wait_events e qs blank_packet ?w = Some (Inr w')" "px_keeps ?w w'"
      "sock_map (w_px w') = sock_map (w_px w) |` (- set (hung_up qs))"
      "w_out w' = w_out w @ outs" "delivered outs (sock_map (w_px w)) (request e) (resp_fd ` set qs)"
    using wait_all [of ?w e qs blank_packet] assms(3-5) by auto
  have "px_update (px_ntf n e) e ?x ?w = Some (Inr (?x, w'))"
    using w'(1) by (simp add: px_update_def px_updateForWait_def)
  from px_ntf_heard [OF assms(1) this] w'(3-5) px_keeps_trans [OF look w'(2)] show ?thesis by blast
qed

text \<open>The proxy's threads hear of what their demultiplexers deliver, although these are silenced.\<close>

definition threads_ok :: "pworld \<Rightarrow> bool" where
  "threads_ok w \<longleftrightarrow> g_notify (px_group (w_px w)) \<and> running (px_group (w_px w)) \<and>
     (\<forall>a \<in> set (g_dmps (px_group (w_px w))). \<forall>d. w_dmps w a = Some d \<longrightarrow>
        heard_by (w_center w) (dmp_id d) DMPWAIT (px_addr (w_px w)))"

lemma threads_ok_kept: "threads_ok w \<Longrightarrow> px_keeps w w' \<Longrightarrow> threads_ok w'"
  by (auto simp: threads_ok_def px_keeps_def px_frame_def running_def heard_by_wires)

text \<open>A round in which thread \<open>k\<close> is delivered events is a notification that the proxy hears.\<close>

lemma px_round_heard:
  assumes "threads_ok w" "px_ok w" "k < length (g_dmps (px_group (w_px w)))" "k < length (g_done (px_group (w_px w)))" "eps \<noteq> []"
  obtains p where "heard_by (w_center w) p DMPWAIT (px_addr (w_px w))"
    "\<And>x w'. px_ntf depth e p DMPWAIT (DmpWaitContext (pub_code DMPWAIT) eps) w = Inr (x, w') \<Longrightarrow> px_frame w w' \<Longrightarrow>
       px_round e k eps w = Inr w'"
proof -
  let ?g = "px_group (w_px w)"
  have run: "g_notify ?g" "\<not> g_stop ?g" "\<not> g_done ?g ! k"
    using assms(1,4) by (auto simp: threads_ok_def running_def list_all_length)
  have a: "g_dmps ?g ! k \<in> set (g_dmps ?g)" using assms(3) by simp
  then obtain d where d: "w_dmps w (g_dmps ?g ! k) = Some d" using assms(2) by (auto simp: px_ok_def)
  have "px_round e k eps w = Inr w'"
    if "px_ntf depth e (dmp_id d) DMPWAIT (DmpWaitContext (pub_code DMPWAIT) eps) w = Inr (x, w')" "px_frame w w'" for x w'
  proof -
    have "upd_px (\<lambda>p. p\<lparr>px_group := (px_group p)\<lparr>g_done := g_done ?g\<rparr>\<rparr>) w' = w'"
      using that(2) by (auto simp: px_frame_def upd_px_def)
    then show ?thesis using assms(3-5) run d that(1)
      by (simp add: px_round_def demultiplexWait_def make_DmpWaitContext_def notify_if_def del: pub_code.simps)
  qed
  moreover have "heard_by (w_center w) (dmp_id d) DMPWAIT (px_addr (w_px w))"
    using assms(1) a d by (simp add: threads_ok_def)
  ultimately show thesis using that by blast
qed

lemma px_round_idle:
  assumes "threads_ok w" "px_ok w" "\<not> (k < length (g_dmps (px_group (w_px w))) \<and> k < length (g_done (px_group (w_px w))) \<and> eps \<noteq> [])"
  shows "px_round e k eps w = Inr w"
proof -
  let ?g = "px_group (w_px w)"
  have "\<not> g_stop ?g" "\<forall>k < length (g_done ?g). \<not> g_done ?g ! k"
    using assms(1) by (auto simp: threads_ok_def running_def list_all_length)
  moreover have "\<exists>d. w_dmps w (g_dmps ?g ! k) = Some d" if "k < length (g_dmps ?g)"
    using assms(2) nth_mem [OF that] by (auto simp: px_ok_def)
  moreover have "upd_px (\<lambda>p. p\<lparr>px_group := (px_group p)\<lparr>g_done := g_done ?g\<rparr>\<rparr>) w = w" by (simp add: upd_px_def)
  ultimately show ?thesis using assms(3) by (auto simp: px_round_def demultiplexWait_def)
qed

lemma px_round_ok:
  assumes "threads_ok w" "px_ok w" "lawful e" "distinct (map resp_fd eps)"
    "\<forall>q \<in> set eps. resp_fd q \<in> dom (sock_map (w_px w)) \<and> (ready q \<longrightarrow> readable e (resp_fd q))"
  shows "\<exists>w' outs. px_round e k eps w = Inr w' \<and> px_keeps w w' \<and>
    w_out w' = w_out w @ outs \<and> delivered outs (sock_map (w_px w)) (request e) (resp_fd ` set eps)"
proof (cases "k < length (g_dmps (px_group (w_px w))) \<and> k < length (g_done (px_group (w_px w))) \<and> eps \<noteq> []")
  case False
  from px_round_idle [OF assms(1,2) this] px_keeps_refl [OF assms(2)] show ?thesis
    by (intro exI [of _ w] exI [of _ "[]"]) (simp add: delivered_def)
next
  case True
  then obtain p where p: "heard_by (w_center w) p DMPWAIT (px_addr (w_px w))"
    "\<And>x w'. px_ntf depth e p DMPWAIT (DmpWaitContext (pub_code DMPWAIT) eps) w = Inr (x, w') \<Longrightarrow> px_frame w w' \<Longrightarrow>
       px_round e k eps w = Inr w'"
    using px_round_heard [OF assms(1,2)] by blast
  from wait_notified [OF p(1) assms(2-5), of "Suc (Suc 0)"] obtain x w' outs where
    w': "px_ntf depth e p DMPWAIT (DmpWaitContext (pub_code DMPWAIT) eps) w = Inr (x, w')" "px_keeps w w'"
      "w_out w' = w_out w @ outs" "delivered outs (sock_map (w_px w)) (request e) (resp_fd ` set eps)"
    unfolding depth_def by blast
  have "px_frame w w'" using w'(2) by (simp add: px_keeps_def)
  from p(2) [OF w'(1) this] w'(2-4) show ?thesis by blast
qed

text \<open>The round when every backend that is readable has a reply.\<close>

lemma px_round_exact:
  assumes "threads_ok w" "px_ok w" "lawful e" "distinct (map resp_fd eps)"
    "\<forall>q \<in> set eps. resp_fd q \<in> dom (sock_map (w_px w)) \<and> (ready q \<longrightarrow> good_reply e w (resp_fd q))"
    "k < length (g_dmps (px_group (w_px w)))" "k < length (g_done (px_group (w_px w)))" "eps \<noteq> []"
  shows "\<exists>w'. px_round e k eps w = Inr w' \<and> px_keeps w w' \<and>
    sock_map (w_px w') = sock_map (w_px w) |` (- set (hung_up eps)) \<and>
    w_out w' = w_out w @ map (\<lambda>q. (the (sock_map (w_px w) (resp_fd q)), request e (resp_fd q))) (filter ready eps) \<and>
    w_sys w' = w_sys w @ map SysClose (hung_up eps)"
proof -
  let ?x = "DmpWaitContext (pub_code DMPWAIT) eps"
  obtain p where p: "heard_by (w_center w) p DMPWAIT (px_addr (w_px w))"
    "\<And>x w'. px_ntf depth e p DMPWAIT ?x w = Inr (x, w') \<Longrightarrow> px_frame w w' \<Longrightarrow> px_round e k eps w = Inr w'"
    using px_round_heard [OF assms(1,2,6-8)] by blast
  let ?w = "w\<lparr>w_center := snd (notify_targets p DMPWAIT (w_center w))\<rparr>"
  note look = px_keeps_lookup [OF assms(2), of p DMPWAIT]
  have ok: "px_ok ?w" "pe_attach e" using look assms(3) by (simp_all add: px_keeps_def lawful_def)
  have good: "\<forall>q \<in> set eps. resp_fd q \<in> dom (sock_map (w_px ?w)) \<and> (ready q \<longrightarrow> good_reply e ?w (resp_fd q))"
    using assms(5) by (simp add: good_reply_def)
  then have some: "\<forall>q \<in> set eps. resp_fd q \<in> dom (sock_map (w_px ?w)) \<and> (ready q \<longrightarrow> readable e (resp_fd q))"
    by (simp add: good_reply_def readable_def)
  from wait_batch [OF ok assms(4) good, of blank_packet] wait_all [OF ok(1) assms(3,4) some, of blank_packet]
  obtain w' where w': "wait_events e eps blank_packet ?w = Some (Inr w')" "px_keeps ?w w'"
      "sock_map (w_px w') = sock_map (w_px w) |` (- set (hung_up eps))"
      "w_out w' = w_out w @ map (\<lambda>q. (the (sock_map (w_px w) (resp_fd q)), request e (resp_fd q))) (filter ready eps)"
      "w_sys w' = w_sys w @ map SysClose (hung_up eps)"
    by auto
  have "px_update (px_ntf (Suc (Suc 0)) e) e ?x ?w = Some (Inr (?x, w'))"
    using w'(1) by (simp add: px_update_def px_updateForWait_def)
  from px_ntf_heard [OF p(1) this] have ntf: "px_ntf depth e p DMPWAIT ?x w = Inr (?x, w')" by (simp add: depth_def)
  have keeps: "px_keeps w w'" using px_keeps_trans [OF look w'(2)] .
  then have "px_frame w w'" by (simp add: px_keeps_def)
  from p(2) [OF ntf this] keeps w'(3-5) show ?thesis by blast
qed

end
