(* ===== verification/System.thy ===== *)
theory System
  imports Program Loader Proxy_Run
begin

text \<open>
  The server, the balancer and the proxy as one system: the subscriptions that tie them
  together (\<open>src/src/network/tcp_server.cc\<close>, \<open>src/src/proxy/loader.cc\<close>,
  \<open>src/src/proxy/proxy_server.cc\<close>), and the server's program with the balancing thread beside
  it, whose steps interleave.
\<close>

section \<open>The proxy's demultiplexers\<close>

text \<open>\<open>quiet_loop\<close> silences the demultiplexers and subscribes to their deliveries.\<close>

lemma quiet_loop_ok:
  "\<forall>a \<in> set as. r_dmps r a \<noteq> None \<Longrightarrow>
   \<exists>r'. quiet_loop as self r = Inr r' \<and>
     wire subscribe (map (\<lambda>a. (dmp_id (the (r_dmps r a)), DMPWAIT)) as) self (r_center r) = Inr (r_center r') \<and>
     dom (r_dmps r') = dom (r_dmps r) \<and>
     (\<forall>a d'. r_dmps r' a = Some d' \<longrightarrow> (\<exists>d. r_dmps r a = Some d \<and> dmp_id d' = dmp_id d \<and>
        (notify_on d' \<longrightarrow> notify_on d \<and> a \<notin> set as)))"
proof (induction as arbitrary: r)
  case (Cons a as)
  from Cons.prems obtain d where d: "r_dmps r a = Some d" by auto
  obtain c where c: "subscribe (dmp_id d) DMPWAIT (Some self) (r_center r) = Inr c" using bus.sub_law by blast
  let ?r = "r\<lparr>r_dmps := (r_dmps r)(a \<mapsto> enableNotify False d), r_center := c\<rparr>"
  have "\<forall>a \<in> set as. r_dmps ?r a \<noteq> None" using Cons.prems by auto
  from Cons.IH [OF this] obtain r' where r': "quiet_loop as self ?r = Inr r'"
      "wire subscribe (map (\<lambda>a. (dmp_id (the (r_dmps ?r a)), DMPWAIT)) as) self (r_center ?r) = Inr (r_center r')"
      "dom (r_dmps r') = dom (r_dmps ?r)"
      "\<forall>b d'. r_dmps r' b = Some d' \<longrightarrow> (\<exists>d. r_dmps ?r b = Some d \<and> dmp_id d' = dmp_id d \<and>
        (notify_on d' \<longrightarrow> notify_on d \<and> b \<notin> set as))"
    by blast
  have "dmp_id (the (r_dmps ?r b)) = dmp_id (the (r_dmps r b))" for b
    using d by (simp add: enableNotify_def)
  then have "wire subscribe (map (\<lambda>a. (dmp_id (the (r_dmps r a)), DMPWAIT)) (a # as)) self (r_center r) =
      Inr (r_center r')"
    using r'(2) d c by simp
  moreover have "dom (r_dmps r') = dom (r_dmps r)" using r'(3) d by auto
  moreover have "\<exists>d0. r_dmps r b = Some d0 \<and> dmp_id d' = dmp_id d0 \<and>
      (notify_on d' \<longrightarrow> notify_on d0 \<and> b \<notin> set (a # as))" if "r_dmps r' b = Some d'" for b d'
  proof -
    from r'(4) that obtain d0 where "r_dmps ?r b = Some d0" "dmp_id d' = dmp_id d0"
        "notify_on d' \<longrightarrow> notify_on d0 \<and> b \<notin> set as" by blast
    with d show ?thesis by (cases "b = a") (auto simp: enableNotify_def)
  qed
  ultimately show ?case
    using r'(1) d c by (intro exI [of _ r']) (simp add: enableNotify_def)
qed simp

text \<open>What a construction of the proxy leaves, in terms of the center it began with.\<close>

text \<open>A new proxy: no client yet, its group's threads running on demultiplexers that are silent.\<close>

definition px_new :: "proxy \<Rightarrow> (nat \<rightharpoonup> demux) \<Rightarrow> bool" where
  "px_new px dm \<longleftrightarrow> sock_map px = Map.empty \<and> reversed_map px = Map.empty \<and> group_ok (px_group px) \<and>
     g_notify (px_group px) \<and> running (px_group px) \<and> set (g_dmps (px_group px)) = dom dm \<and>
     (\<forall>a d. dm a = Some d \<longrightarrow> \<not> notify_on d)"

lemma make_proxy_made:
  assumes "make_proxy piped x threads news i (bare_reactor c) = Inr (i', px, r)" "center_ok c"
    and "nat threads \<le> length news" "distinct (map fst (take (nat threads) news))"
  defines "ids \<equiv> map dmp_id (demux_list (PublisherID i Demultiplex_cc) (take (nat threads) news))"
  shows "px_addr px = x \<and> px_pub px = PublisherID i Proxy_server_cc \<and> center_ok (r_center r) \<and>
    (\<forall>p. registered c p \<longrightarrow> registered (r_center r) p) \<and> 1 \<le> threads \<and>
    (\<forall>a d. r_dmps r a = Some d \<longrightarrow> dmp_id d \<in> set ids \<and> \<not> notify_on d) \<and>
    px_new px (r_dmps r) \<and>
    center_targets (r_center r) = (\<lambda>p t. if p \<in> set ids \<and> t = DMPWAIT then insert x (center_targets c p t)
      else center_targets c p t)"
proof -
  let ?new = "take (nat threads) news" and ?m = "PublisherID i Demultiplex_cc"
  let ?ds = "demux_list ?m ?new" and ?M = "Map.empty(map fst ?new [\<mapsto>] demux_list ?m ?new)"
  let ?c1 = "announced ?m ?new c"
  let ?r1 = "(bare_reactor c)\<lparr>r_center := ?c1, r_dmps := ?M\<rparr>"
  obtain sid i1 pid i2 where i: "sub_id Proxy_server_cc i = (sid, i1)" "pub_id Proxy_server_cc i1 = (pid, i2)"
    by (meson surj_pair)
  then have pid: "pid = PublisherID i Proxy_server_cc" "PublisherID i2 Demultiplex_cc = ?m"
    by (auto simp: sub_id_def pub_id_def)
  from assms(1) obtain i3 g r1 r2 c3 where
    1: "group_init threads news i2 (make_group True) (bare_reactor c) = Inr (i3, g, r1)"
      "quiet_loop (g_dmps g) x r1 = Inr r2" "registerPub pid (Some x) (r_center r2) = Inr c3"
      "px_addr px = x" "px_pub px = pid" "r = r2\<lparr>r_center := c3\<rparr>"
      "sock_map px = Map.empty" "reversed_map px = Map.empty" "px_group px = g"
    by (auto simp: make_proxy_def i result_simps split: if_splits)
  obtain g' where n: "1 \<le> threads" and init: "init_loop ?new i2 (make_group True) (bare_reactor c) = Inr (i3, g', r1)"
      "g = g'\<lparr>g_iter := 0\<rparr>"
    using 1(1) by (auto simp: group_init_def result_simps split: if_splits)
  have desc: "\<forall>q \<in> set ?new. 0 \<le> snd q" using init_loop_descriptors [OF init(1)] .
  have len: "length ?new = nat threads" using assms(3) by simp
  have g: "g_dmps g = map fst ?new" "r1 = ?r1" "g_done g = replicate (nat threads) False" "g_notify g" "\<not> g_stop g"
      "g_iter g = 0"
    using init len by (auto simp: init_loop_eq [OF desc] make_group_def bare_reactor_def pid(2))
  then have "group_ok g" "running g" using n len by (auto simp: group_ok_def running_def list_all_length)
  have M: "dom ?M = fst ` set ?new" "?M a = Some d \<Longrightarrow> d \<in> set ?ds" for a d
    using made_dmps(2,3) [OF assms(4)] by blast+
  have "dmp_id (the (?M a)) = (case ?M a of None \<Rightarrow> 0 | Some d \<Rightarrow> dmp_id d)" if "a \<in> set (map fst ?new)" for a
  proof -
    have "a \<in> dom ?M" using that M(1) by simp
    then obtain d where "?M a = Some d" by blast
    then show ?thesis by simp
  qed
  then have ids: "map (\<lambda>a. dmp_id (the (?M a))) (map fst ?new) = ids"
    unfolding ids_def made_dmps(1) [OF assms(4), symmetric] by (rule map_cong [OF refl])
  have pairs: "map (\<lambda>a. (dmp_id (the (?M a)), DMPWAIT)) (map fst ?new) = map (\<lambda>p. (p, DMPWAIT)) ids"
    unfolding ids [symmetric] by (simp only: map_map comp_def)
  have "\<forall>a \<in> set (g_dmps g). r_dmps ?r1 a \<noteq> None"
  proof
    fix a assume "a \<in> set (g_dmps g)"
    then have "a \<in> dom ?M" using M(1) g(1) by simp
    then have "?M a \<noteq> None" by (rule domIff [THEN iffD1])
    then show "r_dmps ?r1 a \<noteq> None" by simp
  qed
  from quiet_loop_ok [OF this, of x] obtain r2' where q: "quiet_loop (g_dmps g) x ?r1 = Inr r2'"
      "wire subscribe (map (\<lambda>a. (dmp_id (the (r_dmps ?r1 a)), DMPWAIT)) (g_dmps g)) x (r_center ?r1) = Inr (r_center r2')"
      "dom (r_dmps r2') = dom (r_dmps ?r1)"
      "\<forall>a d'. r_dmps r2' a = Some d' \<longrightarrow> (\<exists>d. r_dmps ?r1 a = Some d \<and> dmp_id d' = dmp_id d \<and>
        (notify_on d' \<longrightarrow> notify_on d \<and> a \<notin> set (g_dmps g)))"
    by blast
  have r2: "r2' = r2" using q(1) 1(2) g(2) by simp
  have ok1: "center_ok ?c1" using announced_ok [OF assms(2)] .
  have w: "wire subscribe (map (\<lambda>p. (p, DMPWAIT)) ids) x ?c1 = Inr (r_center r2)"
    using q(2) pairs g(1) r2 by simp
  note ok2 = wire_subscribe_ok [OF w ok1]
  have reg: "registered ?c1 p" if "p \<in> set ids" for p using that by (simp add: ids_def)
  have tg1: "center_targets ?c1 = center_targets c"
    by (intro ext) (simp add: targets_of_ok [OF ok1] targets_of_ok [OF assms(2)])
  have tg2: "registered (r_center r2) = registered ?c1"
      "center_targets (r_center r2) = (\<lambda>p t. if p \<in> set ids \<and> t = DMPWAIT then insert x (center_targets c p t)
        else center_targets c p t)"
    using bus.wire_sub [of "map (\<lambda>p. (p, DMPWAIT)) ids" x ?c1] w reg unfolding tg1
    by (auto simp: fun_eq_iff)
  have c3: "center_ok c3" "subcribers c3 = subcribers (r_center r2)" "\<And>p. registered c3 p \<longleftrightarrow> registered (r_center r2) p \<or> p = pid"
    using registerPub_ok [OF 1(3) ok2] by blast+
  have tg3: "center_targets c3 = center_targets (r_center r2)"
    using c3(2) by (intro ext) (simp add: targets_of_ok [OF ok2] targets_of_ok [OF c3(1)])
  have "dmp_id d \<in> set ids \<and> \<not> notify_on d" if "r_dmps r a = Some d" for a d
  proof -
    from that 1(6) r2 q(4) obtain d0 where d0: "?M a = Some d0" "dmp_id d = dmp_id d0"
        "notify_on d \<longrightarrow> a \<notin> set (g_dmps g)" by auto
    from d0(1) have "a \<in> dom ?M" by blast
    with d0 M g(1) show ?thesis by (auto simp: ids_def)
  qed
  moreover have "dom (r_dmps r) = fst ` set ?new" using q(3) M(1) r2 1(6) by simp
  ultimately have "px_new px (r_dmps r)"
    using 1(7,8,9) g \<open>group_ok g\<close> \<open>running g\<close> by (simp add: px_new_def)
  moreover note \<open>\<And>d a. r_dmps r a = Some d \<Longrightarrow> dmp_id d \<in> set ids \<and> \<not> notify_on d\<close>
  moreover have "registered (r_center r) p" if "registered c p" for p
    using that c3(3) tg2(1) 1(6) by simp
  ultimately show ?thesis using 1(4-6) c3(1) tg2(2) tg3 pid(1) n by simp
qed

section \<open>Wiring the system\<close>

interpretation balancer_proxy: link lb_pubID "\<lambda>_. FORWARD" "\<lambda>_. True" lb_notify px_addr px_subscribe ..

text \<open>
  The objects of the program, made one after the other in an empty center: the server, the
  balancer, which subscribes to the server's batches, and the proxy, which subscribes to the
  balancer's assignments. The addresses of demultiplexers are distinct, and there are not so
  many of them that their 16-bit identifiers wrap.
\<close>

inductive built :: "tcp_server \<Rightarrow> balancer \<Rightarrow> proxy \<Rightarrow> reactor \<Rightarrow> reactor \<Rightarrow> bool" where
  build: "make_tcp_server inet_aton k self acc ip port subloop news fresh_ids [] new_center =
      Some (Inr (ts, i1, h1, r1)) \<Longrightarrow>
    make_balancer b i1 (r_center r1) = Inr (lb, i2, c2) \<Longrightarrow>
    make_proxy piped x threads pnews i2 (bare_reactor c2) = Inr (i3, px, r3) \<Longrightarrow>
    lb_subscribe lb (server_pubID (ts_server ts)) BALANCE (r_center r3) = Inr c4 \<Longrightarrow>
    px_subscribe px (lb_pubID lb) FORWARD c4 = Inr c5 \<Longrightarrow>
    nat subloop \<le> length news \<Longrightarrow> distinct (map fst (take (nat subloop) news)) \<Longrightarrow>
    nat threads \<le> length pnews \<Longrightarrow> distinct (map fst (take (nat threads) pnews)) \<Longrightarrow>
    nat subloop + nat threads \<le> 2 ^ 16 \<Longrightarrow>
    built ts lb px (r1\<lparr>r_center := c5\<rparr>) (r3\<lparr>r_center := c5\<rparr>)"

text \<open>Nothing is accounted while the objects are made.\<close>

lemma subscribe_traffic: "subscribe p t a c = Inr c' \<Longrightarrow> traffic_map c' = traffic_map c"
  by (auto simp: subscribe_def split: option.splits if_splits)

lemma registerPub_traffic: "registerPub p a c = Inr c' \<Longrightarrow> traffic_map c' = traffic_map c"
  by (auto simp: registerPub_def split: option.splits)

lemma wire_traffic: "wire subscribe ps x c = Inr c' \<Longrightarrow> traffic_map c' = traffic_map c"
  by (induction ps arbitrary: c) (auto simp: result_simps dest!: subscribe_traffic)

lemma init_loop_traffic:
  "init_loop news i g r = Inr (i', g', r') \<Longrightarrow> traffic_map (r_center r') = traffic_map (r_center r)"
proof (induction news arbitrary: i g r)
  case (Cons q news)
  obtain a epfd where q: "q = (a, epfd)" by (cases q)
  with Cons.prems obtain d i1 c1 where "make_demux epfd a i (r_center r) = Inr (d, i1, c1)"
    and rest: "init_loop news i1 (g\<lparr>g_dmps := g_dmps g @ [a], g_done := g_done g @ [False]\<rparr>)
      (r\<lparr>r_center := c1, r_dmps := (r_dmps r)(a \<mapsto> d)\<rparr>) = Inr (i', g', r')"
    by (auto simp: result_simps)
  then have "traffic_map c1 = traffic_map (r_center r)"
    by (auto simp: make_demux_def result_simps dest!: registerPub_traffic split: if_splits prod.splits)
  with Cons.IH [OF rest] show ?case by simp
qed simp

lemma quiet_loop_traffic: "quiet_loop as self r = Inr r' \<Longrightarrow> traffic_map (r_center r') = traffic_map (r_center r)"
proof (induction as arbitrary: r)
  case (Cons a as)
  from Cons.prems obtain d c where "subscribe (dmp_id d) DMPWAIT (Some self) (r_center r) = Inr c"
      "quiet_loop as self (r\<lparr>r_dmps := (r_dmps r)(a \<mapsto> enableNotify False d), r_center := c\<rparr>) = Inr r'"
    by (auto simp: result_simps split: option.splits)
  with Cons.IH subscribe_traffic show ?case by fastforce
qed simp

lemma make_tcp_server_traffic:
  assumes "nat subloop \<le> length news"
    "make_tcp_server inet_aton k self acc ip port subloop news i h c = Some (Inr (ts, i', h', r))"
  shows "traffic_map (r_center r) = traffic_map c"
  by (rule make_tcp_server_parts [OF assms]) (auto dest!: registerPub_traffic wire_traffic)

lemma make_proxy_traffic:
  "make_proxy piped x threads news i r = Inr (i', px, r') \<Longrightarrow> traffic_map (r_center r') = traffic_map (r_center r)"
  by (auto simp: make_proxy_def group_init_def result_simps dest!: init_loop_traffic quiet_loop_traffic registerPub_traffic
      split: if_splits prod.splits)

lemma built_traffic:
  assumes "built ts lb px r rp"
  shows "traffic_map (r_center r) = Map.empty"
  using assms
proof (cases rule: built.cases)
  case (build inet_aton k self acc ip port subloop news i1 h1 r1 b i2 c2 piped x threads pnews i3 r3 c4 c5)
  have "traffic_map c2 = traffic_map (r_center r1)"
    using build(4) by (auto simp: make_balancer_def pub_id_def sub_id_def result_simps dest!: registerPub_traffic)
  with make_tcp_server_traffic [OF build(8,3)] make_proxy_traffic [OF build(5)] build(1,6,7) show ?thesis
    by (auto simp: lb_subscribe_def px_subscribe_def new_center_def bare_reactor_def dest!: subscribe_traffic)
qed

lemma demux_ids_apart:
  assumes "length xs + length ys \<le> 2 ^ 16"
  shows "set (map dmp_id (demux_list 0 xs)) \<inter> set (map dmp_id (demux_list (word_of_nat (length xs)) ys)) = {}"
proof -
  have "(word_of_nat j :: u16) \<noteq> word_of_nat (length xs + l)" if "j < length xs" "l < length ys" for j l
  proof
    assume "(word_of_nat j :: u16) = word_of_nat (length xs + l)"
    then have "unat (word_of_nat j :: u16) = unat (word_of_nat (length xs + l) :: u16)" by simp
    moreover have "j < 2 ^ 16" "length xs + l < 2 ^ 16" using that assms by linarith+
    then have "unat (word_of_nat j :: u16) = j" "unat (word_of_nat (length xs + l) :: u16) = length xs + l"
      by (simp_all add: unat_of_nat del: of_nat_add)
    ultimately show False using that(1) by linarith
  qed
  then show ?thesis unfolding demux_list_ids by auto
qed

lemma fresh_server_made:
  assumes "nat subloop \<le> length news" "distinct (map fst (take (nat subloop) news))"
    and "make_tcp_server inet_aton k self acc ip port subloop news fresh_ids [] new_center = Some (Inr (ts, i', h', r))"
  defines "S \<equiv> set (map dmp_id (demux_list 0 (take (nat subloop) news)))"
  shows "server_made self new_center (map fst (take (nat subloop) news)) ts r \<and>
    srv_pub_id (ts_server ts) = 0 \<and> acc_id (ts_acceptor ts) = 1 \<and> 0 \<in> S \<and>
    (\<forall>a d. r_dmps r a = Some d \<longrightarrow> dmp_id d \<in> S) \<and> (\<exists>a d. r_dmps r a = Some d \<and> dmp_id d = 0) \<and>
    PublisherID i' Demultiplex_cc = word_of_nat (nat subloop) \<and> PublisherID i' Loader_cc = 0 \<and>
    PublisherID i' Proxy_server_cc = 0 \<and>
    (\<forall>p t. center_targets (r_center r) p t = (if p \<in> S \<and> served t \<or> p = 1 \<and> t = ACCEPTED then {self} else {}))"
proof -
  let ?new = "take (nat subloop) news"
  note made = make_tcp_server_made [OF new_center_ok new_center_silent assms(1-3)]
  have len: "length ?new = nat subloop" using assms(1) by simp
  show ?thesis
  proof (rule make_tcp_server_parts [OF assms(1,3)])
    let ?M = "Map.empty(map fst ?new [\<mapsto>] demux_list 0 ?new)"
    fix s and a :: acceptor and c1 c2 g r1
    assume "acc_id a = PublisherID fresh_ids Tcp_server_cc + 1" and new: "?new \<noteq> []"
      and g: "g = \<lparr>g_stop = False, g_dmps = map fst ?new, g_done = replicate (length ?new) False,
        g_notify = True, g_iter = 0\<rparr>"
      and "r1 = (bare_reactor c1)\<lparr>r_center := announced (PublisherID fresh_ids Demultiplex_cc) ?new c1,
        r_dmps := Map.empty(map fst ?new [\<mapsto>] demux_list (PublisherID fresh_ids Demultiplex_cc) ?new)\<rparr>"
      and ts: "ts = \<lparr>ts_server = \<lparr>srv_addr = self, srv_sub_id = SubscriberID fresh_ids Tcp_server_cc,
          srv_pub_id = PublisherID fresh_ids Tcp_server_cc\<rparr>,
        ts_socket = s, ts_acceptor = \<lparr>acc_id = acc_id a, acc_server = acc_server a\<rparr>,
        ts_loop = \<lparr>el_stop = False, el_group = g\<rparr>\<rparr>" and r: "r = r1\<lparr>r_center := c2\<rparr>"
      and i': "PublisherID i' = (PublisherID fresh_ids)(Tcp_server_cc := acc_id a + 1,
        Demultiplex_cc := PublisherID fresh_ids Demultiplex_cc + word_of_nat (length ?new))"
    then have a: "acc_id a = 1" and dm: "r_dmps r = ?M" by (simp_all add: fresh_ids_def)
    have "set (dmp_ids r (el_group (ts_loop ts))) = S"
      using made_dmps(1) [OF assms(2), of 0] dm by (simp add: dmp_ids_eq ts g S_def)
    moreover have "0 \<in> S" using new by (cases ?new) (auto simp: S_def)
    moreover have "dmp_id d \<in> S" if "r_dmps r b = Some d" for b d
      using made_dmps(3) [OF assms(2), of 0 b d] that dm by (auto simp: S_def)
    moreover have none: "center_targets new_center p t = {}" for p t
      by (simp add: center_targets_eq new_center_def sub_entry_def)
    moreover have "\<exists>a d. r_dmps r a = Some d \<and> dmp_id d = 0"
    proof -
      obtain q qs where q: "?new = q # qs" using new by (cases ?new) auto
      have "fst q \<in> dom ?M" using made_dmps(2) [OF assms(2), of 0] q by simp
      then obtain d where d: "?M (fst q) = Some d" by blast
      with arg_cong [OF made_dmps(1) [OF assms(2), of 0], of hd] have "dmp_id d = 0"
        by (cases q) (simp add: q)
      with d dm show ?thesis by auto
    qed
    ultimately show ?thesis
      using made i' len a ts by (simp add: server_made_def fresh_ids_def)
  qed
qed

lemma wired_center:
  assumes "started sv r" "srv_addr sv = self" "center_ok c"
    and "\<forall>a d. r_dmps r a = Some d \<longrightarrow> registered c (dmp_id d) \<and>
      (\<forall>t. served t \<longrightarrow> center_targets c (dmp_id d) t = {self})"
  shows "started sv (r\<lparr>r_center := c\<rparr>)"
proof -
  have "wired sv (r\<lparr>r_center := c\<rparr>) d" if "r_dmps r a = Some d" for a d
  proof -
    have "notify_on d" using assms(1) that by (auto simp: started_def wired_def)
    then show ?thesis using assms(2-4) that by (intro wired_targets) auto
  qed
  then show ?thesis using assms(1) by (auto simp: started_def)
qed

lemma make_balancer_made:
  assumes "make_balancer b i c = Inr (lb, i', c')" "center_ok c"
  shows "lb_addr lb = b \<and> lb_pub lb = PublisherID i Loader_cc \<and> center_ok c' \<and>
    center_targets c' = center_targets c \<and> (\<forall>p. registered c p \<longrightarrow> registered c' p) \<and>
    PublisherID i' = (PublisherID i)(Loader_cc := PublisherID i Loader_cc + 1) \<and>
    backend lb = [] \<and> sock_queue lb = [] \<and> \<not> lb_stop lb"
proof -
  have reg: "registerPub (PublisherID i Loader_cc) (Some b) c = Inr c'"
    and rest: "lb_addr lb = b" "lb_pub lb = PublisherID i Loader_cc" "backend lb = []" "sock_queue lb = []"
      "\<not> lb_stop lb" "PublisherID i' = (PublisherID i)(Loader_cc := PublisherID i Loader_cc + 1)"
    using assms(1) by (auto simp: make_balancer_def pub_id_def sub_id_def result_simps)
  note ok = registerPub_ok [OF reg assms(2)]
  have "center_targets c' = center_targets c"
    by (intro ext) (use ok in \<open>simp add: targets_of_ok assms(2)\<close>)
  with ok rest show ?thesis by blast
qed

lemma built_facts:
  assumes "built ts lb px r rp"
  shows "server_pubID (ts_server ts) = 0 \<and> lb_pubID lb = 0 \<and> px_pubID px = 0 \<and>
    (\<exists>a d. r_dmps r a = Some d \<and> dmp_id d = 0) \<and>
    center_ok (r_center r) \<and> r_center rp = r_center r \<and>
    center_targets (r_center r) 0 BALANCE = {lb_addr lb} \<and>
    center_targets (r_center r) 0 FORWARD = {px_addr px} \<and>
    (\<forall>a d t. r_dmps r a = Some d \<longrightarrow> served t \<longrightarrow> center_targets (r_center r) (dmp_id d) t = {srv_addr (ts_server ts)}) \<and>
    (\<forall>a d t. r_dmps rp a = Some d \<longrightarrow> served t \<longrightarrow>
       center_targets (r_center r) (dmp_id d) t = (if t = DMPWAIT then {px_addr px} else {})) \<and>
    px_new px (r_dmps rp) \<and> started (ts_server ts) r \<and> program_inv (ts_server ts) (ts_loop ts, r) \<and> backend lb = [] \<and> sock_queue lb = [] \<and> \<not> lb_stop lb"
  using assms
proof (cases rule: built.cases)
  case (build inet_aton k self acc ip port subloop news i1 h1 r1 b i2 c2 piped x threads pnews i3 r3 c4 c5)
  let ?S = "set (map dmp_id (demux_list 0 (take (nat subloop) news)))"
  let ?T = "set (map dmp_id (demux_list (word_of_nat (nat subloop)) (take (nat threads) pnews)))"
  note sv = fresh_server_made [OF build(8,9,3)]
  then have ok1: "center_ok (r_center r1)" and addr: "srv_addr (ts_server ts) = self"
    and st: "started (ts_server ts) r1" by (simp_all add: server_made_def)
  note lb = make_balancer_made [OF build(4) ok1]
  then have ok2: "center_ok c2" by simp
  have m: "PublisherID i2 Demultiplex_cc = word_of_nat (nat subloop)" "PublisherID i2 Proxy_server_cc = 0"
    using lb sv by simp_all
  note px = make_proxy_made [OF build(5) ok2 build(10,11), unfolded m]
  have apart: "?S \<inter> ?T = {}"
    using demux_ids_apart [of "take (nat subloop) news" "take (nat threads) pnews"] build(8,10,12) by simp
  have zero: "0 \<in> ?S" "0 \<notin> ?T" using sv apart by blast+
  have sub: "lb_subscribe lb 0 BALANCE (r_center r3) = Inr c4" "px_subscribe px 0 FORWARD c4 = Inr c5"
    using build(6,7) sv lb by (simp_all add: server_pubID_def lb_pubID_def fresh_ids_def)
  have reg1: "registered (r_center r1) p" if "p \<in> ?S" for p
  proof -
    have "center_targets (r_center r1) p DMPWAIT = {self}" using sv that by simp
    then show ?thesis by (auto simp: center_targets_eq split: if_splits)
  qed
  then have reg3: "registered (r_center r3) p" if "p \<in> ?S" for p using lb px that by blast
  have tg3: "center_targets (r_center r3) p t = (if p \<in> ?T \<and> t = DMPWAIT
      then insert x (center_targets (r_center r1) p t) else center_targets (r_center r1) p t)" for p t
    using px lb by simp
  from server_balancer.subscribe_law [of "r_center r3" lb 0 BALANCE] px sub(1) have c4: "center_ok c4"
      "publishers c4 = publishers (r_center r3)" "center_targets c4 = (\<lambda>q u. if q = 0 \<and> u = BALANCE
        then insert b (center_targets (r_center r3) q u) else center_targets (r_center r3) q u)"
    using reg3 [OF zero(1)] lb by auto
  have reg4: "registered c4 p \<longleftrightarrow> registered (r_center r3) p" for p using c4(2) by (simp add: registered_def)
  from px_subscriber.subscribe_law [OF c4(1), of px 0 FORWARD] sub(2) have c5: "center_ok c5"
      "publishers c5 = publishers c4" "center_targets c5 = (\<lambda>q u. if q = 0 \<and> u = FORWARD
        then insert x (center_targets c4 q u) else center_targets c4 q u)"
    using reg3 [OF zero(1)] reg4 px by auto
  have reg5: "registered c5 p \<longleftrightarrow> registered (r_center r3) p" for p
    using c5(2) reg4 by (simp add: registered_def)
  have tg5: "center_targets c5 p t =
      (if p = 0 \<and> t = FORWARD then {x} else if p = 0 \<and> t = BALANCE then {b}
       else if p \<in> ?T \<and> t = DMPWAIT then {x} else if p \<in> ?S \<and> served t \<or> p = 1 \<and> t = ACCEPTED then {self} else {})" for p t
    using sv apart zero by (auto simp: c5(3) c4(3) tg3)
  have ids: "dmp_id d \<in> ?S" if "r_dmps r1 a = Some d" for a d using sv that by blast
  have idt: "dmp_id d \<in> ?T" if "r_dmps r3 a = Some d" for a d using px that by blast
  have "started (ts_server ts) (r1\<lparr>r_center := c5\<rparr>)"
  proof (rule wired_center [OF st addr c5(1)], intro allI impI conjI)
    fix a d assume d: "r_dmps r1 a = Some d"
    show "registered c5 (dmp_id d)" using reg5 reg3 [OF ids [OF d]] by simp
    fix t assume "served t"
    then show "center_targets c5 (dmp_id d) t = {self}" using ids [OF d] apart by (auto simp: tg5)
  qed
  then have "started (ts_server ts) r \<and> program_inv (ts_server ts) (ts_loop ts, r)"
    using sv server_reach.start build(1) by (simp add: server_made_def program_inv_def)
  moreover have "\<exists>a d. r_dmps r1 a = Some d \<and> dmp_id d = 0" using sv by blast
  moreover have "center_targets c5 (dmp_id d) t = {self}" if "r_dmps r1 a = Some d" "served t" for a d t
    using ids [OF that(1)] apart that(2) by (auto simp: tg5)
  moreover have "center_targets c5 (dmp_id d) t = (if t = DMPWAIT then {x} else {})"
    if "r_dmps r3 a = Some d" "served t" for a d t
    using idt [OF that(1)] apart that(2) by (auto simp: tg5)
  ultimately show ?thesis
    using build(1,2) sv lb px c5(1) tg5 addr
    by (auto simp: server_pubID_def lb_pubID_def px_pubID_def)
qed

lemma make_proxy_returns:
  assumes "piped \<noteq> -1" "1 \<le> threads" "nat threads \<le> length news"
    "\<forall>q \<in> set (take (nat threads) news). 0 \<le> snd q" "distinct (map fst (take (nat threads) news))"
  shows "\<exists>y. make_proxy piped x threads news i (bare_reactor c) = Inr y"
proof -
  let ?new = "take (nat threads) news"
  obtain sid i1 pid i2 where i: "sub_id Proxy_server_cc i = (sid, i1)" "pub_id Proxy_server_cc i1 = (pid, i2)"
    by (meson surj_pair)
  let ?m = "PublisherID i2 Demultiplex_cc"
  let ?M = "Map.empty(map fst ?new [\<mapsto>] demux_list ?m ?new)"
  let ?r1 = "(bare_reactor c)\<lparr>r_center := announced ?m ?new c, r_dmps := ?M\<rparr>"
  let ?g = "(make_group True)\<lparr>g_dmps := map fst ?new, g_done := replicate (length ?new) False, g_iter := 0\<rparr>"
  have g: "group_init threads news i2 (make_group True) (bare_reactor c) = Inr (counted (length ?new) i2, ?g, ?r1)"
    using assms(2) init_loop_eq [OF assms(4), of i2 "make_group True" "bare_reactor c"]
    by (simp add: group_init_def make_group_def bare_reactor_def)
  have "r_dmps ?r1 a \<noteq> None" if "a \<in> set (map fst ?new)" for a
  proof -
    have "a \<in> dom ?M" using made_dmps(2) [OF assms(5), of ?m] that by simp
    then have "?M a \<noteq> None" by (rule domIff [THEN iffD1])
    then show ?thesis by simp
  qed
  then obtain r2 where "quiet_loop (map fst ?new) x ?r1 = Inr r2"
    using quiet_loop_ok [of "map fst ?new" ?r1 x] by blast
  with g show ?thesis using assms(1) by (simp add: make_proxy_def i registerPub_def)
qed

text \<open>A system of two and one demultiplexers.\<close>

lemma demo_built:
  "\<exists>ts lb px r rp. built ts lb px r rp \<and> srv_addr (ts_server ts) = 42 \<and> lb_addr lb = 50 \<and> px_addr px = 60 \<and>
     g_dmps (el_group (ts_loop ts)) = [1, 2] \<and> \<not> el_stop (ts_loop ts)"
proof -
  obtain ts i1 h1 r1 where sv: "make_tcp_server (\<lambda>_. 0) demo_kernel 42 7 ''0.0.0.0'' ''80'' 2 demo_news fresh_ids []
      new_center = Some (Inr (ts, i1, h1, r1))" "server_made 42 new_center [1, 2] ts r1"
    using demo_made by blast
  then have ok1: "center_ok (r_center r1)" by (simp add: server_made_def)
  obtain lb i2 c2 where lb: "make_balancer 50 i1 (r_center r1) = Inr (lb, i2, c2)"
    by (simp add: make_balancer_def pub_id_def sub_id_def registerPub_def)
  note lbm = make_balancer_made [OF lb ok1]
  have one: "nat 1 \<le> length [(3 :: nat, 6 :: int)]" "distinct (map fst (take (nat 1) [(3 :: nat, 6 :: int)]))" by simp_all
  obtain i3 px r3 where px: "make_proxy 0 60 1 [(3, 6)] i2 (bare_reactor c2) = Inr (i3, px, r3)"
    using make_proxy_returns [OF _ _ one(1) _ one(2), of 0 60 i2 c2] by auto
  have "center_ok c2" using lbm by simp
  note pxm = make_proxy_made [OF px this one]
  then have ok3: "center_ok (r_center r3)" "px_addr px = 60" by simp_all
  obtain c4 where c4: "lb_subscribe lb (server_pubID (ts_server ts)) BALANCE (r_center r3) = Inr c4" "center_ok c4"
    using server_balancer.subscribe_law [OF ok3(1)] by blast
  obtain c5 where c5: "px_subscribe px (lb_pubID lb) FORWARD c4 = Inr c5"
    using px_subscriber.subscribe_law [OF c4(2)] by blast
  have "nat 2 \<le> length demo_news" "distinct (map fst (take (nat 2) demo_news))" "nat 2 + nat 1 \<le> 2 ^ 16"
    by (simp_all add: demo_news_def)
  note sys = built.build [OF sv(1) lb px c4(1) c5 this(1,2) one this(3)]
  have "srv_addr (ts_server ts) = 42" "g_dmps (el_group (ts_loop ts)) = [1, 2]" "\<not> el_stop (ts_loop ts)"
    using sv(2) by (simp_all add: server_made_def)
  with sys lbm ok3(2) show ?thesis by blast
qed

text \<open>C9. The system is wired as it is meant to be, although the three objects and the first
  demultiplexer of the server all have the publisher identifier 0. The server's batches reach
  the balancer and nobody else, the balancer's assignments the proxy and nobody else, the
  events of the server's demultiplexers the server alone, and those of the proxy's
  demultiplexers the proxy alone, which hears of deliveries only; and the server is ready to
  run.\<close>

theorem system_wired:
  assumes "built ts lb px r rp"
  shows "server_pubID (ts_server ts) = 0 \<and> lb_pubID lb = 0 \<and> px_pubID px = 0 \<and>
    (\<exists>a d. r_dmps r a = Some d \<and> demux_pubID d = 0) \<and>
    center_targets (r_center r) (server_pubID (ts_server ts)) BALANCE = {lb_addr lb} \<and>
    center_targets (r_center r) (lb_pubID lb) FORWARD = {px_addr px} \<and>
    (\<forall>a d t. r_dmps r a = Some d \<longrightarrow> served t \<longrightarrow>
       center_targets (r_center r) (demux_pubID d) t = {srv_addr (ts_server ts)}) \<and>
    (\<forall>a d t. r_dmps rp a = Some d \<longrightarrow> served t \<longrightarrow>
       center_targets (r_center rp) (demux_pubID d) t = (if t = DMPWAIT then {px_addr px} else {})) \<and>
    started (ts_server ts) r"
  using built_facts [OF assms] by (simp add: demux_pubID_def)

theorem system_wired_witness:
  "\<exists>ts lb px r rp. built ts lb px r rp \<and> center_targets (r_center r) (server_pubID (ts_server ts)) BALANCE = {50} \<and>
     center_targets (r_center r) (lb_pubID lb) FORWARD = {60}"
  using demo_built system_wired by metis

section \<open>Server and balancer side by side\<close>

text \<open>
  The event loop and the reactor of the server, the balancer and where its thread is, and the
  contexts the thread has published so far.
\<close>

record system =
  sys_loop :: event_loop
  sys_reactor :: reactor
  sys_pc :: lb_pc
  sys_lb :: balancer
  published :: "ctx list"

text \<open>What the server's notifications hand to the balancer, in the order they are sent.\<close>

fun hand_over :: "(nat \<times> ctx) list \<Rightarrow> balancer \<Rightarrow> balancer result" where
  "hand_over [] lb = Inr lb"
| "hand_over ((a, x) # xs) lb =
     (if a = lb_addr lb then bindR (lb_update x lb) (\<lambda>(_, lb'). hand_over xs lb') else hand_over xs lb)"

datatype sys_event = ServerEvent loop_event | BalancerStep | BalancerStop

type_synonym hash_order = "(fd \<times> inet_addr) list \<Rightarrow> (fd \<times> inet_addr) list"

fun sys_do :: "hash_order \<Rightarrow> server \<Rightarrow> sys_event \<Rightarrow> system \<Rightarrow> system result" where
  "sys_do arr sv (ServerEvent ev) s =
     bindR (loop_do sv ev (sys_loop s, sys_reactor s)) (\<lambda>(el, r).
     bindR (hand_over (drop (length (outbox (sys_reactor s))) (outbox r)) (sys_lb s)) (\<lambda>lb.
       Inr (s\<lparr>sys_loop := el, sys_reactor := r, sys_lb := lb\<rparr>)))"
| "sys_do arr sv BalancerStep s =
     bindR (loadbalance arr (sys_pc s, sys_lb s)) (\<lambda>(x, pc, lb).
       Inr (s\<lparr>sys_pc := pc, sys_lb := lb,
              published := published s @ (case x of None \<Rightarrow> [] | Some c \<Rightarrow> [c])\<rparr>))"
| "sys_do arr sv BalancerStop s = Inr (s\<lparr>sys_lb := lb_set_stop (sys_lb s)\<rparr>)"

fun sys_sane :: "sys_event \<Rightarrow> system \<Rightarrow> bool" where
  "sys_sane (ServerEvent ev) s \<longleftrightarrow> sane ev (sys_reactor s)"
| "sys_sane _ s \<longleftrightarrow> True"

text \<open>Backends are added before the threads run, each somewhere in the hash table.\<close>

definition with_backends :: "arrangement \<Rightarrow> arrangement \<Rightarrow> (inet_addr \<times> u16) list \<Rightarrow> balancer \<Rightarrow> balancer" where
  "with_backends arr1 arr2 = fold (\<lambda>q. addBackend arr1 arr2 (fst q) (snd q))"

inductive sys_reach :: "hash_order \<Rightarrow> server \<Rightarrow> system \<Rightarrow> bool" for arr where
  sys_start: "built ts lb px r rp \<Longrightarrow> srv_addr (ts_server ts) \<noteq> lb_addr lb \<Longrightarrow> arranges arr1 \<Longrightarrow> bs \<noteq> [] \<Longrightarrow>
    sys_reach arr (ts_server ts) \<lparr>sys_loop = ts_loop ts, sys_reactor = r, sys_pc = LoopHead,
      sys_lb = with_backends arr1 arr2 bs lb, published = []\<rparr>"
| sys_next: "sys_reach arr sv s \<Longrightarrow> sys_sane ev s \<Longrightarrow> sys_do arr sv ev s = Inr s' \<Longrightarrow> sys_reach arr sv s'"

definition batch_ctx :: "balancer \<Rightarrow> fd list \<Rightarrow> nat \<times> ctx" where
  "batch_ctx lb b = (lb_addr lb, LoadBalanceCtx (pub_code BALANCE) b)"

definition sys_inv :: "hash_order \<Rightarrow> server \<Rightarrow> system \<Rightarrow> bool" where
  "sys_inv arr sv s \<longleftrightarrow> program_inv sv (sys_loop s, sys_reactor s) \<and>
     others sv (r_center (sys_reactor s)) (srv_pub_id sv) BALANCE = [lb_addr (sys_lb s)] \<and>
     backend (sys_lb s) \<noteq> [] \<and> (sys_pc s = Finished \<longrightarrow> lb_stop (sys_lb s)) \<and>
     (\<exists>srv. outbox (sys_reactor s) = map (batch_ctx (sys_lb s)) (srv @ sock_queue (sys_lb s)) \<and>
        list_all2 (forwards arr (backend (sys_lb s))) srv (published s))"

lemma addBackend_frame:
  assumes "arranges arr1"
  shows "lb_addr (addBackend arr1 arr2 a p lb) = lb_addr lb" "sock_queue (addBackend arr1 arr2 a p lb) = sock_queue lb"
    "lb_stop (addBackend arr1 arr2 a p lb) = lb_stop lb" "backend (addBackend arr1 arr2 a p lb) \<noteq> []"
proof -
  have "arr1 (k # ks) \<noteq> []" for k ks
  proof -
    have "mset (arr1 (k # ks)) = mset (k # ks)" using assms by (simp add: arranges_def)
    then show ?thesis by auto
  qed
  then show "backend (addBackend arr1 arr2 a p lb) \<noteq> []"
    by (auto simp: addBackend_def hash_emplace_def Let_def)
qed (simp_all add: addBackend_def Let_def)

lemma with_backends_frame:
  assumes "arranges arr1"
  shows "lb_addr (with_backends arr1 arr2 bs lb) = lb_addr lb \<and>
    sock_queue (with_backends arr1 arr2 bs lb) = sock_queue lb \<and>
    lb_stop (with_backends arr1 arr2 bs lb) = lb_stop lb \<and>
    (bs \<noteq> [] \<or> backend lb \<noteq> [] \<longrightarrow> backend (with_backends arr1 arr2 bs lb) \<noteq> [])"
proof (induction bs arbitrary: lb)
  case (Cons q bs)
  from Cons.IH [of "addBackend arr1 arr2 (fst q) (snd q) lb"] addBackend_frame [OF assms] show ?case
    by (simp add: with_backends_def)
qed (simp add: with_backends_def)

lemma with_backends_pub: "lb_pub (with_backends arr1 arr2 bs lb) = lb_pub lb"
  by (induction bs arbitrary: lb) (simp_all add: with_backends_def addBackend_def Let_def)

lemma sys_inv_start:
  assumes "built ts lb px r rp" "srv_addr (ts_server ts) \<noteq> lb_addr lb" "arranges arr1" "bs \<noteq> []"
  shows "sys_inv arr (ts_server ts) \<lparr>sys_loop = ts_loop ts, sys_reactor = r, sys_pc = LoopHead,
      sys_lb = with_backends arr1 arr2 bs lb, published = []\<rparr>"
proof -
  note b = built_facts [OF assms(1)]
  then have tg: "center_targets (r_center r) 0 BALANCE = {lb_addr lb}" and id: "srv_pub_id (ts_server ts) = 0"
    and ok: "center_ok (r_center r)" by (simp_all add: server_pubID_def)
  let ?xs = "fst (notify_targets 0 BALANCE (r_center r))"
  have "?xs = [lb_addr lb]" using one_target [OF ok tg] .
  then have "others (ts_server ts) (r_center r) (srv_pub_id (ts_server ts)) BALANCE = [lb_addr lb]"
    using assms(2) id by (simp add: others_def)
  moreover have "outbox r = []" using b by (simp add: started_def)
  ultimately show ?thesis
    using b with_backends_frame [OF assms(3), of arr2 bs lb] assms(4) by (simp add: sys_inv_def)
qed

lemma batch_ctx_queue [simp]: "batch_ctx (lb\<lparr>sock_queue := q\<rparr>) = batch_ctx lb"
  by (simp add: batch_ctx_def fun_eq_iff)

lemma hand_over_batches:
  "hand_over (map (batch_ctx lb) bs) lb = Inr (lb\<lparr>sock_queue := sock_queue lb @ bs\<rparr>)"
proof (induction bs arbitrary: lb)
  case (Cons b bs)
  have "hand_over (batch_ctx lb b # xs) lb = hand_over xs (lb\<lparr>sock_queue := sock_queue lb @ [b]\<rparr>)" for xs
    by (simp add: batch_ctx_def lb_update_def updateForLoadbalance_def)
  with Cons.IH [of "lb\<lparr>sock_queue := sock_queue lb @ [b]\<rparr>"] show ?case by simp
qed simp

lemma loadbalance_addr:
  "loadbalance arr (pc, lb) = Inr (x, pc', lb') \<Longrightarrow> lb_addr lb' = lb_addr lb \<and> lb_stop lb' = lb_stop lb \<and>
     (pc' = Finished \<longrightarrow> pc = Finished \<or> lb_stop lb)"
  by (cases pc) (auto simp: lb_serve_def Let_def result_simps split: list.splits if_splits)

lemma server_event_inv:
  assumes "sys_inv arr sv s" "sane ev (sys_reactor s)"
  defines "bs \<equiv> gathered ev (el_group (sys_loop s)) (sys_reactor s)"
  shows "\<exists>s'. sys_do arr sv (ServerEvent ev) s = Inr s' \<and> sys_inv arr sv s' \<and> sys_pc s' = sys_pc s \<and>
    published s' = published s \<and> sys_lb s' = (sys_lb s)\<lparr>sock_queue := sock_queue (sys_lb s) @ bs\<rparr> \<and>
    same_subs (sys_reactor s) (sys_reactor s')"
proof -
  let ?r = "sys_reactor s" and ?lb = "sys_lb s"
  have inv: "program_inv sv (sys_loop s, ?r)" and
    oth: "others sv (r_center ?r) (srv_pub_id sv) BALANCE = [lb_addr ?lb]"
    using assms(1) by (simp_all add: sys_inv_def)
  from loop_do_inv [OF inv assms(2)] oth obtain el' r' where r': "loop_do sv ev (sys_loop s, ?r) = Inr (el', r')"
      "program_inv sv (el', r')" "same_subs ?r r'" "outbox r' = outbox ?r @ map (batch_ctx ?lb) bs"
    by (auto simp: batch_ctx_def [abs_def] bs_def)
  let ?s = "s\<lparr>sys_loop := el', sys_reactor := r', sys_lb := ?lb\<lparr>sock_queue := sock_queue ?lb @ bs\<rparr>\<rparr>"
  have "sys_do arr sv (ServerEvent ev) s = Inr ?s" using r'(1,4) by (simp add: hand_over_batches)
  moreover have "sys_inv arr sv ?s"
    using assms(1) r'(2,4) same_subs_others [OF r'(3)] oth by (auto simp: sys_inv_def)
  ultimately show ?thesis using r'(3) by simp
qed

lemma balancer_step_inv:
  assumes "sys_inv arr sv s"
  shows "\<exists>s'. sys_do arr sv BalancerStep s = Inr s' \<and> sys_inv arr sv s'"
proof -
  let ?lb = "sys_lb s"
  have "backend ?lb \<noteq> []" using assms by (simp add: sys_inv_def)
  from lb_do_step [OF this, of arr ThreadStep "sys_pc s"] obtain x pc' lb' d where
    d: "loadbalance arr (sys_pc s, ?lb) = Inr (x, pc', lb')" "backend lb' = backend ?lb"
      "list_all2 (forwards arr (backend ?lb)) d (case x of None \<Rightarrow> [] | Some c \<Rightarrow> [c])"
      "d @ sock_queue lb' = sock_queue ?lb"
    by auto
  obtain srv where srv: "outbox (sys_reactor s) = map (batch_ctx ?lb) (srv @ sock_queue ?lb)"
      "list_all2 (forwards arr (backend ?lb)) srv (published s)"
    using assms by (auto simp: sys_inv_def)
  have addr: "lb_addr lb' = lb_addr ?lb" "lb_stop lb' = lb_stop ?lb"
      "pc' = Finished \<longrightarrow> sys_pc s = Finished \<or> lb_stop ?lb"
    using loadbalance_addr [OF d(1)] by blast+
  then have "outbox (sys_reactor s) = map (batch_ctx lb') ((srv @ d) @ sock_queue lb')"
    using srv(1) d(4) by (simp add: batch_ctx_def [abs_def])
  moreover have "list_all2 (forwards arr (backend lb')) (srv @ d)
      (published s @ (case x of None \<Rightarrow> [] | Some c \<Rightarrow> [c]))"
    using srv(2) d(2,3) by (simp add: list_all2_appendI)
  ultimately have "\<exists>srv. outbox (sys_reactor s) = map (batch_ctx lb') (srv @ sock_queue lb') \<and>
      list_all2 (forwards arr (backend lb')) srv (published s @ (case x of None \<Rightarrow> [] | Some c \<Rightarrow> [c]))"
    by blast
  with assms d(1,2) addr show ?thesis by (auto simp: sys_inv_def)
qed

lemma sys_do_inv:
  assumes "sys_inv arr sv s" "sys_sane ev s"
  shows "\<exists>s'. sys_do arr sv ev s = Inr s' \<and> sys_inv arr sv s'"
proof (cases ev)
  case (ServerEvent e)
  with server_event_inv [OF assms(1), of e] assms(2) show ?thesis by (auto simp del: sys_do.simps)
next
  case BalancerStep
  with balancer_step_inv [OF assms(1)] show ?thesis by simp
next
  case BalancerStop
  with assms(1) show ?thesis by (simp add: sys_inv_def lb_set_stop_def batch_ctx_def [abs_def])
qed

interpretation serving_balanced: event_system "sys_do arr sv" sys_sane "sys_inv arr sv" for arr sv
  by unfold_locales (rule sys_do_inv)

lemma sys_reach_inv: "sys_reach arr sv s \<Longrightarrow> sys_inv arr sv s"
proof (induction rule: sys_reach.induct)
  case sys_start
  then show ?case by (rule sys_inv_start)
next
  case (sys_next sv s ev s')
  show ?case by (rule serving_balanced.act_inv [OF sys_next.IH sys_next.hyps(2,3)])
qed

text \<open>A system whose server has accepted client 9 and heard that it is ready.\<close>

definition demo_ready :: "resp list" where
  "demo_ready = [\<lparr>resp_fd = 9, resp_events = READABLE\<rparr>]"

definition demo_backends :: "balancer \<Rightarrow> balancer" where
  "demo_backends = with_backends (\<lambda>xs. xs) (\<lambda>xs. xs) [(make_inet ''a'' 1, 80)]"

lemma demo_arranges: "arranges (\<lambda>xs. xs)"
  by (simp add: arranges_def)

lemma demo_steps:
  "\<exists>ts lb px r rp s1 s2. built ts lb px r rp \<and> srv_addr (ts_server ts) = 42 \<and> lb_addr lb = 50 \<and> px_addr px = 60 \<and>
     sane (MainRound demo_env 9) r \<and> traffic_map (r_center (sys_reactor s1)) = [toString (e_peer demo_env 9) \<mapsto> 0] \<and>
     sys_do rev (ts_server ts) (ServerEvent (MainRound demo_env 9))
       \<lparr>sys_loop = ts_loop ts, sys_reactor = r, sys_pc = LoopHead, sys_lb = demo_backends lb, published = []\<rparr> = Inr s1 \<and>
     dom (conn_map (sys_reactor s1)) = {9} \<and> g_dmps (el_group (sys_loop s1)) = [1, 2] \<and>
     g_done (el_group (sys_loop s1)) \<noteq> [] \<and> sys_pc s1 = LoopHead \<and> sys_lb s1 = demo_backends lb \<and>
     sys_do rev (ts_server ts) (ServerEvent (ThreadRound demo_env 0 demo_ready)) s1 = Inr s2 \<and>
     sys_pc s2 = LoopHead \<and> sys_lb s2 = (demo_backends lb)\<lparr>sock_queue := [[9]]\<rparr> \<and> \<not> lb_stop (sys_lb s2) \<and>
     sock_queue (demo_backends lb) = [] \<and> \<not> el_stop (sys_loop s1)"
proof -
  obtain ts lb px r rp where b: "built ts lb px r rp" "srv_addr (ts_server ts) = 42" "lb_addr lb = 50" "px_addr px = 60"
      "g_dmps (el_group (ts_loop ts)) = [1, 2]" "\<not> el_stop (ts_loop ts)"
    using demo_built by blast
  define s0 where "s0 = \<lparr>sys_loop = ts_loop ts, sys_reactor = r, sys_pc = LoopHead, sys_lb = demo_backends lb, published = []\<rparr>"
  have lb': "sock_queue (demo_backends lb) = []" "\<not> lb_stop (demo_backends lb)"
    using with_backends_frame [OF demo_arranges, of "\<lambda>xs. xs" "[(make_inet ''a'' 1, 80)]" lb] built_facts [OF b(1)]
    by (simp_all add: demo_backends_def)
  have none: "conn_map r = Map.empty" using built_facts [OF b(1)] by (simp add: started_def)
  have inv0: "sys_inv rev (ts_server ts) s0"
    unfolding s0_def demo_backends_def by (rule sys_inv_start [OF b(1) _ demo_arranges]) (simp_all add: b(2,3))
  then have "program_inv (ts_server ts) (ts_loop ts, r)" by (simp add: sys_inv_def s0_def)
  from main_round_inv [OF this, of demo_env 9] b(5,6) none obtain el1 r1 where
    1: "loop_round demo_env (ts_server ts) 9 (ts_loop ts) r = Inr (el1, r1)" "g_dmps (el_group el1) = [1, 2]"
      "dom (conn_map r1) = {9}" "r_center r1 = account (toString (e_peer demo_env 9)) 0 (r_center r)" "\<not> el_stop el1"
    by (auto simp: demo_env_def)
  have sane: "sane (MainRound demo_env 9) r" using none by (simp add: demo_env_def)
  from server_event_inv [OF inv0, of "MainRound demo_env 9"] sane 1(1) obtain s1 where
    s1: "sys_do rev (ts_server ts) (ServerEvent (MainRound demo_env 9)) s0 = Inr s1" "sys_inv rev (ts_server ts) s1"
      "sys_pc s1 = LoopHead" "sys_lb s1 = demo_backends lb" "sys_loop s1 = el1" "sys_reactor s1 = r1"
    by (auto simp: s0_def result_simps)
  have ends: "g_done (el_group el1) \<noteq> []" using s1(2,5) by (simp add: sys_inv_def program_inv_def running_def)
  then have "gathered (ThreadRound demo_env 0 demo_ready) (el_group (sys_loop s1)) (sys_reactor s1) = [[9]]"
    using 1(2,3) s1(5,6) by (simp add: demo_ready_def ready_clients_def ready_def)
  with server_event_inv [OF s1(2), of "ThreadRound demo_env 0 demo_ready"] obtain s2 where
    s2: "sys_do rev (ts_server ts) (ServerEvent (ThreadRound demo_env 0 demo_ready)) s1 = Inr s2"
      "sys_pc s2 = LoopHead" "sys_lb s2 = (demo_backends lb)\<lparr>sock_queue := [[9]]\<rparr>"
    using s1(3,4) lb'(1) by (auto simp: demo_ready_def simp del: sys_do.simps)
  have "traffic_map (r_center (sys_reactor s1)) = [toString (e_peer demo_env 9) \<mapsto> 0]"
    using 1(4) s1(6) built_traffic [OF b(1)] by (simp add: traffic_account)
  moreover have "dom (conn_map (sys_reactor s1)) = {9}" "g_dmps (el_group (sys_loop s1)) = [1, 2]"
      "g_done (el_group (sys_loop s1)) \<noteq> []" "\<not> lb_stop (sys_lb s2)" "\<not> el_stop (sys_loop s1)"
    using 1(2,3,5) ends s1(5,6) s2(3) lb'(2) by simp_all
  ultimately show ?thesis using b(1-4) sane s1(1) [unfolded s0_def] s1(3,4) s2 lb'(1) by blast
qed

lemma demo_sys:
  "\<exists>sv s. sys_reach rev sv s \<and> \<not> lb_stop (sys_lb s) \<and> sys_pc s = LoopHead \<and> sock_queue (sys_lb s) = [[9]]"
proof -
  obtain ts lb px r rp s1 s2 where b: "built ts lb px r rp" "srv_addr (ts_server ts) = 42" "lb_addr lb = 50"
      "sane (MainRound demo_env 9) r"
      "sys_do rev (ts_server ts) (ServerEvent (MainRound demo_env 9))
       \<lparr>sys_loop = ts_loop ts, sys_reactor = r, sys_pc = LoopHead, sys_lb = demo_backends lb, published = []\<rparr> = Inr s1"
      "sys_do rev (ts_server ts) (ServerEvent (ThreadRound demo_env 0 demo_ready)) s1 = Inr s2"
      "sys_pc s2 = LoopHead" "sys_lb s2 = (demo_backends lb)\<lparr>sock_queue := [[9]]\<rparr>" "\<not> lb_stop (sys_lb s2)"
    using demo_steps by blast
  have "sys_reach rev (ts_server ts)
      \<lparr>sys_loop = ts_loop ts, sys_reactor = r, sys_pc = LoopHead, sys_lb = demo_backends lb, published = []\<rparr>"
    unfolding demo_backends_def by (rule sys_start [OF b(1) _ demo_arranges]) (simp_all add: b(2,3))
  from sys_next [OF this _ b(5)] b(4) have "sys_reach rev (ts_server ts) s1" by simp
  from sys_next [OF this _ b(6)] have "sys_reach rev (ts_server ts) s2" by (simp add: demo_ready_def)
  with b(7-9) show ?thesis by (intro exI [of _ "ts_server ts"] exI [of _ s2]) simp
qed

text \<open>C8. The system never fails, and the clients' batches go through it as through a queue.
  In every state reached by server and balancer, whatever the interleaving of the accept
  loop, the demultiplexers' threads, the balancing thread and the calls of \<open>stop\<close>, the next
  step succeeds; the batches the server has handed over are those the balancer has published
  an assignment for, in that order, followed by those in its queue; and each published
  context is the assignment of its batch.\<close>

theorem pipe_fifo:
  assumes "sys_reach arr sv s"
  shows "(\<forall>ev. sys_sane ev s \<longrightarrow> (\<exists>s'. sys_do arr sv ev s = Inr s')) \<and>
    (\<exists>srv. outbox (sys_reactor s) =
        map (\<lambda>b. (lb_addr (sys_lb s), LoadBalanceCtx (pub_code BALANCE) b)) (srv @ sock_queue (sys_lb s)) \<and>
      list_all2 (\<lambda>b x. \<exists>m. x = ForwardContext (pub_code FORWARD) (arr m) \<and> balancing (sys_lb s) b = Inr m)
        srv (published s))"
proof -
  have inv: "sys_inv arr sv s" using assms by (rule sys_reach_inv)
  have "\<forall>ev. sys_sane ev s \<longrightarrow> (\<exists>s'. sys_do arr sv ev s = Inr s')" using sys_do_inv [OF inv] by blast
  with inv show ?thesis
    by (simp add: sys_inv_def batch_ctx_def [abs_def] forwards_def [abs_def] balancing_def del: pub_code.simps)
qed

theorem pipe_fifo_witness:
  "\<exists>sv s s'. sys_reach rev sv s \<and> sock_queue (sys_lb s) = [[9]] \<and> sys_do rev sv BalancerStep s = Inr s'"
proof -
  obtain sv s where s: "sys_reach rev sv s" "sock_queue (sys_lb s) = [[9]]" using demo_sys by blast
  with pipe_fifo [OF s(1)] have "sys_sane BalancerStep s \<longrightarrow> (\<exists>s'. sys_do rev sv BalancerStep s = Inr s')" by blast
  with s show ?thesis by auto
qed

section \<open>The queue is served\<close>

text \<open>A run, every event of which meets the kernel's contract.\<close>

fun sys_run :: "hash_order \<Rightarrow> server \<Rightarrow> sys_event list \<Rightarrow> system \<Rightarrow> system option" where
  "sys_run arr sv [] s = Some s"
| "sys_run arr sv (ev # evs) s =
     (if sys_sane ev s then (case sys_do arr sv ev s of Inl err \<Rightarrow> None | Inr s' \<Rightarrow> sys_run arr sv evs s') else None)"

definition spun :: "lb_pc \<Rightarrow> nat" where
  "spun pc = (if pc = Spinning then 1 else 0)"

lemma balancer_serves:
  assumes "sys_pc s = Spinning" "sock_queue (sys_lb s) = b # rest" "backend (sys_lb s) \<noteq> []"
  shows "\<exists>x. sys_do arr sv BalancerStep s = Inr (s\<lparr>sys_pc := LoopHead,
      sys_lb := (sys_lb s)\<lparr>lb_sockes := b, sock_queue := rest\<rparr>, published := published s @ [x]\<rparr>) \<and>
    forwards arr (backend (sys_lb s)) b x"
proof -
  obtain m where m: "balance_loop (backend (sys_lb s), 0) b [] = Inr m"
    using balancing_total [OF assms(3), of 0 b "[]"] assms(3) by auto
  with assms show ?thesis
    by (intro exI [of _ "ForwardContext (pub_code FORWARD) (arr m)"])
      (simp add: lb_serve_def balancing_def forwards_def)
qed

lemma serve_progress:
  assumes "sys_inv arr sv s" "\<not> lb_stop (sys_lb s)" "sys_run arr sv evs s = Some s'" "BalancerStop \<notin> set evs"
    "k \<le> length (sock_queue (sys_lb s))" "2 * k \<le> count_list evs BalancerStep + spun (sys_pc s)"
  shows "\<exists>ms. published s' = published s @ ms \<and> k \<le> length ms \<and>
    list_all2 (forwards arr (backend (sys_lb s))) (take k (sock_queue (sys_lb s))) (take k ms)"
  using assms
proof (induction evs arbitrary: s k)
  case Nil
  then show ?case by (simp add: spun_def split: if_splits)
next
  case (Cons ev evs)
  obtain s1 where s1: "sys_do arr sv ev s = Inr s1" "sys_sane ev s" "sys_run arr sv evs s1 = Some s'"
    using Cons.prems(3) by (simp split: if_splits sum.splits)
  have inv1: "sys_inv arr sv s1" using sys_do_inv [OF Cons.prems(1) s1(2)] s1(1) by auto
  note IH = Cons.IH [OF inv1 _ s1(3)]
  show ?case
  proof (cases ev)
    case (ServerEvent e)
    with server_event_inv [OF Cons.prems(1), of e] s1(1,2) have
      "sys_pc s1 = sys_pc s" "published s1 = published s"
      "sys_lb s1 = (sys_lb s)\<lparr>sock_queue := sock_queue (sys_lb s) @ gathered e (el_group (sys_loop s)) (sys_reactor s)\<rparr>"
      by (auto simp del: sys_do.simps)
    with IH [of k] Cons.prems(2,4-6) ServerEvent show ?thesis by simp
  next
    case BalancerStep
    show ?thesis
    proof (cases "sys_pc s")
      case LoopHead
      with BalancerStep s1(1) Cons.prems(2) have "s1 = s\<lparr>sys_pc := Spinning\<rparr>" by auto
      with IH [of k] Cons.prems(2,4-6) BalancerStep LoopHead show ?thesis by (simp add: spun_def)
    next
      case Finished
      with Cons.prems(1,2) show ?thesis by (simp add: sys_inv_def)
    next
      case Spinning
      show ?thesis
      proof (cases "sock_queue (sys_lb s)")
        case Nil
        with BalancerStep Spinning s1(1) have "s1 = s" by auto
        with IH [of 0] Cons.prems(2,4,5) Nil show ?thesis by simp
      next
        case (Cons b rest)
        have "backend (sys_lb s) \<noteq> []" using Cons.prems(1) by (simp add: sys_inv_def)
        from balancer_serves [OF Spinning Cons this, of arr sv] BalancerStep s1(1) obtain x where
          x: "s1 = s\<lparr>sys_pc := LoopHead, sys_lb := (sys_lb s)\<lparr>lb_sockes := b, sock_queue := rest\<rparr>,
              published := published s @ [x]\<rparr>" "forwards arr (backend (sys_lb s)) b x"
          by (auto simp del: sys_do.simps)
        have "2 * (k - 1) \<le> count_list evs BalancerStep + spun (sys_pc s1)" "k - 1 \<le> length (sock_queue (sys_lb s1))"
          using Cons.prems(5,6) BalancerStep Spinning x(1) Cons by (simp_all add: spun_def)
        from IH [of "k - 1"] this Cons.prems(2,4) x(1) obtain ms where
          ms: "published s' = (published s @ [x]) @ ms" "k - 1 \<le> length ms"
            "list_all2 (forwards arr (backend (sys_lb s))) (take (k - 1) rest) (take (k - 1) ms)"
          by auto
        with x(2) Cons show ?thesis by (intro exI [of _ "x # ms"]) (cases k; simp)
      qed
    qed
  next
    case BalancerStop
    with Cons.prems(4) show ?thesis by simp
  qed
qed

text \<open>C23. Every batch is served. While nobody stops the balancer, in any run in which its
  thread gets two steps for each batch that is queued, whatever else the run does, each of
  these batches has its assignment published, in their order, before anything newer.\<close>

theorem queue_served:
  assumes "sys_reach arr sv s" "\<not> lb_stop (sys_lb s)"
    and "sys_run arr sv evs s = Some s'" "BalancerStop \<notin> set evs"
    and "2 * length (sock_queue (sys_lb s)) \<le> count_list evs BalancerStep"
  shows "\<exists>new more. published s' = published s @ new @ more \<and>
    list_all2 (\<lambda>b x. \<exists>m. x = ForwardContext (pub_code FORWARD) (arr m) \<and> balancing (sys_lb s) b = Inr m)
      (sock_queue (sys_lb s)) new"
proof -
  let ?q = "sock_queue (sys_lb s)"
  have "\<exists>ms. published s' = published s @ ms \<and> length ?q \<le> length ms \<and>
      list_all2 (forwards arr (backend (sys_lb s))) (take (length ?q) ?q) (take (length ?q) ms)"
    by (rule serve_progress [OF sys_reach_inv [OF assms(1)] assms(2-4)]) (use assms(5) in auto)
  then obtain ms where ms: "published s' = published s @ ms"
      "list_all2 (forwards arr (backend (sys_lb s))) ?q (take (length ?q) ms)" by auto
  then show ?thesis
    by (intro exI [of _ "take (length ?q) ms"] exI [of _ "drop (length ?q) ms"])
      (simp add: forwards_def [abs_def] balancing_def)
qed

theorem queue_served_witness:
  "\<exists>sv s s' x more. sys_reach rev sv s \<and> sock_queue (sys_lb s) = [[9]] \<and>
     sys_run rev sv [BalancerStep, BalancerStep] s = Some s' \<and> published s' = published s @ x # more"
proof -
  obtain sv s where s: "sys_reach rev sv s" "\<not> lb_stop (sys_lb s)" "sys_pc s = LoopHead"
      "sock_queue (sys_lb s) = [[9]]"
    using demo_sys by blast
  obtain s1 where s1: "sys_do rev sv BalancerStep s = Inr s1" "sys_inv rev sv s1"
    using balancer_step_inv [OF sys_reach_inv [OF s(1)]] by blast
  obtain s' where s': "sys_do rev sv BalancerStep s1 = Inr s'"
    using balancer_step_inv [OF s1(2)] by blast
  have run: "sys_run rev sv [BalancerStep, BalancerStep] s = Some s'"
    using s1(1) s' by (simp del: sys_do.simps)
  from queue_served [OF s(1,2) run] s(4) obtain new more where
    "published s' = published s @ new @ more" "length new = 1"
    by (auto dest: list_all2_lengthD)
  then have "published s' = published s @ hd new # tl new @ more" by (cases new) auto
  with s(1,4) run show ?thesis by blast
qed

section \<open>Types of contexts\<close>

text \<open>The event a context of each class is made for.\<close>

fun typed :: "ctx \<Rightarrow> bool" where
  "typed (AcceptContext e) \<longleftrightarrow> e = pub_code ACCEPTED"
| "typed (DmpRegisterContext e f ev d) \<longleftrightarrow> e = pub_code DMPREGISTER"
| "typed (DmpModifyContext e f ev) \<longleftrightarrow> e = pub_code DMPMODIFY"
| "typed (DmpDeleteContext e f) \<longleftrightarrow> e = pub_code DMPDELETE"
| "typed (DmpWaitContext e rs) \<longleftrightarrow> e = pub_code DMPWAIT"
| "typed (LoadBalanceCtx e socks) \<longleftrightarrow> e = pub_code BALANCE"
| "typed (ForwardContext e m) \<longleftrightarrow> e = pub_code FORWARD"

text \<open>
  The casts of the three \<open>update\<close>s succeed: each branch of their switches finds an object of
  the class it casts to.
\<close>

definition casts :: "ctx \<Rightarrow> bool" where
  "casts x \<longleftrightarrow>
     (event_type x = pub_code DMPREGISTER \<longrightarrow> as_register x \<noteq> Inl NullDeref) \<and>
     (event_type x = pub_code DMPMODIFY \<longrightarrow> as_modify x \<noteq> Inl NullDeref) \<and>
     (event_type x = pub_code DMPDELETE \<longrightarrow> as_delete x \<noteq> Inl NullDeref) \<and>
     (event_type x = pub_code DMPWAIT \<longrightarrow> as_wait x \<noteq> Inl NullDeref) \<and>
     (event_type x = pub_code BALANCE \<longrightarrow> as_balance x \<noteq> Inl NullDeref) \<and>
     (event_type x = pub_code FORWARD \<longrightarrow> as_forward x \<noteq> Inl NullDeref)"

lemma typed_casts: "typed x \<Longrightarrow> casts x"
  by (cases x) (auto simp: casts_def)

text \<open>A notifier that refuses a context of another class than the event's, or labelled otherwise.\<close>

definition strict :: "'s notifier \<Rightarrow> 's notifier" where
  "strict ntf p t x s = (if typed x \<and> event_type x = pub_code t then ntf p t x s else Inl NullDeref)"

named_theorems strict_simps \<open>operations that never notice a strict notifier\<close>

lemma notify_if_strict [strict_simps]:
  "typed x \<Longrightarrow> event_type x = pub_code t \<Longrightarrow> notify_if (strict ntf) d flag t x s = notify_if ntf d flag t x s"
  by (simp add: notify_if_def strict_def)

lemma demultiplexRegister_strict [strict_simps]:
  "demultiplexRegister (strict ntf) sys self d f flag s = demultiplexRegister ntf sys self d f flag s"
  by (simp add: demultiplexRegister_def strict_simps del: pub_code.simps)

lemma demultiplexModify_strict [strict_simps]:
  "demultiplexModify (strict ntf) sys d (DmpModifyContext e f ev) flag s =
   demultiplexModify ntf sys d (DmpModifyContext e f ev) flag s"
  by (simp add: demultiplexModify_def strict_simps del: pub_code.simps)

lemma demultiplexRemove_strict [strict_simps]:
  "demultiplexRemove (strict ntf) sys d (DmpDeleteContext e f) flag s =
   demultiplexRemove ntf sys d (DmpDeleteContext e f) flag s"
  by (simp add: demultiplexRemove_def strict_simps del: pub_code.simps)

lemma demultiplexWait_strict [strict_simps]:
  "demultiplexWait (strict ntf) d (make_DmpWaitContext (pub_code DMPWAIT)) flag eps s =
   demultiplexWait ntf d (make_DmpWaitContext (pub_code DMPWAIT)) flag eps s"
  by (simp add: demultiplexWait_def make_DmpWaitContext_def strict_simps del: pub_code.simps)

lemma channel_strict [strict_simps]:
  "leave (strict ntf) sys dm mark c s = leave ntf sys dm mark c s"
  "change_events (strict ntf) sys dm c g x s = change_events ntf sys dm c g x s"
  by (simp_all add: leave_def change_events_def strict_simps)

lemma connection_strict [strict_simps]:
  "disconnect (strict ntf) e k r = disconnect ntf e k r"
  "destroy_connection (strict ntf) e c r = destroy_connection ntf e c r"
  "tcp_send (strict ntf) e data k r = tcp_send ntf e data k r"
  "sendInLoop (strict ntf) e k r = sendInLoop ntf e k r"
  "tcp_read (strict ntf) e got data k r = tcp_read ntf e got data k r"
  "shutdownWrite (strict ntf) e k r = shutdownWrite ntf e k r"
  by (simp_all add: disconnect_def destroy_connection_def tcp_send_def sendInLoop_def tcp_read_def
      shutdownWrite_def enableWrite_def disableWrite_def strict_simps cong: if_cong)

lemma removeConnection_strict [strict_simps]: "removeConnection (strict ntf) e f r = removeConnection ntf e f r"
  by (simp add: removeConnection_def strict_simps split: option.split)

lemma wait_loop_strict [strict_simps]: "wait_loop (strict ntf) e qs socks r = wait_loop ntf e qs socks r"
proof (induction qs arbitrary: socks r)
  case (Cons q qs)
  then have "wait_loop (strict ntf) e qs = wait_loop ntf e qs" by (intro ext)
  then show ?case by (simp add: strict_simps)
qed simp

lemma server_update_strict [strict_simps]: "server_update (strict ntf) e sv x r = server_update ntf e sv x r"
  by (simp add: server_update_def updateForDelete_def updateForWait_def strict_simps)
    (simp add: strict_def)

lemma px_registerFd_strict [strict_simps]: "px_registerFd (strict ntf) e f w = px_registerFd ntf e f w"
proof -
  have "(case w_dmps w n of None \<Rightarrow> Inl UseAfterFree | Some d \<Rightarrow>
      bindR (demultiplexRegister (strict ntf) (w_syscall e) n d f False w') k) =
    (case w_dmps w n of None \<Rightarrow> Inl UseAfterFree | Some d \<Rightarrow>
      bindR (demultiplexRegister ntf (w_syscall e) n d f False w') k)" for n w' and k :: "int \<times> pworld \<Rightarrow> pworld result"
    by (simp add: strict_simps split: option.split)
  then show ?thesis by (simp add: px_registerFd_def)
qed

lemma assure_backend_strict [strict_simps]:
  "assure_backend (strict ntf) e c a w = assure_backend ntf e c a w"
  by (simp add: assure_backend_def establishWith_def strict_simps cong: if_cong)

lemma forward_pairs_strict [strict_simps]: "forward_pairs (strict ntf) e ps pk w = forward_pairs ntf e ps pk w"
proof (induction ps arbitrary: pk w)
  case (Cons q ps)
  then have eq: "forward_pairs (strict ntf) e ps = forward_pairs ntf e ps" by (intro ext)
  obtain c a where q: "q = (c, a)" by (cases q)
  show ?case unfolding q forward_pairs.simps eq assure_backend_strict ..
qed simp

lemma px_update_strict [strict_simps]: "px_update (strict ntf) e x w = px_update ntf e x w"
  by (simp add: px_update_def px_updateForForward_def strict_simps)



end
