(* ===== verification/Network.thy ===== *)
theory Network
  imports System
begin

text \<open>
  The whole program as one step relation: the server with its accept loop and its threads, the
  balancing thread, and the proxy with its threads (\<open>src/src/network\<close>, \<open>src/src/proxy\<close>), which
  share the one center (\<open>src/src/pubsub/pub_sub.cc\<close>). What the balancing thread publishes is
  delivered by the center to the proxy, in the same call. Nothing is assumed of the program,
  only of the kernel's answers.
\<close>

section \<open>States and events\<close>

text \<open>
  The server and the balancer, and the proxy's part of the program; the center is the
  server's, which is lent to the proxy while it runs.
\<close>

record network =
  nw_sys :: system
  nw_px :: pworld

definition lent :: "network \<Rightarrow> pworld" where
  "lent n = (nw_px n)\<lparr>w_center := r_center (sys_reactor (nw_sys n))\<rparr>"

definition given_back :: "system \<Rightarrow> pworld \<Rightarrow> network" where
  "given_back s w = \<lparr>nw_sys = s\<lparr>sys_reactor := (sys_reactor s)\<lparr>r_center := w_center w\<rparr>\<rparr>, nw_px = w\<rparr>"

lemma given_back_simps [simp]:
  "lent (given_back s w) = w" "nw_px (given_back s w) = w"
  "nw_sys (given_back s w) = s\<lparr>sys_reactor := (sys_reactor s)\<lparr>r_center := w_center w\<rparr>\<rparr>"
  by (simp_all add: lent_def given_back_def)

lemma lent_simps [simp]:
  "w_px (lent n) = w_px (nw_px n)" "w_dmps (lent n) = w_dmps (nw_px n)" "w_out (lent n) = w_out (nw_px n)"
  "w_sys (lent n) = w_sys (nw_px n)" "w_conns (lent n) = w_conns (nw_px n)"
  "w_center (lent n) = r_center (sys_reactor (nw_sys n))"
  by (simp_all add: lent_def)

text \<open>
  An event of the server's program, a step of the balancing thread, a call of its \<open>stop\<close>, a
  round of a thread of the proxy's group; with the answers the proxy gets from the kernel.
\<close>

datatype net_event = ServerSide loop_event | Balance penv | StopBalance | ProxyRound penv nat "resp list"

text \<open>What the balancing thread notifies, by \<open>notifySubscriber(pub_id_, FORWARD, ctx)\<close>.\<close>

fun publish :: "penv \<Rightarrow> u16 \<Rightarrow> ctx list \<Rightarrow> pworld \<Rightarrow> pworld result" where
  "publish e p [] w = Inr w"
| "publish e p (x # xs) w = bindR (px_ntf depth e p FORWARD x w) (\<lambda>(_, w'). publish e p xs w')"

fun net_do :: "hash_order \<Rightarrow> server \<Rightarrow> net_event \<Rightarrow> network \<Rightarrow> network result" where
  "net_do arr sv (ServerSide ev) n =
     bindR (sys_do arr sv (ServerEvent ev) (nw_sys n)) (\<lambda>s. Inr (n\<lparr>nw_sys := s\<rparr>))"
| "net_do arr sv (Balance e) n =
     bindR (sys_do arr sv BalancerStep (nw_sys n)) (\<lambda>s.
     bindR (publish e (lb_pub (sys_lb s)) (drop (length (published (nw_sys n))) (published s)) (lent n)) (\<lambda>w.
       Inr (given_back s w)))"
| "net_do arr sv StopBalance n = bindR (sys_do arr sv BalancerStop (nw_sys n)) (\<lambda>s. Inr (n\<lparr>nw_sys := s\<rparr>))"
| "net_do arr sv (ProxyRound e k eps) n =
     bindR (px_round e k eps (lent n)) (\<lambda>w. Inr (given_back (nw_sys n) w))"

declare net_do.simps [simp del]

text \<open>
  The kernel's contract: what \<open>sane\<close> says for the server; the descriptors of new connections
  are free and different; a wait delivers watched descriptors, each once; and \<open>read\<close> answers
  with what fits or with that there is nothing.
\<close>

definition answered :: "penv \<Rightarrow> pworld \<Rightarrow> fd list \<Rightarrow> bool" where
  "answered e w cs \<longleftrightarrow>
     (\<forall>c \<in> set cs. readable e c \<and> (reversed_map (w_px w) c = None \<longrightarrow>
        0 \<le> fst (pe_connect e c) \<and> 0 \<le> snd (pe_connect e c) \<and> fst (pe_connect e c) \<notin> watched (w_sys w))) \<and>
     inj_on (\<lambda>c. fst (pe_connect e c)) {c \<in> set cs. reversed_map (w_px w) c = None}"

fun net_sane :: "net_event \<Rightarrow> network \<Rightarrow> bool" where
  "net_sane (ServerSide ev) n \<longleftrightarrow> sane ev (sys_reactor (nw_sys n))"
| "net_sane (Balance e) n \<longleftrightarrow> lawful e \<and> (sys_pc (nw_sys n) = Spinning \<longrightarrow>
     (\<forall>b rest. sock_queue (sys_lb (nw_sys n)) = b # rest \<longrightarrow> answered e (nw_px n) b))"
| "net_sane StopBalance n \<longleftrightarrow> True"
| "net_sane (ProxyRound e k eps) n \<longleftrightarrow> lawful e \<and> distinct (map resp_fd eps) \<and>
     (\<forall>q \<in> set eps. resp_fd q \<in> watched (w_sys (nw_px n)) \<and> (ready q \<longrightarrow> readable e (resp_fd q)))"

text \<open>The proxy's part when everything is built.\<close>

definition px_start :: "proxy \<Rightarrow> reactor \<Rightarrow> pworld" where
  "px_start px rp = \<lparr>w_center = r_center rp, w_dmps = r_dmps rp, w_px = px, w_pipe = [], w_out = [],
     w_conns = [], w_sys = []\<rparr>"

definition net_start :: "tcp_server \<Rightarrow> balancer \<Rightarrow> proxy \<Rightarrow> reactor \<Rightarrow> reactor \<Rightarrow> network" where
  "net_start ts lb px r rp = \<lparr>nw_sys = \<lparr>sys_loop = ts_loop ts, sys_reactor = r, sys_pc = LoopHead,
     sys_lb = lb, published = []\<rparr>, nw_px = px_start px rp\<rparr>"

inductive net_first :: "hash_order \<Rightarrow> server \<Rightarrow> network \<Rightarrow> bool" for arr where
  net_begin: "built ts lb px r rp \<Longrightarrow> srv_addr (ts_server ts) \<noteq> lb_addr lb \<Longrightarrow> arranges arr1 \<Longrightarrow> bs \<noteq> [] \<Longrightarrow>
    arranges arr \<Longrightarrow> net_first arr (ts_server ts) (net_start ts (with_backends arr1 arr2 bs lb) px r rp)"

definition net_reach :: "hash_order \<Rightarrow> server \<Rightarrow> network \<Rightarrow> bool" where
  "net_reach arr sv = reached (net_do arr sv) net_sane (net_first arr sv)"

section \<open>The invariant\<close>

definition px_inv :: "u16 \<Rightarrow> pworld \<Rightarrow> bool" where
  "px_inv p w \<longleftrightarrow> px_ok w \<and> px_tracks w \<and> threads_ok w \<and> heard_by (w_center w) p FORWARD (px_addr (w_px w))"

definition net_inv :: "hash_order \<Rightarrow> server \<Rightarrow> network \<Rightarrow> bool" where
  "net_inv arr sv n \<longleftrightarrow> sys_inv arr sv (nw_sys n) \<and> arranges arr \<and> px_inv (lb_pub (sys_lb (nw_sys n))) (lent n)"

lemma px_inv_kept: "px_inv p w \<Longrightarrow> px_keeps w w' \<Longrightarrow> px_inv p w'"
  using threads_ok_kept [of w w'] by (auto simp: px_inv_def px_keeps_def px_frame_def heard_by_wires)

lemma px_inv_center:
  assumes "px_inv p w" "same_wires (w_center w) c"
  shows "px_inv p (w\<lparr>w_center := c\<rparr>)"
  using assms by (simp add: px_inv_def px_ok_def px_tracks_def threads_ok_def heard_by_wires)

text \<open>The server's side does not mind what the proxy does to the center.\<close>

lemma sys_inv_center:
  assumes "sys_inv arr sv s" "same_wires (r_center (sys_reactor s)) c"
    "dom (traffic_map (r_center (sys_reactor s))) \<subseteq> dom (traffic_map c)"
  shows "sys_inv arr sv (s\<lparr>sys_reactor := (sys_reactor s)\<lparr>r_center := c\<rparr>\<rparr>)"
proof -
  let ?r = "sys_reactor s"
  have "server_reach sv (?r\<lparr>r_center := c\<rparr>)"
    using server_reach_elsewhere [OF _ assms(2,3)] assms(1) by (simp add: sys_inv_def program_inv_def)
  moreover have "others sv c p t = others sv (r_center ?r) p t" for p t
    using assms(2) by (simp add: others_def notify_targets_def same_wires_def Let_def)
  ultimately show ?thesis using assms(1) by (simp add: sys_inv_def program_inv_def batch_ctx_def [abs_def])
qed

lemma net_inv_start:
  assumes "built ts lb px r rp" "srv_addr (ts_server ts) \<noteq> lb_addr lb" "arranges arr1" "bs \<noteq> []" "arranges arr"
  shows "net_inv arr (ts_server ts) (net_start ts (with_backends arr1 arr2 bs lb) px r rp)"
proof -
  note b = built_facts [OF assms(1)]
  let ?w = "px_start px rp"
  have new: "px_new px (r_dmps rp)" and ok: "center_ok (r_center r)" using b by simp_all
  have "lent (net_start ts lb' px r rp) = ?w" for lb'
    using b by (simp add: lent_def net_start_def px_start_def)
  moreover have "px_ok ?w" using new by (auto simp: px_ok_def maps_ok_def px_new_def px_start_def)
  moreover have "px_tracks ?w" using new by (simp add: px_tracks_def px_new_def px_start_def watched_def)
  moreover have "threads_ok ?w"
  proof -
    have "heard_by (r_center rp) (dmp_id d) DMPWAIT (px_addr px)" if "r_dmps rp a = Some d" for a d
    proof -
      have "center_targets (r_center r) (dmp_id d) DMPWAIT = {px_addr px}" using b that by simp
      with one_target [OF ok this] b show ?thesis by (simp add: heard_by_def)
    qed
    with new show ?thesis by (auto simp: threads_ok_def px_new_def px_start_def)
  qed
  moreover have "heard_by (w_center ?w) 0 FORWARD (px_addr px)"
    using b one_target [OF ok, of 0 FORWARD "px_addr px"] by (simp add: heard_by_def px_start_def)
  moreover have "lb_pub (with_backends arr1 arr2 bs lb) = 0"
    using b with_backends_pub [of arr1 arr2 bs lb] by (simp add: lb_pubID_def)
  ultimately show ?thesis
    using sys_inv_start [OF assms(1-4), of arr arr2] assms(5)
    by (simp add: net_inv_def px_inv_def net_start_def px_start_def)
qed

lemma given_back_inv:
  assumes "sys_inv arr sv s" "arranges arr" "px_inv (lb_pub (sys_lb s)) w0" "w_center w0 = r_center (sys_reactor s)"
    "px_keeps w0 w"
  shows "net_inv arr sv (given_back s w)"
  using sys_inv_center [OF assms(1), of "w_center w"] px_inv_kept [OF assms(3,5)] assms(2,4,5)
  by (simp add: net_inv_def px_keeps_def)

section \<open>Every event is handled\<close>

lemma server_side_inv:
  assumes "net_inv arr sv n" "sane ev (sys_reactor (nw_sys n))"
  shows "\<exists>s'. net_do arr sv (ServerSide ev) n = Inr (n\<lparr>nw_sys := s'\<rparr>) \<and> net_inv arr sv (n\<lparr>nw_sys := s'\<rparr>) \<and>
    sys_do arr sv (ServerEvent ev) (nw_sys n) = Inr s'"
proof -
  have inv: "sys_inv arr sv (nw_sys n)" using assms(1) by (simp add: net_inv_def)
  from server_event_inv [OF inv assms(2)] obtain s' where
    s': "sys_do arr sv (ServerEvent ev) (nw_sys n) = Inr s'" "sys_inv arr sv s'"
      "lb_pub (sys_lb s') = lb_pub (sys_lb (nw_sys n))" "same_subs (sys_reactor (nw_sys n)) (sys_reactor s')"
    by auto
  have "lent (n\<lparr>nw_sys := s'\<rparr>) = (lent n)\<lparr>w_center := r_center (sys_reactor s')\<rparr>" by (simp add: lent_def)
  moreover have "px_inv (lb_pub (sys_lb s')) ((lent n)\<lparr>w_center := r_center (sys_reactor s')\<rparr>)"
    using px_inv_center [of _ "lent n"] assms(1) s'(3,4) by (simp add: net_inv_def same_subs_def)
  ultimately show ?thesis using s' assms(1) by (simp add: net_do.simps net_inv_def del: sys_do.simps)
qed

text \<open>A step of the balancing thread publishes nothing, or what it made of the batch at the head.\<close>

lemma balancer_publishes:
  assumes "sys_do arr sv BalancerStep s = Inr s'" "backend (sys_lb s) \<noteq> []"
  shows "sys_reactor s' = sys_reactor s \<and> lb_pub (sys_lb s') = lb_pub (sys_lb s) \<and>
    (published s' = published s \<or>
     (\<exists>b rest x. sys_pc s = Spinning \<and> sock_queue (sys_lb s) = b # rest \<and> published s' = published s @ [x] \<and>
        forwards arr (backend (sys_lb s)) b x \<and> sys_pc s' = LoopHead \<and> sock_queue (sys_lb s') = rest))"
proof (cases "sys_pc s = Spinning \<and> sock_queue (sys_lb s) \<noteq> []")
  case True
  then obtain b rest where q: "sys_pc s = Spinning" "sock_queue (sys_lb s) = b # rest"
    by (cases "sock_queue (sys_lb s)") auto
  from balancer_serves [OF this assms(2), of arr sv] assms(1) obtain x where
    "s' = s\<lparr>sys_pc := LoopHead, sys_lb := (sys_lb s)\<lparr>lb_sockes := b, sock_queue := rest\<rparr>,
       published := published s @ [x]\<rparr>" "forwards arr (backend (sys_lb s)) b x"
    by auto
  with q show ?thesis by auto
next
  case False
  with assms(1) show ?thesis by (cases "sys_pc s") auto
qed

text \<open>What the balancer publishes suits the proxy.\<close>

lemma published_batch:
  assumes "forwards arr bk b x" "arranges arr"
  obtains ps where "x = ForwardContext (pub_code FORWARD) ps" "distinct (map fst ps)" "fst ` set ps = set b"
proof -
  from assms(1) obtain m where m: "x = ForwardContext (pub_code FORWARD) (arr m)" "balance_loop (bk, 0) b [] = Inr m"
    by (auto simp: forwards_def)
  have "mset (map fst (arr m)) = mset (map fst m)" using assms(2) by (simp add: arranges_def)
  moreover have "distinct (map fst m)" "fst ` set m = set b" using balance_keys [OF m(2)] by simp_all
  ultimately have "distinct (map fst (arr m))" "set (map fst (arr m)) = set (map fst m)"
    by (metis mset_eq_imp_distinct_iff, metis mset_eq_setD)
  with m(1) \<open>fst ` set m = set b\<close> show thesis by (intro that [of "arr m"]) simp_all
qed

lemma answered_good:
  assumes "answered e w b" "px_tracks w" "distinct (map fst ps)" "fst ` set ps = set b"
  shows "\<forall>q \<in> set ps. connectable e w (fst q) \<and> readable e (fst q)" "distinct (map fst (new_conns e w ps))"
proof -
  have "fst q \<in> set b" if "q \<in> set ps" for q using that assms(4) by blast
  then show "\<forall>q \<in> set ps. connectable e w (fst q) \<and> readable e (fst q)"
    using assms(1,2) by (auto simp: answered_def connectable_def px_tracks_def)
  show "distinct (map fst (new_conns e w ps))"
    using assms(1,3,4) by (intro distinct_new_conns) (simp_all add: answered_def)
qed

text \<open>
  What an event does to the proxy's part: its frame stays; each block it adds to the bytes
  delivered was read from a descriptor and went to the one paired with it.
\<close>

lemma px_frame_lent: "px_frame (nw_px n) (lent n)" "px_frame (lent n) w \<Longrightarrow> px_frame (nw_px n) w"
  by (auto simp: px_frame_def intro!: exI [of _ "g_iter (px_group (w_px (nw_px n)))"])

definition paired :: "network \<Rightarrow> network \<Rightarrow> fd \<Rightarrow> fd \<Rightarrow> bool" where
  "paired n n' f t \<longleftrightarrow> reversed_map (w_px (nw_px n')) f = Some t \<or> sock_map (w_px (nw_px n)) f = Some t"

fun kernel_of :: "net_event \<Rightarrow> penv option" where
  "kernel_of (Balance e) = Some e"
| "kernel_of (ProxyRound e k eps) = Some e"
| "kernel_of _ = None"

definition carried :: "net_event \<Rightarrow> network \<Rightarrow> network \<Rightarrow> bool" where
  "carried ev n n' \<longleftrightarrow> px_frame (nw_px n) (nw_px n') \<and> (\<exists>outs. w_out (nw_px n') = w_out (nw_px n) @ outs \<and>
     (\<forall>(t, s) \<in> set outs. \<exists>e f j. kernel_of ev = Some e \<and> paired n n' f t \<and> s = take j (request e f)))"

lemma carried_none: "px_frame (nw_px n) (nw_px n') \<Longrightarrow> w_out (nw_px n') = w_out (nw_px n) \<Longrightarrow> carried ev n n'"
  by (simp add: carried_def)

lemma carried_delivered:
  assumes "px_frame (nw_px n) (nw_px n')" "w_out (nw_px n') = w_out (nw_px n) @ outs" "kernel_of ev = Some e" "delivered outs to (request e) F"
    "\<And>f t. f \<in> F \<Longrightarrow> to f = Some t \<Longrightarrow> paired n n' f t"
  shows "carried ev n n'"
  unfolding carried_def
proof (intro exI conjI ballI)
  show "px_frame (nw_px n) (nw_px n')" by fact
  show "w_out (nw_px n') = w_out (nw_px n) @ outs" by fact
  fix q assume q: "q \<in> set outs"
  obtain t s where ts: "q = (t, s)" by (cases q)
  with q assms(4) obtain f j where "f \<in> F" "to f = Some t" "s = take j (request e f)"
    by (fastforce simp: delivered_def)
  with assms(3,5) ts show "case q of (t, s) \<Rightarrow> \<exists>e f j. kernel_of ev = Some e \<and> paired n n' f t \<and> s = take j (request e f)"
    by auto
qed

lemma balance_inv:
  assumes "net_inv arr sv n" "net_sane (Balance e) n"
  shows "\<exists>n'. net_do arr sv (Balance e) n = Inr n' \<and> net_inv arr sv n' \<and> carried (Balance e) n n'"
proof -
  let ?s = "nw_sys n"
  have inv: "sys_inv arr sv ?s" "arranges arr" and px: "px_inv (lb_pub (sys_lb ?s)) (lent n)"
    using assms(1) by (simp_all add: net_inv_def)
  have ok: "px_ok (lent n)" using px by (simp add: px_inv_def)
  from balancer_step_inv [OF inv(1)] obtain s' where s': "sys_do arr sv BalancerStep ?s = Inr s'" "sys_inv arr sv s'"
    by blast
  have "backend (sys_lb ?s) \<noteq> []" using inv(1) by (simp add: sys_inv_def)
  note pub = balancer_publishes [OF s'(1) this]
  have center: "w_center (lent n) = r_center (sys_reactor s')" and lbp: "px_inv (lb_pub (sys_lb s')) (lent n)"
    using pub px by simp_all
  note gives = given_back_inv [OF s'(2) inv(2) lbp center]
  show ?thesis
  proof (cases "published s' = published ?s")
    case True
    then have "net_do arr sv (Balance e) n = Inr (given_back s' (lent n))"
      using s'(1) by (simp add: net_do.simps del: sys_do.simps)
    with gives [OF px_keeps_refl [OF ok]] px_frame_lent(1) show ?thesis by (auto intro!: carried_none)
  next
    case False
    with pub obtain b rest x where x: "sys_pc ?s = Spinning" "sock_queue (sys_lb ?s) = b # rest"
        "published s' = published ?s @ [x]" "forwards arr (backend (sys_lb ?s)) b x"
      by blast
    obtain ps where ps: "x = ForwardContext (pub_code FORWARD) ps" "distinct (map fst ps)" "fst ` set ps = set b"
      using published_batch [OF x(4) inv(2)] .
    have e: "lawful e" "answered e (nw_px n) b" using assms(2) x(1,2) by simp_all
    then have ans: "answered e (lent n) b" by (simp add: answered_def)
    have "px_tracks (lent n)" using px by (simp add: px_inv_def)
    note good = answered_good [OF ans this ps(2,3)]
    have "heard_by (w_center (lent n)) (lb_pub (sys_lb ?s)) FORWARD (px_addr (w_px (lent n)))"
      using px by (simp add: px_inv_def)
    from forward_notified [OF this ok e(1) good(1) ps(2) good(2), of "Suc (Suc 0)"] obtain y w' outs where
      w': "px_ntf depth e (lb_pub (sys_lb ?s)) FORWARD x (lent n) = Inr (y, w')" "px_keeps (lent n) w'"
        "w_out w' = w_out (lent n) @ outs" "delivered outs (reversed_map (w_px w')) (request e) (fst ` set ps)"
      unfolding ps(1) depth_def by blast
    have "net_do arr sv (Balance e) n = Inr (given_back s' w')"
      using s'(1) x(3) w'(1) pub by (simp add: net_do.simps del: sys_do.simps)
    moreover have "px_frame (nw_px n) w'" using w'(2) px_frame_lent(2) by (simp add: px_keeps_def)
    then have "carried (Balance e) n (given_back s' w')"
      by (intro carried_delivered [OF _ _ _ w'(4)]) (use w'(3) in \<open>simp_all add: paired_def\<close>)
    ultimately show ?thesis using gives [OF w'(2)] by blast
  qed
qed

lemma proxy_round_inv:
  assumes "net_inv arr sv n" "net_sane (ProxyRound e k eps) n"
  shows "\<exists>n'. net_do arr sv (ProxyRound e k eps) n = Inr n' \<and> net_inv arr sv n' \<and> carried (ProxyRound e k eps) n n'"
proof -
  let ?s = "nw_sys n"
  have inv: "sys_inv arr sv ?s" "arranges arr" and px: "px_inv (lb_pub (sys_lb ?s)) (lent n)"
    using assms(1) by (simp_all add: net_inv_def)
  have w: "threads_ok (lent n)" "px_ok (lent n)" "lawful e" "distinct (map resp_fd eps)"
      "\<forall>q \<in> set eps. resp_fd q \<in> dom (sock_map (w_px (lent n))) \<and> (ready q \<longrightarrow> readable e (resp_fd q))"
    using px assms(2) by (simp_all add: px_inv_def px_tracks_def)
  from px_round_ok [OF w] obtain w' outs where
    w': "px_round e k eps (lent n) = Inr w'" "px_keeps (lent n) w'" "w_out w' = w_out (lent n) @ outs"
      "delivered outs (sock_map (w_px (lent n))) (request e) (resp_fd ` set eps)"
    by blast
  have "px_frame (nw_px n) w'" using w'(2) px_frame_lent(2) by (simp add: px_keeps_def)
  then have "carried (ProxyRound e k eps) n (given_back ?s w')"
    by (intro carried_delivered [OF _ _ _ w'(4)]) (use w'(3) in \<open>simp_all add: paired_def\<close>)
  with given_back_inv [OF inv px _ w'(2)] w'(1) show ?thesis by (simp add: net_do.simps)
qed

lemma net_do_inv:
  assumes "net_inv arr sv n" "net_sane ev n"
  shows "\<exists>n'. net_do arr sv ev n = Inr n' \<and> net_inv arr sv n' \<and> carried ev n n'"
proof (cases ev)
  case (ServerSide e)
  with server_side_inv [OF assms(1), of e] assms(2) obtain s' where
    "net_do arr sv ev n = Inr (n\<lparr>nw_sys := s'\<rparr>)" "net_inv arr sv (n\<lparr>nw_sys := s'\<rparr>)" by auto
  then show ?thesis by (intro exI [of _ "n\<lparr>nw_sys := s'\<rparr>"]) (simp add: carried_none)
next
  case (Balance e)
  with balance_inv [OF assms(1), of e] assms(2) show ?thesis by blast
next
  case StopBalance
  have "sys_inv arr sv (nw_sys n)" using assms(1) by (simp add: net_inv_def)
  from sys_do_inv [OF this, of BalancerStop] obtain s' where "sys_do arr sv BalancerStop (nw_sys n) = Inr s'" "sys_inv arr sv s'"
    by auto
  with StopBalance assms(1) show ?thesis
    by (intro exI [of _ "n\<lparr>nw_sys := s'\<rparr>"]) (auto simp: net_do.simps net_inv_def lb_set_stop_def lent_def carried_none)
next
  case (ProxyRound e k eps)
  with proxy_round_inv [OF assms(1), of e k eps] assms(2) show ?thesis by blast
qed

interpretation net: event_system "net_do arr sv" net_sane "net_inv arr sv" for arr sv
  by unfold_locales (use net_do_inv in blast)

lemma net_reach_inv: "net_reach arr sv n \<Longrightarrow> net_inv arr sv n"
  unfolding net_reach_def by (erule net.reached_inv) (erule net_first.cases, simp add: net_inv_start)

text \<open>A network whose server has accepted client 9 and handed it over, before and after its assignment.\<close>

definition demo_kernel_answers :: penv where
  "demo_kernel_answers = demo_penv\<lparr>pe_peer := e_peer demo_env\<rparr>"

lemma demo_lawful: "lawful demo_kernel_answers" "readable demo_kernel_answers f"
proof -
  have "pe_send demo_kernel_answers = pe_send demo_penv" by (simp add: demo_kernel_answers_def)
  then show "lawful demo_kernel_answers"
    using demo_sends(1) by (simp add: lawful_def demo_kernel_answers_def ip_string_def demo_env_def make_inet_def)
      (simp add: demo_penv_def)
  show "readable demo_kernel_answers f"
    by (simp add: readable_def demo_kernel_answers_def request_def MAX_PACKET_SIZE_def) (simp add: demo_penv_def)
qed

lemma demo_network:
  "\<exists>sv n. net_reach rev sv n \<and> sys_pc (nw_sys n) = LoopHead \<and> sock_queue (sys_lb (nw_sys n)) = [] \<and>
     \<not> lb_stop (sys_lb (nw_sys n)) \<and> dom (conn_map (sys_reactor (nw_sys n))) = {9} \<and>
     g_dmps (el_group (sys_loop (nw_sys n))) = [1, 2] \<and> g_done (el_group (sys_loop (nw_sys n))) \<noteq> [] \<and>
     traffic_map (r_center (sys_reactor (nw_sys n))) = [toString (e_peer demo_env 9) \<mapsto> 0] \<and>
     sock_map (w_px (nw_px n)) = Map.empty \<and> reversed_map (w_px (nw_px n)) = Map.empty \<and> w_out (nw_px n) = [] \<and>
     w_sys (nw_px n) = [] \<and> \<not> el_stop (sys_loop (nw_sys n))"
proof -
  obtain ts lb px r rp and s1 s2 :: system where b: "built ts lb px r rp" "srv_addr (ts_server ts) = 42" "lb_addr lb = 50"
      "sane (MainRound demo_env 9) r" "traffic_map (r_center (sys_reactor s1)) = [toString (e_peer demo_env 9) \<mapsto> 0]"
      "sys_do rev (ts_server ts) (ServerEvent (MainRound demo_env 9))
       \<lparr>sys_loop = ts_loop ts, sys_reactor = r, sys_pc = LoopHead, sys_lb = demo_backends lb, published = []\<rparr> = Inr s1"
      "dom (conn_map (sys_reactor s1)) = {9}" "g_dmps (el_group (sys_loop s1)) = [1, 2]"
      "g_done (el_group (sys_loop s1)) \<noteq> []" "sys_pc s1 = LoopHead" "sys_lb s1 = demo_backends lb"
      "sys_lb s2 = (demo_backends lb)\<lparr>sock_queue := [[9]]\<rparr>" "\<not> lb_stop (sys_lb s2)" "sock_queue (demo_backends lb) = []"
      "\<not> el_stop (sys_loop s1)"
    using demo_steps by blast
  let ?n0 = "net_start ts (demo_backends lb) px r rp" and ?sv = "ts_server ts"
  let ?n1 = "?n0\<lparr>nw_sys := s1\<rparr>"
  have "net_first rev ?sv ?n0"
    unfolding demo_backends_def by (rule net_begin [OF b(1) _ demo_arranges]) (simp_all add: b(2,3) arranges_def)
  then have first: "net_reach rev ?sv ?n0" unfolding net_reach_def by (rule begins)
  have step: "net_do rev ?sv (ServerSide (MainRound demo_env 9)) ?n0 = Inr ?n1"
    using b(6) by (simp add: net_do.simps net_start_def del: sys_do.simps)
  have "net_sane (ServerSide (MainRound demo_env 9)) ?n0" using b(4) by (simp add: net_start_def)
  from goes_on [OF first [unfolded net_reach_def] this step] have "net_reach rev ?sv ?n1" unfolding net_reach_def .
  moreover have "px_new px (r_dmps rp)" using built_facts [OF b(1)] by simp
  ultimately show ?thesis using b(5,7-15)
    by (intro exI [of _ ?sv] exI [of _ ?n1]) (simp add: net_start_def px_start_def px_new_def)
qed




section \<open>A request all the way\<close>

text \<open>The server's step with what it hands over, and that it accounts nothing.\<close>

lemma deliver_step:
  assumes "net_inv arr sv n" "distinct (map resp_fd eps)"
  defines "s \<equiv> nw_sys n"
  shows "\<exists>s'. net_do arr sv (ServerSide (ThreadRound e k eps)) n = Inr (n\<lparr>nw_sys := s'\<rparr>) \<and>
    net_inv arr sv (n\<lparr>nw_sys := s'\<rparr>) \<and> sys_pc s' = sys_pc s \<and> published s' = published s \<and>
    sys_lb s' = (sys_lb s)\<lparr>sock_queue := sock_queue (sys_lb s) @
      gathered (ThreadRound e k eps) (el_group (sys_loop s)) (sys_reactor s)\<rparr> \<and>
    traffic_map (r_center (sys_reactor s')) = traffic_map (r_center (sys_reactor s)) \<and>
    g_dmps (el_group (sys_loop s')) = g_dmps (el_group (sys_loop s)) \<and>
    g_done (el_group (sys_loop s')) = g_done (el_group (sys_loop s)) \<and>
    (k < length (g_dmps (el_group (sys_loop s))) \<and> k < length (g_done (el_group (sys_loop s))) \<longrightarrow>
       conn_map (sys_reactor s') = conn_map (sys_reactor s) |` (- gone eps)) \<and>
    el_stop (sys_loop s') = el_stop (sys_loop s)"
proof -
  have "sane (ThreadRound e k eps) (sys_reactor s)" using assms(2) by simp
  with server_side_inv [OF assms(1), of "ThreadRound e k eps"] obtain s' where
    s': "net_do arr sv (ServerSide (ThreadRound e k eps)) n = Inr (n\<lparr>nw_sys := s'\<rparr>)"
      "net_inv arr sv (n\<lparr>nw_sys := s'\<rparr>)" "sys_do arr sv (ServerEvent (ThreadRound e k eps)) s = Inr s'"
    unfolding s_def by blast
  have inv: "sys_inv arr sv s" using assms(1) by (simp add: net_inv_def s_def)
  from server_event_inv [OF this, of "ThreadRound e k eps"] assms(2) s'(3) have
    lb: "sys_pc s' = sys_pc s" "published s' = published s"
      "sys_lb s' = (sys_lb s)\<lparr>sock_queue := sock_queue (sys_lb s) @
        gathered (ThreadRound e k eps) (el_group (sys_loop s)) (sys_reactor s)\<rparr>"
    by (auto simp del: sys_do.simps gathered.simps)
  from inv have "program_inv sv (sys_loop s, sys_reactor s)" by (simp add: sys_inv_def)
  from thread_round_inv [OF this assms(2), of e k] obtain g' r' where
    r': "thread_round e sv k eps (el_group (sys_loop s)) (sys_reactor s) = Inr (g', r')"
      "g_dmps g' = g_dmps (el_group (sys_loop s))" "g_done g' = g_done (el_group (sys_loop s))" "traffic_map (r_center r') = traffic_map (r_center (sys_reactor s))"
      "k < length (g_dmps (el_group (sys_loop s))) \<and> k < length (g_done (el_group (sys_loop s))) \<longrightarrow>
         conn_map r' = conn_map (sys_reactor s) |` (- gone eps)"
    by blast
  have "sys_reactor s' = r'" "sys_loop s' = (sys_loop s)\<lparr>el_group := g'\<rparr>"
    using s'(3) r'(1) by (auto simp: result_simps)
  with s'(1,2) lb r'(2-5) show ?thesis by (intro exI [of _ s']) simp
qed

text \<open>The balancing thread's step at the head of its loop, and with a batch at hand.\<close>

lemma balance_spin:
  assumes "sys_pc (nw_sys n) = LoopHead" "\<not> lb_stop (sys_lb (nw_sys n))"
  shows "net_do arr sv (Balance e) n = Inr (given_back ((nw_sys n)\<lparr>sys_pc := Spinning\<rparr>) (lent n))"
  using assms by (simp add: net_do.simps)

lemma balance_exact:
  assumes "net_inv arr sv n" "sys_pc (nw_sys n) = Spinning" "sock_queue (sys_lb (nw_sys n)) = cs # rest" "distinct cs"
    "pe_attach e" "\<forall>c \<in> set cs. good_client e (lent n) c" "distinct (map (peer_text e) cs)"
    "inj_on (\<lambda>c. fst (pe_connect e c)) (set cs)"
  shows "\<exists>n' ps. net_do arr sv (Balance e) n = Inr n' \<and> sys_pc (nw_sys n') = LoopHead \<and>
    sys_lb (nw_sys n') = (sys_lb (nw_sys n))\<lparr>lb_sockes := cs, sock_queue := rest\<rparr> \<and>
    sys_loop (nw_sys n') = sys_loop (nw_sys n) \<and>
    conn_map (sys_reactor (nw_sys n')) = conn_map (sys_reactor (nw_sys n)) \<and>
    mset (w_out (nw_px n')) = mset (w_out (nw_px n)) + mset (map (\<lambda>c. (backend_of e (lent n) c, request e c)) cs) \<and>
    (\<exists>outs. w_out (nw_px n') = w_out (nw_px n) @ outs) \<and>
    w_conns (nw_px n') = w_conns (nw_px n) @ new_conns e (lent n) ps \<and> fst ` set ps = set cs \<and>
    (\<forall>j < length cs. (cs ! j, snd (backend (sys_lb (nw_sys n)) ! (j mod length (backend (sys_lb (nw_sys n)))))) \<in> set ps) \<and>
    (\<forall>c. reversed_map (w_px (nw_px n')) c =
       (if c \<in> set cs then Some (backend_of e (lent n) c) else reversed_map (w_px (nw_px n)) c)) \<and>
    (\<forall>c \<in> set cs. traffic_map (w_center (lent n')) (peer_text e c) =
       map_option (\<lambda>t. t + word_of_nat (length (request e c))) (traffic_map (w_center (lent n)) (peer_text e c))) \<and>
    (\<forall>a. a \<notin> peer_text e ` set cs \<longrightarrow> traffic_map (w_center (lent n')) a = traffic_map (w_center (lent n)) a)"
proof -
  let ?s = "nw_sys n" and ?lb = "sys_lb (nw_sys n)" and ?w = "lent n"
  have inv: "sys_inv arr sv ?s" "arranges arr" and px: "px_inv (lb_pub ?lb) ?w"
    using assms(1) by (simp_all add: net_inv_def)
  have bk: "backend ?lb \<noteq> []" using inv(1) by (simp add: sys_inv_def)
  from balancer_serves [OF assms(2,3) bk, of arr sv] obtain x where
    x: "sys_do arr sv BalancerStep ?s = Inr (?s\<lparr>sys_pc := LoopHead,
      sys_lb := ?lb\<lparr>lb_sockes := cs, sock_queue := rest\<rparr>, published := published ?s @ [x]\<rparr>)" "forwards arr (backend ?lb) cs x"
    by blast
  then obtain m where m: "x = ForwardContext (pub_code FORWARD) (arr m)" "balancing ?lb cs = Inr m"
    by (auto simp: forwards_def balancing_def)
  have ms: "mset (arr m) = mset m" using inv(2) by (simp add: arranges_def)
  note assigned = batch_assigned [OF bk assms(4) ms m(2)]
  have fst_ps: "fst ` set (arr m) = set cs" using assigned(1,2) by (metis set_map)
  let ?c = "snd (notify_targets (lb_pub ?lb) FORWARD (w_center ?w))"
  have ok: "px_ok (?w\<lparr>w_center := ?c\<rparr>)" using px by (simp add: px_inv_def px_ok_def)
  have same: "good_client e (?w\<lparr>w_center := ?c\<rparr>) = good_client e ?w" "backend_of e (?w\<lparr>w_center := ?c\<rparr>) = backend_of e ?w"
      "new_conns e (?w\<lparr>w_center := ?c\<rparr>) = new_conns e ?w"
    by (simp_all add: good_client_def backend_of_def new_conns_def fun_eq_iff)
  obtain w' where w': "px_update (px_ntf (Suc (Suc 0)) e) e x (?w\<lparr>w_center := ?c\<rparr>) = Some (Inr (x, w'))"
      "mset (w_out w') = mset (w_out ?w) + mset (map (\<lambda>c. (backend_of e ?w c, request e c)) cs)"
      "w_conns w' = w_conns ?w @ new_conns e ?w (arr m)" "\<exists>outs. w_out w' = w_out ?w @ outs"
      "\<forall>c. reversed_map (w_px w') c = (if c \<in> set cs then Some (backend_of e ?w c) else reversed_map (w_px ?w) c)"
      "\<forall>c \<in> set cs. traffic_map (w_center w') (peer_text e c) =
         map_option (\<lambda>t. t + word_of_nat (length (request e c))) (traffic_map (w_center ?w) (peer_text e c))"
      "\<forall>a. a \<notin> peer_text e ` set cs \<longrightarrow> traffic_map (w_center w') a = traffic_map (w_center ?w) a"
    using forward_balanced [OF ok assms(5) _ assms(4,7,8) assigned(1) ms, unfolded same, of "px_ntf (Suc (Suc 0)) e"]
      assms(6) m(1) by auto
  have "heard_by (w_center ?w) (lb_pub ?lb) FORWARD (px_addr (w_px ?w))" using px by (simp add: px_inv_def)
  from px_ntf_heard [OF this w'(1)] have "px_ntf depth e (lb_pub ?lb) FORWARD x ?w = Inr (x, w')"
    by (simp add: depth_def)
  let ?n' = "given_back (?s\<lparr>sys_pc := LoopHead, sys_lb := ?lb\<lparr>lb_sockes := cs, sock_queue := rest\<rparr>,
    published := published ?s @ [x]\<rparr>) w'"
  have "net_do arr sv (Balance e) n = Inr ?n'"
    using x(1) \<open>px_ntf depth e (lb_pub ?lb) FORWARD x ?w = Inr (x, w')\<close> by (simp add: net_do.simps del: sys_do.simps)
  with w'(2-7) fst_ps assigned(4) show ?thesis by (intro exI [of _ ?n'] exI [of _ "arr m"]) simp
qed

text \<open>The balancing thread has nothing to do; the server's group has a thread \<open>k\<close>.\<close>

definition idle :: "network \<Rightarrow> bool" where
  "idle n \<longleftrightarrow> sys_pc (nw_sys n) = LoopHead \<and> \<not> lb_stop (sys_lb (nw_sys n)) \<and> sock_queue (sys_lb (nw_sys n)) = []"

definition has_thread :: "nat \<Rightarrow> network \<Rightarrow> bool" where
  "has_thread k n \<longleftrightarrow> k < length (g_dmps (el_group (sys_loop (nw_sys n)))) \<and>
     k < length (g_done (el_group (sys_loop (nw_sys n))))"

text \<open>A delivery to the server and two steps of the balancing thread: what they do, to everything.\<close>

lemma good_answered:
  assumes "px_tracks w" "\<forall>c \<in> set cs. good_client e w c" "inj_on (\<lambda>c. fst (pe_connect e c)) (set cs)"
  shows "answered e w cs"
  using assms inj_on_subset [OF assms(3), of "{c \<in> set cs. reversed_map (w_px w) c = None}"]
  by (auto simp: answered_def good_client_def px_tracks_def readable_def)

lemma served:
  assumes "net_inv arr sv n" "distinct (map resp_fd eps)" "eps \<noteq> []" "has_thread k n" "idle n"
    and cs: "cs = ready_clients (sys_reactor (nw_sys n)) eps"
    and kernel: "pe_attach pe" "\<forall>c \<in> set cs. good_client pe (lent n) c" "distinct (map (peer_text pe) cs)"
      "inj_on (\<lambda>c. fst (pe_connect pe c)) (set cs)"
  shows "\<exists>n' ps. play (net_do arr sv) [ServerSide (ThreadRound e k eps), Balance pe, Balance pe] n = Inr n' \<and>
    (lawful pe \<longrightarrow> net_inv arr sv n' \<and> px_frame (nw_px n) (nw_px n')) \<and> has_thread k n' \<and> idle n' \<and>
    el_stop (sys_loop (nw_sys n')) = el_stop (sys_loop (nw_sys n)) \<and>
    conn_map (sys_reactor (nw_sys n')) = conn_map (sys_reactor (nw_sys n)) |` (- gone eps) \<and>
    mset (w_out (nw_px n')) = mset (w_out (nw_px n)) + mset (map (\<lambda>c. (backend_of pe (lent n) c, request pe c)) cs) \<and>
    (\<exists>outs. w_out (nw_px n') = w_out (nw_px n) @ outs) \<and>
    w_conns (nw_px n') = w_conns (nw_px n) @ new_conns pe (lent n) ps \<and> fst ` set ps = set cs \<and>
    (\<forall>j < length cs. (cs ! j, snd (backend (sys_lb (nw_sys n)) ! (j mod length (backend (sys_lb (nw_sys n)))))) \<in> set ps) \<and>
    (\<forall>c. reversed_map (w_px (nw_px n')) c =
       (if c \<in> set cs then Some (backend_of pe (lent n) c) else reversed_map (w_px (nw_px n)) c)) \<and>
    (\<forall>c \<in> set cs. traffic_map (w_center (lent n')) (peer_text pe c) =
       map_option (\<lambda>t. t + word_of_nat (length (request pe c))) (traffic_map (w_center (lent n)) (peer_text pe c))) \<and>
    (\<forall>a. a \<notin> peer_text pe ` set cs \<longrightarrow> traffic_map (w_center (lent n')) a = traffic_map (w_center (lent n)) a)"
proof -
  from deliver_step [OF assms(1,2), of e k] obtain s1 where
    s1: "net_do arr sv (ServerSide (ThreadRound e k eps)) n = Inr (n\<lparr>nw_sys := s1\<rparr>)"
      "net_inv arr sv (n\<lparr>nw_sys := s1\<rparr>)" "sys_pc s1 = LoopHead" "\<not> lb_stop (sys_lb s1)"
      "sock_queue (sys_lb s1) = [cs]" "backend (sys_lb s1) = backend (sys_lb (nw_sys n))"
      "traffic_map (r_center (sys_reactor s1)) = traffic_map (r_center (sys_reactor (nw_sys n)))"
      "g_dmps (el_group (sys_loop s1)) = g_dmps (el_group (sys_loop (nw_sys n)))"
      "g_done (el_group (sys_loop s1)) = g_done (el_group (sys_loop (nw_sys n)))"
      "el_stop (sys_loop s1) = el_stop (sys_loop (nw_sys n))"
      "conn_map (sys_reactor s1) = conn_map (sys_reactor (nw_sys n)) |` (- gone eps)"
    using assms(3-5) cs by (auto simp: idle_def has_thread_def)
  let ?n1 = "n\<lparr>nw_sys := s1\<rparr>" let ?n2 = "given_back (s1\<lparr>sys_pc := Spinning\<rparr>) (lent ?n1)"
  have spin: "net_do arr sv (Balance pe) ?n1 = Inr ?n2" using balance_spin [of ?n1 arr sv pe] s1(3,4) by simp
  have inv2: "net_inv arr sv ?n2"
    using s1(2) px_keeps_refl [of "lent ?n1"]
    by (simp add: net_inv_def sys_inv_def px_inv_def batch_ctx_def [abs_def])
  have same: "good_client pe (lent ?n2) = good_client pe (lent n)" "backend_of pe (lent ?n2) = backend_of pe (lent n)"
      "new_conns pe (lent ?n2) = new_conns pe (lent n)"
    using s1(7) by (simp_all add: good_client_def backend_of_def new_conns_def fun_eq_iff)
  have "distinct cs" using assms(2) cs by (simp add: distinct_ready_clients)
  from balance_exact [OF inv2 _ _ this kernel(1) _ kernel(3,4), of "[]", unfolded same] kernel(2) s1(5) obtain n' ps where
    n': "net_do arr sv (Balance pe) ?n2 = Inr n'" "sys_pc (nw_sys n') = LoopHead"
      "sys_lb (nw_sys n') = (sys_lb s1)\<lparr>lb_sockes := cs, sock_queue := []\<rparr>" "sys_loop (nw_sys n') = sys_loop s1"
      "conn_map (sys_reactor (nw_sys n')) = conn_map (sys_reactor s1)"
      "mset (w_out (nw_px n')) = mset (w_out (nw_px n)) + mset (map (\<lambda>c. (backend_of pe (lent n) c, request pe c)) cs)"
      "w_conns (nw_px n') = w_conns (nw_px n) @ new_conns pe (lent n) ps" "fst ` set ps = set cs"
      "\<forall>j < length cs. (cs ! j, snd (backend (sys_lb s1) ! (j mod length (backend (sys_lb s1))))) \<in> set ps"
      "\<forall>c. reversed_map (w_px (nw_px n')) c =
         (if c \<in> set cs then Some (backend_of pe (lent n) c) else reversed_map (w_px (nw_px n)) c)"
      "\<forall>c \<in> set cs. traffic_map (w_center (lent n')) (peer_text pe c) =
         map_option (\<lambda>t. t + word_of_nat (length (request pe c))) (traffic_map (r_center (sys_reactor s1)) (peer_text pe c))"
      "\<forall>a. a \<notin> peer_text pe ` set cs \<longrightarrow> traffic_map (w_center (lent n')) a = traffic_map (r_center (sys_reactor s1)) a"
      "\<exists>outs. w_out (nw_px n') = w_out (nw_px n) @ outs"
    by auto
  have "net_inv arr sv n' \<and> px_frame (nw_px n) (nw_px n')" if "lawful pe"
  proof -
    have "px_tracks (lent ?n2)" using inv2 by (simp add: net_inv_def px_inv_def)
    from good_answered [OF this, of cs pe] kernel(2,4) same have "answered pe (lent ?n2) cs" by simp
    then have "net_sane (Balance pe) ?n2" using that s1(5) by (simp add: answered_def)
    from net_do_inv [OF inv2 this] n'(1) have "net_inv arr sv n'" "px_frame (lent ?n1) (nw_px n')"
      by (simp_all add: carried_def)
    then show ?thesis using px_frame_lent(2) [of ?n1] by simp
  qed
  moreover have "play (net_do arr sv) [ServerSide (ThreadRound e k eps), Balance pe, Balance pe] n = Inr n'"
    using s1(1) spin n'(1) by simp
  moreover have "has_thread k n'" "idle n'"
    using assms(4) s1(4,8,9) n'(2-4) by (simp_all add: has_thread_def idle_def)
  ultimately show ?thesis using n'(4-13) s1(6,7,10,11) by (intro exI [of _ n'] exI [of _ ps]) simp
qed


lemma demo_good:
  assumes "traffic_map (w_center w) = [toString (e_peer demo_env 9) \<mapsto> 0]" "sock_map (w_px w) = Map.empty"
    "reversed_map (w_px w) = Map.empty"
  shows "good_client demo_kernel_answers w 9" "backend_of demo_kernel_answers w 9 = 109" "request demo_kernel_answers 9 = ''ok''"
  using assms demo_sends [of 109]
  by (simp_all add: good_client_def backend_of_def request_def peer_text_def demo_kernel_answers_def MAX_PACKET_SIZE_def
      ip_string_def demo_env_def make_inet_def)
    (simp_all add: demo_penv_def MAX_TRAFFIC_def)


text \<open>The network of \<open>demo_network\<close> with the batch of client 9 at the balancing thread.\<close>

lemma demo_spinning:
  "\<exists>sv n n'. net_reach rev sv n \<and> net_sane (Balance demo_kernel_answers) n \<and> w_out (nw_px n) = [] \<and>
     net_do rev sv (Balance demo_kernel_answers) n = Inr n' \<and> idle n' \<and> has_thread 0 n' \<and>
     \<not> el_stop (sys_loop (nw_sys n')) \<and> dom (conn_map (sys_reactor (nw_sys n'))) = {9} \<and>
     w_out (nw_px n') = [(109, ''ok'')] \<and> reversed_map (w_px (nw_px n')) 9 = Some 109 \<and>
     traffic_map (w_center (lent n')) (toString (e_peer demo_env 9)) = Some 2"
proof -
  obtain sv n where n: "net_reach rev sv n" "sys_pc (nw_sys n) = LoopHead" "sock_queue (sys_lb (nw_sys n)) = []"
      "\<not> lb_stop (sys_lb (nw_sys n))" "dom (conn_map (sys_reactor (nw_sys n))) = {9}"
      "g_dmps (el_group (sys_loop (nw_sys n))) = [1, 2]" "g_done (el_group (sys_loop (nw_sys n))) \<noteq> []"
      "traffic_map (r_center (sys_reactor (nw_sys n))) = [toString (e_peer demo_env 9) \<mapsto> 0]"
      "sock_map (w_px (nw_px n)) = Map.empty" "reversed_map (w_px (nw_px n)) = Map.empty" "w_out (nw_px n) = []"
      "w_sys (nw_px n) = []" "\<not> el_stop (sys_loop (nw_sys n))"
    using demo_network by blast
  have d: "distinct (map resp_fd demo_ready)" by (simp add: demo_ready_def)
  have cs: "ready_clients (sys_reactor (nw_sys n)) demo_ready = [9]" "gone demo_ready = {}"
    using n(5) by (simp_all add: demo_ready_def ready_clients_def ready_def closing_def)
  from deliver_step [OF net_reach_inv [OF n(1)] d, of demo_env 0] n(2-7,13) cs obtain s1 where
    s1: "net_do rev sv (ServerSide (ThreadRound demo_env 0 demo_ready)) n = Inr (n\<lparr>nw_sys := s1\<rparr>)"
      "net_inv rev sv (n\<lparr>nw_sys := s1\<rparr>)" "sys_pc s1 = LoopHead" "\<not> lb_stop (sys_lb s1)" "sock_queue (sys_lb s1) = [[9]]"
      "traffic_map (r_center (sys_reactor s1)) = traffic_map (r_center (sys_reactor (nw_sys n)))"
      "g_dmps (el_group (sys_loop s1)) = [1, 2]" "g_done (el_group (sys_loop s1)) \<noteq> []" "\<not> el_stop (sys_loop s1)"
      "dom (conn_map (sys_reactor s1)) = {9}"
    by (auto simp: demo_ready_def)
  let ?n1 = "n\<lparr>nw_sys := s1\<rparr>" let ?n2 = "given_back (s1\<lparr>sys_pc := Spinning\<rparr>) (lent ?n1)"
  have "net_sane (ServerSide (ThreadRound demo_env 0 demo_ready)) n" using d by simp
  from goes_on [OF n(1) [unfolded net_reach_def] this s1(1)] have r1: "net_reach rev sv ?n1" unfolding net_reach_def .
  have spin: "net_do rev sv (Balance demo_kernel_answers) ?n1 = Inr ?n2"
    using balance_spin [of ?n1 rev sv demo_kernel_answers] s1(3,4) by simp
  have "net_sane (Balance demo_kernel_answers) ?n1" using s1(3) demo_lawful by simp
  from goes_on [OF r1 [unfolded net_reach_def] this spin] have r2: "net_reach rev sv ?n2" unfolding net_reach_def .
  then have inv2: "net_inv rev sv ?n2" by (rule net_reach_inv)
  have good: "good_client demo_kernel_answers (lent ?n2) 9" "backend_of demo_kernel_answers (lent ?n2) 9 = 109"
      "request demo_kernel_answers 9 = ''ok''"
    using demo_good [of "lent ?n2"] n(8-10) s1(6) by simp_all
  have attach: "pe_attach demo_kernel_answers" using demo_lawful by (simp add: lawful_def)
  have "px_tracks (lent ?n2)" using inv2 by (simp add: net_inv_def px_inv_def)
  from good_answered [OF this, of "[9]" demo_kernel_answers] good(1) have "answered demo_kernel_answers (lent ?n2) [9]" by simp
  then have sane: "net_sane (Balance demo_kernel_answers) ?n2"
    using s1(5) demo_lawful by (simp add: answered_def)
  have peer: "peer_text demo_kernel_answers 9 = toString (e_peer demo_env 9)"
    by (simp add: peer_text_def demo_kernel_answers_def)
  from balance_exact [OF inv2 _ _ _ attach, of "[9]" "[]"] good s1(4-6) n(8,11) peer obtain n' where
    "net_do rev sv (Balance demo_kernel_answers) ?n2 = Inr n'" "idle n'" "sys_loop (nw_sys n') = sys_loop s1"
    "conn_map (sys_reactor (nw_sys n')) = conn_map (sys_reactor s1)"
    "w_out (nw_px n') = [(109, ''ok'')]" "reversed_map (w_px (nw_px n')) 9 = Some 109"
    "traffic_map (w_center (lent n')) (toString (e_peer demo_env 9)) = Some 2"
    by (auto simp: idle_def)
  with r2 sane s1(7-10) n(11) show ?thesis
    by (intro exI [of _ sv] exI [of _ ?n2] exI [of _ n']) (simp add: has_thread_def del: net_sane.simps)
qed


section \<open>And back\<close>

text \<open>Events of one descriptor.\<close>

abbreviation gets :: "env \<Rightarrow> nat \<Rightarrow> fd \<Rightarrow> u32 \<Rightarrow> net_event" where
  "gets e k f evs \<equiv> ServerSide (ThreadRound e k [\<lparr>resp_fd = f, resp_events = evs\<rparr>])"

text \<open>The proxy's group has a thread \<open>k\<close>.\<close>

definition has_px_thread :: "nat \<Rightarrow> network \<Rightarrow> bool" where
  "has_px_thread k n \<longleftrightarrow> k < length (g_dmps (px_group (w_px (nw_px n)))) \<and> k < length (g_done (px_group (w_px (nw_px n))))"

lemma has_px_thread_kept: "px_frame (nw_px n) (nw_px n') \<Longrightarrow> has_px_thread k n' = has_px_thread k n"
  by (auto simp: has_px_thread_def px_frame_def)

lemma reply_step:
  assumes "net_inv arr sv n" "lawful e" "distinct (map resp_fd eps)" "eps \<noteq> []" "has_px_thread k n"
    "\<forall>q \<in> set eps. resp_fd q \<in> dom (sock_map (w_px (nw_px n))) \<and> (ready q \<longrightarrow> good_reply e (nw_px n) (resp_fd q))"
  shows "\<exists>n'. net_do arr sv (ProxyRound e k eps) n = Inr n' \<and>
    w_out (nw_px n') = w_out (nw_px n) @
      map (\<lambda>q. (the (sock_map (w_px (nw_px n)) (resp_fd q)), request e (resp_fd q))) (filter ready eps) \<and>
    sock_map (w_px (nw_px n')) = sock_map (w_px (nw_px n)) |` (- set (hung_up eps)) \<and>
    conn_map (sys_reactor (nw_sys n')) = conn_map (sys_reactor (nw_sys n)) \<and> sys_lb (nw_sys n') = sys_lb (nw_sys n) \<and>
    sys_pc (nw_sys n') = sys_pc (nw_sys n)"
proof -
  have w: "threads_ok (lent n)" "px_ok (lent n)" using assms(1) by (simp_all add: net_inv_def px_inv_def)
  have good: "\<forall>q \<in> set eps. resp_fd q \<in> dom (sock_map (w_px (lent n))) \<and> (ready q \<longrightarrow> good_reply e (lent n) (resp_fd q))"
    using assms(6) by (simp add: good_reply_def)
  have k: "k < length (g_dmps (px_group (w_px (lent n))))" "k < length (g_done (px_group (w_px (lent n))))"
    using assms(5) by (simp_all add: has_px_thread_def)
  from px_round_exact [OF w assms(2,3) good k assms(4)] obtain w' where
    "px_round e k eps (lent n) = Inr w'" "sock_map (w_px w') = sock_map (w_px (lent n)) |` (- set (hung_up eps))"
    "w_out w' = w_out (lent n) @ map (\<lambda>q. (the (sock_map (w_px (lent n)) (resp_fd q)), request e (resp_fd q))) (filter ready eps)"
    by blast
  then show ?thesis by (intro exI [of _ "given_back (nw_sys n) w'"]) (simp add: net_do.simps)
qed



section \<open>A descriptor used again\<close>

text \<open>The accept loop's round, to everything.\<close>

lemma admit_step:
  assumes "net_inv arr sv n" "\<not> el_stop (sys_loop (nw_sys n))" "0 \<le> f" "conn_map (sys_reactor (nw_sys n)) f = None" "e_debug e"
  shows "\<exists>s'. net_do arr sv (ServerSide (MainRound e f)) n = Inr (n\<lparr>nw_sys := s'\<rparr>) \<and> net_inv arr sv (n\<lparr>nw_sys := s'\<rparr>) \<and>
    sys_pc s' = sys_pc (nw_sys n) \<and> sys_lb s' = sys_lb (nw_sys n) \<and>
    g_dmps (el_group (sys_loop s')) = g_dmps (el_group (sys_loop (nw_sys n))) \<and>
    g_done (el_group (sys_loop s')) = g_done (el_group (sys_loop (nw_sys n))) \<and>
    r_center (sys_reactor s') = account (toString (e_peer e f)) 0 (r_center (sys_reactor (nw_sys n))) \<and>
    (\<exists>c. conn_map (sys_reactor s') f = Some c \<and> addr c = e_peer e f)"
proof -
  let ?s = "nw_sys n"
  have inv: "sys_inv arr sv ?s" using assms(1) by (simp add: net_inv_def)
  then have "program_inv sv (sys_loop ?s, sys_reactor ?s)" by (simp add: sys_inv_def)
  from main_round_inv [OF this assms(5), of f] assms(2-4) obtain el' r' where
    r': "loop_round e sv f (sys_loop ?s) (sys_reactor ?s) = Inr (el', r')"
      "g_dmps (el_group el') = g_dmps (el_group (sys_loop ?s))" "g_done (el_group el') = g_done (el_group (sys_loop ?s))"
      "r_center r' = account (toString (e_peer e f)) 0 (r_center (sys_reactor ?s))"
      "\<exists>c. conn_map r' f = Some c \<and> addr c = e_peer e f"
    by auto
  have sane: "sane (MainRound e f) (sys_reactor ?s)" using assms(4,5) by simp
  with server_side_inv [OF assms(1)] obtain s' where
    s': "net_do arr sv (ServerSide (MainRound e f)) n = Inr (n\<lparr>nw_sys := s'\<rparr>)"
      "net_inv arr sv (n\<lparr>nw_sys := s'\<rparr>)" "sys_do arr sv (ServerEvent (MainRound e f)) ?s = Inr s'"
    by blast
  from server_event_inv [OF inv sane] s'(3) have "sys_pc s' = sys_pc ?s" "sys_lb s' = sys_lb ?s"
    by (auto simp del: sys_do.simps)
  moreover have "sys_loop s' = el'" "sys_reactor s' = r'" using s'(3) r'(1) by (auto simp: result_simps)
  ultimately show ?thesis using s'(1,2) r'(2-5) by (intro exI [of _ s']) simp
qed

lemma known_conns: "fst ` set ps = set cs \<Longrightarrow> \<forall>c \<in> set cs. reversed_map (w_px w) c \<noteq> None \<Longrightarrow> new_conns e w ps = []"
  by (auto simp: new_conns_def filter_empty_conv)

text \<open>C36. The proxy never learns that a client has gone. When client \<open>f\<close>, which has a backend connection
  \<open>b\<close>, hangs up, the server closes it and forgets it; the next client to be accepted under the
  descriptor \<open>f\<close>, whoever it is, has its first request delivered to \<open>b\<close>, the connection opened
  for the first one, and no connection is opened for it.\<close>

theorem stale_backend:
  assumes "net_reach arr sv n" "has_thread k n" "idle n" "\<not> el_stop (sys_loop (nw_sys n))"
    and client: "0 \<le> f" "conn_map (sys_reactor (nw_sys n)) f = Some c" "reversed_map (w_px (nw_px n)) f = Some b"
    and kernel: "e_debug e" "lawful pe" "fst (pe_read pe f) = int (length (request pe f))"
      "length (request pe f) \<le> MAX_PACKET_SIZE" "never_fails (pe_send pe b)" "peer_text pe f = toString (e_peer e f)"
      "\<forall>t. traffic_map (r_center (sys_reactor (nw_sys n))) (toString (e_peer e f)) = Some t \<longrightarrow> t \<le> MAX_TRAFFIC"
  shows "\<exists>n' c'. play (net_do arr sv) [gets e k f CLOSABLE, Balance pe, Balance pe, ServerSide (MainRound e f),
      gets e k f READABLE, Balance pe, Balance pe] n = Inr n' \<and>
    conn_map (sys_reactor (nw_sys n')) f = Some c' \<and> addr c' = e_peer e f \<and>
    mset (w_out (nw_px n')) = add_mset (b, request pe f) (mset (w_out (nw_px n))) \<and>
    w_conns (nw_px n') = w_conns (nw_px n)"
proof -
  let ?hup = "[\<lparr>resp_fd = f, resp_events = CLOSABLE\<rparr>]" and ?in = "[\<lparr>resp_fd = f, resp_events = READABLE\<rparr>]"
  have attach: "pe_attach pe" and send: "takes_some (pe_send pe b)" and ip: "length (ip_string (pe_peer pe f)) \<le> 15"
    using kernel(2) by (simp_all add: lawful_def)
  have none: "[] = ready_clients (sys_reactor (nw_sys n)) ?hup" by (simp add: ready_clients_def ready_def)
  from served [OF net_reach_inv [OF assms(1)] _ _ assms(2,3) none attach, of e] obtain n1 ps where
    n1: "play (net_do arr sv) [gets e k f CLOSABLE, Balance pe, Balance pe] n = Inr n1"
      "net_inv arr sv n1" "has_thread k n1" "idle n1" "\<not> el_stop (sys_loop (nw_sys n1))"
      "conn_map (sys_reactor (nw_sys n1)) f = None"
      "mset (w_out (nw_px n1)) = mset (w_out (nw_px n))" "w_conns (nw_px n1) = w_conns (nw_px n) @ new_conns pe (lent n) ps"
      "ps = []" "reversed_map (w_px (nw_px n1)) f = Some b"
      "\<forall>a. traffic_map (w_center (lent n1)) a = traffic_map (w_center (lent n)) a"
    using assms(4) client(3) kernel(2) by (auto simp: closing_def)
  from admit_step [OF n1(2,5) client(1) n1(6) kernel(1)] obtain s2 c' where
    s2: "net_do arr sv (ServerSide (MainRound e f)) n1 = Inr (n1\<lparr>nw_sys := s2\<rparr>)" "net_inv arr sv (n1\<lparr>nw_sys := s2\<rparr>)"
      "sys_pc s2 = sys_pc (nw_sys n1)" "sys_lb s2 = sys_lb (nw_sys n1)"
      "g_dmps (el_group (sys_loop s2)) = g_dmps (el_group (sys_loop (nw_sys n1)))"
      "g_done (el_group (sys_loop s2)) = g_done (el_group (sys_loop (nw_sys n1)))"
      "r_center (sys_reactor s2) = account (toString (e_peer e f)) 0 (r_center (sys_reactor (nw_sys n1)))"
      "conn_map (sys_reactor s2) f = Some c'" "addr c' = e_peer e f"
    by blast
  let ?n2 = "n1\<lparr>nw_sys := s2\<rparr>"
  have ready2: "has_thread k ?n2" "idle ?n2" using n1(3,4) s2(3-6) by (simp_all add: has_thread_def idle_def)
  have cs: "[f] = ready_clients (sys_reactor (nw_sys ?n2)) ?in"
    using s2(8) by (auto simp: ready_clients_def ready_def)
  have "backend_of pe (lent ?n2) f = b" using n1(10) by (simp add: backend_of_def)
  moreover have "\<exists>t. traffic_map (w_center (lent ?n2)) (peer_text pe f) = Some t \<and> t \<le> MAX_TRAFFIC"
    using kernel(6,7) n1(11) s2(7) by (auto simp: traffic_account MAX_TRAFFIC_def split: option.splits)
  ultimately have good: "\<forall>c \<in> set [f]. good_client pe (lent ?n2) c"
    using n1(10) kernel(3-5) send ip by (simp add: good_client_def)
  from served [OF s2(2) _ _ ready2 cs attach good, of e] obtain n3 ps' where
    n3: "play (net_do arr sv) [gets e k f READABLE, Balance pe, Balance pe] ?n2 = Inr n3"
      "conn_map (sys_reactor (nw_sys n3)) f = Some c'"
      "mset (w_out (nw_px n3)) = add_mset (b, request pe f) (mset (w_out (nw_px n1)))"
      "w_conns (nw_px n3) = w_conns (nw_px n1) @ new_conns pe (lent ?n2) ps'" "fst ` set ps' = set [f]"
    using s2(8) \<open>backend_of pe (lent ?n2) f = b\<close> by (auto simp: closing_def)
  have "new_conns pe (lent ?n2) ps' = []" using known_conns [OF n3(5)] n1(10) by simp
  moreover have "play (net_do arr sv) ([gets e k f CLOSABLE, Balance pe, Balance pe] @ [ServerSide (MainRound e f)] @
      [gets e k f READABLE, Balance pe, Balance pe]) n = Inr n3"
    unfolding play_append n1(1) using s2(1) n3(1) by simp
  ultimately show ?thesis using n1(7-9) s2(9) n3(2-4) by (intro exI [of _ n3] exI [of _ c']) (simp add: new_conns_def)
qed

theorem stale_backend_witness:
  "\<exists>sv n n' c'. net_reach rev sv n \<and> w_out (nw_px n) = [(109, ''ok'')] \<and>
     play (net_do rev sv) [gets demo_env 0 9 CLOSABLE, Balance demo_kernel_answers, Balance demo_kernel_answers,
       ServerSide (MainRound demo_env 9), gets demo_env 0 9 READABLE, Balance demo_kernel_answers,
       Balance demo_kernel_answers] n = Inr n' \<and>
     conn_map (sys_reactor (nw_sys n')) 9 = Some c' \<and> mset (w_out (nw_px n')) = {#(109, ''ok''), (109, ''ok'')#} \<and>
     w_conns (nw_px n') = w_conns (nw_px n)"
proof -
  obtain sv n0 n where n: "net_reach rev sv n0" "net_sane (Balance demo_kernel_answers) n0"
      "net_do rev sv (Balance demo_kernel_answers) n0 = Inr n" "idle n" "has_thread 0 n"
      "\<not> el_stop (sys_loop (nw_sys n))" "dom (conn_map (sys_reactor (nw_sys n))) = {9}" "w_out (nw_px n) = [(109, ''ok'')]"
      "reversed_map (w_px (nw_px n)) 9 = Some 109" "traffic_map (w_center (lent n)) (toString (e_peer demo_env 9)) = Some 2"
    using demo_spinning by blast
  from goes_on [OF n(1) [unfolded net_reach_def] n(2,3)] have reach: "net_reach rev sv n" unfolding net_reach_def .
  obtain c where c: "conn_map (sys_reactor (nw_sys n)) 9 = Some c" using n(7) by blast
  have k: "request demo_kernel_answers 9 = ''ok''" "fst (pe_read demo_kernel_answers 9) = 2"
      "never_fails (pe_send demo_kernel_answers 109)" "peer_text demo_kernel_answers 9 = toString (e_peer demo_env 9)"
    using demo_sends(2) [of 109]
    by (simp_all add: request_def peer_text_def demo_kernel_answers_def) (simp_all add: demo_penv_def)
  have "e_debug demo_env" by (simp add: demo_env_def)
  from stale_backend [OF reach n(5,4,6) _ c n(9) this demo_lawful(1) _ _ k(3,4)] n(8,10) k(1,2)
  show ?thesis using reach by (fastforce simp: MAX_PACKET_SIZE_def MAX_TRAFFIC_def)
qed

end
