(* ===== verification/Spec2Isabelle.thy ===== *)
theory Spec2Isabelle
  imports Buffer Inet PubSub Demux Connection Server Server_Run Loop_Group Loader Proxy Queues Ping
    Workers Bench_Report Instance Sockets Roles
    Program System Network
begin

text \<open>
  Verification of rproxy, a TCP reverse proxy in C++ built of a reactor, a publish/subscribe
  center and a load balancer, with a load generator beside it.

  \<^bold>\<open>The program.\<close> An event loop accepts connections and hands each, in turn, to one of the
  demultiplexers (epoll instances) of a group of threads. A demultiplexer publishes what it does
  (register, modify, delete, wait) in the center; the server subscribes to these events, keeps
  the table of connections, and publishes the descriptors that became readable as a batch. The
  load balancer takes batches and publishes assignments of clients to backends; the proxy
  takes assignments, opens or reuses backend connections, and forwards the packets, and takes
  the deliveries of its own demultiplexers, forwarding replies and closing.

  \<^bold>\<open>Theories and sources\<close> (paths under \<open>src/\<close>).
  \<^item> \<open>Prelude\<close>: widths of integers, failures as values (\<open>cxx_error\<close>: exceptions and undefined
    behaviour), the binds, copies with bounds, \<open>emplace\<close> and \<open>erase\<close> of the standard maps.
  \<^item> \<open>Buffer\<close> (\<open>network/buffer.*\<close>): \<open>ArrayBuffer\<close>, every constructor and operation. It is an
    instance of the locale \<open>byte_fifo\<close> of \<open>Byte_Fifo\<close>: sequences of requests are answered as
    an abstract queue of bytes answers them.
  \<^item> \<open>Inet\<close> and \<open>Sockets\<close> (\<open>network/stream_socket.*\<close>): addresses, their text form, the socket
    helpers; the socket object, and the life of the one the server listens on.
  \<^item> \<open>PubSub\<close> (\<open>pubsub/pub_sub.*\<close>, \<open>pub_type.hpp\<close>, \<open>context.hpp\<close>, \<open>network/nw_ctx.hpp\<close>,
    \<open>proxy/proxy_ctx.hpp\<close>): the center, refined to a relation of subscriptions, its interface
    \<open>event_bus\<close>, the identifiers with their compare-and-swap loop as a step relation, and the
    accounting of traffic. \<open>Instance\<close>: the creation of the one center, its callers interleaved.
  \<^item> \<open>Roles\<close> (\<open>pubsub/publisher.hpp\<close>, \<open>subscriber.hpp\<close>): the two abstract classes as the locales
    \<open>publisher\<close> and \<open>subscriber\<close>, and \<open>link\<close>, a subscriber listening to a publisher. Every
    class that derives from them is an instance, in the theory of its component.
  \<^item> \<open>Demux\<close> (\<open>network/demultiplex.*\<close>, \<open>channel.*\<close>), \<open>Connection\<close> (\<open>tcp_connection.*\<close>),
    \<open>Server\<close> (\<open>tcp_server.*\<close>): the reactor's objects and handlers. \<open>Server_Run\<close> has the steps
    of the server, the invariant they keep, and what follows for deliveries and sends.
  \<^item> \<open>Loop_Group\<close> (\<open>network/acceptor.hpp\<close>, \<open>group.hpp\<close>, \<open>eventloop.*\<close>) and \<open>Loader\<close>
    (\<open>proxy/loader.*\<close>): both go round a list, of demultiplexers and of backends, and are the two
    instances of the locale \<open>round_robin\<close> of \<open>Round_Robin\<close>.
  \<^item> \<open>Proxy\<close> (\<open>proxy/proxy_server.*\<close>, \<open>packet.hpp\<close>): both builds, \<open>MSG_ATTACH\<close> or splice.
  \<^item> \<open>Queues\<close> (\<open>network/queue.hpp\<close>), \<open>Workers\<close> (\<open>pubsub/worker_group.hpp\<close>), \<open>Ping\<close>
    (\<open>proxy/ping.hpp\<close>): the queue and the pool as step relations of their threads; the checksum.
  \<^item> \<open>Bench\<close> (\<open>benchmark/benchmark.cpp\<close>, \<open>module/module.cpp\<close>): the load generator.
    \<open>Bench_Run\<close> has its invariant and reachable states, \<open>Bench_Report\<close> what it sends and reports.
  \<^item> \<open>Program\<close> (\<open>network/tcp_server.cc\<close>, \<open>eventloop.cc\<close>): the constructor of the server with
    all its members in order, its destructor, and the program in between: rounds of the accept
    loop, of the threads and calls of \<open>stop\<close>, in any order.
  \<^item> \<open>System\<close>: server, balancer and proxy constructed and subscribed to each other; the steps of
    the server's program and of the balancing thread interleaved, refined to a queue of batches
    that is served; and the typing of all notifications.
  \<^item> \<open>Event_System\<close>: the locale of programs that handle one event after the other, each within a
    contract of the environment; interpreted by the server (\<open>Server_Run\<close>), by its program
    (\<open>Program\<close>), by server and balancer (\<open>System\<close>) and by the whole (\<open>Network\<close>).
  \<^item> \<open>Proxy_Run\<close> (\<open>proxy/proxy_server.*\<close>, \<open>network/group.hpp\<close>): the rounds of the proxy's own
    threads, the notifier its handlers are given, and what every handler keeps.
  \<^item> \<open>Network\<close>: everything at once. The accept loop, the threads of both groups, the balancing
    thread and the calls of \<open>stop\<close> are events of one step relation over one center; what the
    balancing thread publishes is delivered to the proxy in the same call. It is safe, a
    request is followed from the client to the backend and the reply back, and a descriptor
    that is used again is followed to the wrong backend.
  \<^item> This theory: the path of a request over the three objects by themselves, and how the
    objects' identifiers tie them together.

  \<^bold>\<open>How code becomes definitions.\<close> A class is a record with the source's members, a method a
  definition from state to state under the source's name (\<open>buf_append\<close> for \<open>append\<close> and the
  like where a name is taken); exceptions and undefined behaviour are values of \<open>cxx_error\<close>
  (\<open>Inl\<close>), so that a theorem with \<open>Inr\<close> says that neither happens. Integers keep their width.
  A thread is a sequence of steps; where threads interleave inside an operation (the queue,
  the pool, the identifiers, the creation of the center) the parts between which they may are the steps. Notifications are
  calls: a handler is given the function that notifies, which dispatches to the handlers.

  \<^bold>\<open>Bounds.\<close> Handlers notify and are notified, so the notifier of the server is defined with a
  nesting depth; the depth is 3, and the lemmas of \<open>Server_Run\<close> show that every entry point
  returns with it, \<open>StackExhausted\<close> never being the result in a reachable state; the notifier
  of the proxy has the same depth, and there a handler that never returns is the failure
  \<open>NeverReturns\<close>, which \<open>Network\<close> shows never to be the result. The loops that
  need not end (\<open>send_loop\<close>, \<open>splice_loop\<close>, \<open>round_up_loop\<close>, and the loops of the load
  generator) are partial functions whose result \<open>None\<close> is that they run forever; that they
  return is proved, with the conditions on the kernel it takes.

  \<^bold>\<open>Parameters.\<close> Answers of system calls and of libc are arguments (\<open>env\<close>, \<open>penv\<close>, \<open>probe\<close>,
  \<open>kern\<close>), and the order of a hash table (\<open>arranges\<close>) and \<open>qsort\<close> too. Where a theorem needs
  what the manual says of them it has it as a named hypothesis (\<open>accepts\<close>,
  \<open>fcntl_documented\<close>, \<open>bind_documented\<close>, \<open>obliging\<close>, \<open>sane\<close>, \<open>lawful\<close>, \<open>net_sane\<close>, \<open>kern_ok\<close>,
  \<open>qsort_documented\<close>), each with an instance that satisfies it.

  \<^bold>\<open>What the lemmas show.\<close> For each component an invariant and its preservation by each
  operation (\<open>buf_ok\<close>, \<open>reactor_ok\<close>, \<open>server_inv\<close>, \<open>group_ok\<close>, \<open>program_inv\<close>, \<open>sys_inv\<close>, \<open>px_ok\<close>, \<open>px_inv\<close>,
  \<open>net_inv\<close>, \<open>lq_inv\<close>, \<open>pool_ok\<close>, \<open>bench_inv\<close>); from these the safety of the reachable states, what each handler does on all its
  branches, the refinements, and the flaws: behaviour the code has against its intention is
  stated as a theorem about the code as it is.

  \<^bold>\<open>Not modelled.\<close> A \<open>main\<close>: the build names \<open>src/main.cc\<close>, which is not in the repository, so
  \<open>System\<close> puts the objects together the one way their \<open>subscribe\<close> methods and event types
  allow; interleaving inside a handler of the server or of the proxy, whose rounds are single
  steps (the data races this hides are findings); what is printed; \<open>ignoreSignal\<close>, which nothing calls, and so the death of the load generator
  by \<open>SIGPIPE\<close>; the templated \<open>submit\<close> of the pool, which does not compile; the build
  files; the static \<open>read\<close>, \<open>write\<close> and \<open>close\<close> of \<open>StreamSocket\<close>,
  which appear as the system calls they are; failures of memory allocation.
\<close>

section \<open>The whole path of a request\<close>

text \<open>What the balancing thread publishes for a batch handed to it while it spins.\<close>

lemma balance_batch:
  assumes "backend lb \<noteq> []" "sock_queue lb = []" "distinct socks" "arranges arr"
  shows "\<exists>m lb'. lb_run arr [Batch socks, ThreadStep] (Spinning, lb) =
      Inr ([ForwardContext (pub_code FORWARD) (arr m)], LoopHead, lb') \<and> map fst m = socks \<and>
    (\<forall>j < length socks. (socks ! j, snd (backend lb ! (j mod length (backend lb)))) \<in> set (arr m)) \<and>
    set (arr m) = set m \<and> distinct (map fst (arr m))"
proof -
  from balancing_serves [OF assms(1,3)] obtain m where m: "balancing lb socks = Inr m" by blast
  have "mset (arr m) = mset m" using assms(4) by (simp add: arranges_def)
  note assigned = batch_assigned [OF assms(1,3) this m]
  have "balancing (lb\<lparr>lb_sockes := socks, sock_queue := []\<rparr>) socks = Inr m"
    using m by (simp add: balancing_def)
  with assigned assms(2) show ?thesis
    by (intro exI [of _ m] exI [of _ "lb\<lparr>lb_sockes := socks, sock_queue := []\<rparr>"])
      (simp add: lb_update_def updateForLoadbalance_def lb_serve_def)
qed

text \<open>The path of a request, over the three objects it crosses. The server, in any state it
  reaches, is delivered events; it hands the clients that are ready to the balancer, its only
  subscriber, in one batch; the balancing thread publishes an assignment of the batch; and
  the proxy, called with it, delivers to the backend connection of each of these clients
  exactly that client's request, once, and nothing else. The connection of a new client goes
  to the backend of its place in the batch, counted round the backends.\<close>

theorem request_path:
  assumes server: "server_reach sv r" "r_dmps r n = Some d" "eps \<noteq> []" "distinct (map resp_fd eps)"
    and balancer: "others sv (r_center r) (srv_pub_id sv) BALANCE = [lb_addr lb]"
      "backend lb \<noteq> []" "sock_queue lb = []" "arranges arr"
    and proxy: "px_ok w" "pe_attach pe" "\<forall>c \<in> set (ready_clients r eps). good_client pe w c"
      "distinct (map (peer_text pe) (ready_clients r eps))"
      "inj_on (\<lambda>c. fst (pe_connect pe c)) (set (ready_clients r eps))"
  shows "\<exists>r' x lb' w'.
    server_do sv (Deliver e n eps) r = Inr r' \<and>
    outbox r' = outbox r @ [(lb_addr lb, LoadBalanceCtx (pub_code BALANCE) (ready_clients r eps))] \<and>
    lb_run arr [Batch (ready_clients r eps), ThreadStep] (Spinning, lb) = Inr ([x], LoopHead, lb') \<and>
    px_update ntf pe x w = Some (Inr (x, w')) \<and> px_ok w' \<and>
    mset (w_out w') = mset (w_out w) +
      mset (map (\<lambda>c. (backend_of pe w c, request pe c)) (ready_clients r eps)) \<and>
    (\<forall>j < length (ready_clients r eps). reversed_map (w_px w) (ready_clients r eps ! j) = None \<longrightarrow>
       (backend_of pe w (ready_clients r eps ! j), snd (backend lb ! (j mod length (backend lb))))
         \<in> set (w_conns w'))"
proof -
  let ?cs = "ready_clients r eps"
  have cs: "distinct ?cs" using server(4) by (rule distinct_ready_clients)
  have "reactor_ok sv r" using server_reach_inv [OF server(1)] by (simp add: server_inv_def)
  from server_wait_ok [OF this server(2-4), of e] obtain r' where
    r': "server_do sv (Deliver e n eps) r = Inr r'"
      "outbox r' = outbox r @ [(lb_addr lb, LoadBalanceCtx (pub_code BALANCE) ?cs)]"
    using server(2) balancer(1) by (auto simp: ready_clients_def)
  from balance_batch [OF balancer(2,3) cs balancer(4)] obtain m lb' where
    m: "lb_run arr [Batch ?cs, ThreadStep] (Spinning, lb) =
        Inr ([ForwardContext (pub_code FORWARD) (arr m)], LoopHead, lb')" "map fst m = ?cs"
      "\<forall>j < length ?cs. (?cs ! j, snd (backend lb ! (j mod length (backend lb)))) \<in> set (arr m)"
    by blast
  have "mset (arr m) = mset m" using balancer(4) by (simp add: arranges_def)
  from forward_balanced [OF proxy(1-3) cs proxy(4,5) m(2) this, of ntf] obtain w' where
    w': "px_update ntf pe (ForwardContext (pub_code FORWARD) (arr m)) w =
        Some (Inr (ForwardContext (pub_code FORWARD) (arr m), w'))" "px_ok w'"
      "mset (w_out w') = mset (w_out w) + mset (map (\<lambda>c. (backend_of pe w c, request pe c)) ?cs)"
      "w_conns w' = w_conns w @ new_conns pe w (arr m)" by blast
  have "(backend_of pe w c, a) \<in> set (w_conns w')"
    if "(c, a) \<in> set (arr m)" "reversed_map (w_px w) c = None" for c a
    using that w'(4) by (force simp: new_conns_def backend_of_def)
  then show ?thesis using r' m(1,3) w'(1-3) by blast
qed

theorem request_path_witness:
  "\<exists>r r' x lb' w'. server_reach demo_server r \<and>
     server_do demo_server (Deliver demo_env 0 [\<lparr>resp_fd = 5, resp_events = READABLE\<rparr>]) r = Inr r' \<and>
     outbox r' = [(50, LoadBalanceCtx (pub_code BALANCE) [5])] \<and>
     lb_run (\<lambda>m. m) [Batch [5], ThreadStep] (Spinning, demo_balancer\<lparr>lb_addr := 50\<rparr>) = Inr ([x], LoopHead, lb') \<and>
     px_update demo_ntf demo_penv x demo_accounts = Some (Inr (x, w')) \<and>
     mset (w_out w') = {#(105, ''ok'')#} \<and> (105, make_inet ''a'' 1) \<in> set (w_conns w')"
proof -
  let ?q = "\<lparr>resp_fd = 5, resp_events = READABLE\<rparr>" and ?lb = "demo_balancer\<lparr>lb_addr := 50\<rparr>"
  obtain r c where r: "server_reach demo_server r" "conn_map r = [5 \<mapsto> c]"
      "others demo_server (r_center r) 0 BALANCE = [50]" "outbox r = []"
      "r_dmps r = [0 \<mapsto> \<lparr>dmp_id = 0, dmpfd = 4, notify_on = True\<rparr>]"
    using demo_open by blast
  have dm: "r_dmps r 0 = Some \<lparr>dmp_id = 0, dmpfd = 4, notify_on = True\<rparr>" using r(5) by simp
  have cs: "ready_clients r [?q] = [5]" using r(2) by (simp add: ready_clients_def ready_def)
  have lb: "others demo_server (r_center r) (srv_pub_id demo_server) BALANCE = [lb_addr ?lb]"
      "backend ?lb \<noteq> []" "sock_queue ?lb = []" "arranges (\<lambda>m :: (fd \<times> inet_addr) list. m)"
    using r(3) by (simp_all add: demo_server_def demo_balancer_def arranges_def)
  have px: "pe_attach demo_penv" "\<forall>c \<in> set (ready_clients r [?q]). good_client demo_penv demo_accounts c"
      "distinct (map (peer_text demo_penv) (ready_clients r [?q]))"
      "inj_on (\<lambda>c. fst (pe_connect demo_penv c)) (set (ready_clients r [?q]))"
    using demo_good_client [of 5] by (simp_all add: cs demo_penv_def)
  have world: "reversed_map (w_px demo_accounts) = Map.empty" "w_out demo_accounts = []"
      "backend_of demo_penv demo_accounts 5 = 105" "request demo_penv 5 = ''ok''"
      "snd (backend ?lb ! 0) = make_inet ''a'' 1"
    by (simp_all add: demo_accounts_def demo_world_def backend_of_def request_def demo_penv_def demo_balancer_def)
  from request_path [OF r(1) dm _ _ lb demo_accounts_ok px, of demo_env demo_ntf]
  show ?thesis using r(1,4) world by (simp add: cs) blast
qed

section \<open>How the objects find each other\<close>

text \<open>C29. The program's wiring rests on a coincidence, and falls with it. When the server is built
  on the first demultiplexer and the balancer subscribes to the server's batches, the server
  publishes under an identifier nobody registered for it, but which equals the
  demultiplexer's, so the batches do reach the balancer. The balancer's identifier equals it
  too: its registration is dropped, and destroying it unregisters the demultiplexer, so that
  afterwards neither the demultiplexer's events reach the server nor the batches anyone.\<close>

theorem balancer_unregisters_server:
  assumes "make_demux epfd a fresh_ids c0 = Inr (d, i1, c1)" "c0 = new_center\<lparr>publishers := [acc \<mapsto> k]\<rparr>"
    and "make_server self acc [dmp_id d] i1 c1 = Inr (sv, i2, c2)" "acc \<noteq> 0"
    and "make_balancer b i2 c2 = Inr (lb, i3, c3)"
    and "subscribe (srv_pub_id sv) BALANCE (Some b) c3 = Inr c4"
  shows "srv_pub_id sv = dmp_id d \<and> lb_pub lb = dmp_id d \<and>
    center_targets c4 (srv_pub_id sv) BALANCE = {b} \<and> center_targets c4 (dmp_id d) DMPWAIT = {self} \<and>
    center_targets (snd (destroy_balancer lb c4)) (dmp_id d) t = {} \<and>
    center_targets (snd (destroy_balancer lb c4)) (srv_pub_id sv) t = {}"
proof -
  have d: "dmp_id d = 0" "i1 = snd (pub_id Demultiplex_cc fresh_ids)" "registered c1 0"
    "center_targets c1 = (\<lambda>p t. {})"
    using assms(1,2,4) by (auto simp: make_demux_def pub_id_def fresh_ids_def registerPub_def new_center_def
        registered_def center_targets_eq sub_entry_def emplace_def result_simps fun_eq_iff split: if_splits)
  from assms(3) have sv: "srv_pub_id sv = 0" "wire subscribe (server_events acc [0]) self c1 = Inr c2"
    "PublisherID i2 Loader_cc = 0"
    using d(1,2) by (auto simp: make_server_def sub_id_def pub_id_def fresh_ids_def result_simps)
  from bus.wire_sub [of "server_events acc [0]" self c1] sv(2)
  have c2: "registered c2 = registered c1"
    "center_targets c2 = (\<lambda>p t. if (p, t) \<in> set (server_events acc [0]) \<and> registered c1 p then {self} else {})"
    by (auto simp: d(4) fun_eq_iff)
  have "registered c2 0" using c2(1) d(3) by simp
  then obtain y where "publishers c2 0 = Some y" by (auto simp: registered_def)
  then have lb: "lb_pub lb = 0" "c3 = c2"
    using assms(5) sv(3) by (auto simp: make_balancer_def pub_id_def sub_id_def registerPub_def
        registered_def emplace_def result_simps)
  from bus.sub_law [of 0 BALANCE b c3] assms(6) sv(1)
  have c4: "registered c4 = registered c2"
      "center_targets c4 = (\<lambda>p t. if p = 0 \<and> t = BALANCE then insert b (center_targets c2 p t) else center_targets c2 p t)"
    using lb(2) d(3) c2(1) by (auto simp: fun_eq_iff)
  have "\<not> registered (unRegisterPub 0 c4) 0"
    using c4(1) c2(1) d(3) by (auto simp: unRegisterPub_def registered_def erase_def split: option.splits)
  then show ?thesis
    using d(1,3) sv(1) lb(1) c4 c2 assms(4)
    by (simp add: server_events_def destroy_balancer_def center_targets_eq [of "unRegisterPub 0 c4"])
qed

theorem balancer_unregisters_server_witness:
  "\<exists>d i1 c1 sv i2 c2 lb i3 c3 c4.
     make_demux 4 7 fresh_ids (new_center\<lparr>publishers := [1 \<mapsto> 9]\<rparr>) = Inr (d, i1, c1) \<and>
     make_server 42 1 [dmp_id d] i1 c1 = Inr (sv, i2, c2) \<and> make_balancer 50 i2 c2 = Inr (lb, i3, c3) \<and>
     subscribe (srv_pub_id sv) BALANCE (Some 50) c3 = Inr c4 \<and>
     center_targets c4 (dmp_id d) DMPWAIT = {42} \<and>
     center_targets (snd (destroy_balancer lb c4)) (dmp_id d) DMPWAIT = {}"
proof -
  let ?c0 = "new_center\<lparr>publishers := [1 \<mapsto> 9]\<rparr>"
  obtain d i1 c1 where d: "make_demux 4 7 fresh_ids ?c0 = Inr (d, i1, c1)"
    by (simp add: make_demux_def registerPub_def pub_id_def)
  obtain sv i2 c2 where sv: "make_server 42 1 [dmp_id d] i1 c1 = Inr (sv, i2, c2)"
    using bus.wire_sub [of "server_events 1 [dmp_id d]" 42 c1]
    by (auto simp: make_server_def sub_id_def pub_id_def)
  obtain lb i3 c3 where lb: "make_balancer 50 i2 c2 = Inr (lb, i3, c3)"
    by (simp add: make_balancer_def registerPub_def pub_id_def sub_id_def)
  obtain c4 where c4: "subscribe (srv_pub_id sv) BALANCE (Some 50) c3 = Inr c4"
    using bus.sub_law by blast
  from balancer_unregisters_server [OF d refl sv _ lb c4, of DMPWAIT] d sv lb c4
  show ?thesis by (intro exI conjI) auto
qed

end
